(* ===== verification/Flowcat_Prelude.thy ===== *)
theory Flowcat_Prelude
  imports Main "HOL-Library.Word"
begin

text \<open>
  Shared vocabulary of the development.

  \<^item> Rust's machine integers as \<open>'w word\<close> and Rust's \<open>Result\<close> as a sum
    (\<open>Ok\<close> is \<open>Inr\<close>, \<open>Err\<close> is \<open>Inl\<close>).
  \<^item> Rust text: a \<open>char\<close> is a Unicode scalar value (a \<open>nat\<close>), a
    \<open>String\<close> is the list of its scalar values; \<open>len_utf8\<close>,
    \<open>is_whitespace\<close>, \<open>is_ascii_digit\<close>, \<open>trim_matches(' ')\<close>,
    \<open>split_whitespace\<close> and byte-offset slicing (which panics off a character
    boundary) are the standard library's.
  \<^item> Big-endian byte encodings (\<open>to_be_bytes\<close>, \<open>from_be_bytes\<close>)
    and checked indexing (a panic is \<open>None\<close>).
  \<^item> Generic list lemmas and the theorem collections the component theories extend.
\<close>

unbundle bit_operations_syntax

section \<open>Theorem collections\<close>

named_theorems frame_simps \<open>classification of frames\<close>
named_theorems eff_simps \<open>effects of pushes and hooks\<close>
named_theorems text_simps \<open>Rust text primitives\<close>

section \<open>Machine integers and results\<close>

type_synonym u8 = "8 word"
type_synonym u16 = "16 word"
type_synonym u32 = "32 word"
type_synonym u64 = "64 word"
type_synonym i16 = "16 word"
type_synonym i64 = "64 word"

abbreviation (input) Ok :: "'a \<Rightarrow> 'e + 'a" where "Ok \<equiv> Inr"
abbreviation (input) Err :: "'e \<Rightarrow> 'e + 'a" where "Err \<equiv> Inl"

text \<open>\<open>saturating_add\<close> at any width.\<close>

definition saturating_add :: "'w::len word \<Rightarrow> 'w word \<Rightarrow> 'w word" where
  "saturating_add a b = (if unat a + unat b < 2 ^ LENGTH('w) then a + b else - 1)"

lemma unat_saturating_add:
  "unat (saturating_add a (b :: 'w::len word)) = min (unat a + unat b) (2 ^ LENGTH('w) - 1)"
proof (cases "unat a + unat b < 2 ^ LENGTH('w)")
  case True
  then show ?thesis by (simp add: saturating_add_def unat_word_ariths)
next
  case False
  then show ?thesis by (auto simp: saturating_add_def unsigned_minus_1_eq_mask mask_eq_exp_minus_1 min_def)
qed

fun find_map :: "('a \<Rightarrow> 'b option) \<Rightarrow> 'a list \<Rightarrow> 'b option" where
  "find_map f [] = None"
| "find_map f (x # xs) = (case f x of Some y \<Rightarrow> Some y | None \<Rightarrow> find_map f xs)"

lemma find_map_Some: "find_map f xs = Some y \<Longrightarrow> \<exists>x\<in>set xs. f x = Some y"
  by (induction xs) (auto split: option.splits)

section \<open>Checked indexing\<close>

text \<open>\<open>xs[i]\<close> on a slice: \<open>None\<close> is the out-of-bounds panic.\<close>

definition index :: "'a list \<Rightarrow> nat \<Rightarrow> 'a option" where
  "index xs i = (if i < length xs then Some (xs ! i) else None)"

lemma index_Some [simp]: "i < length xs \<Longrightarrow> index xs i = Some (xs ! i)"
  by (simp add: index_def)

lemma index_None_iff [simp]: "index xs i = None \<longleftrightarrow> length xs \<le> i"
  by (simp add: index_def not_less)

lemma index_Cons_0 [simp]: "index (x # xs) 0 = Some x"
  by (simp add: index_def)

lemma index_Cons_Suc [simp]: "index (x # xs) (Suc i) = index xs i"
  by (simp add: index_def)

lemma index_Cons_numeral [simp]: "index (x # xs) (numeral k) = index xs (pred_numeral k)"
  by (simp add: index_def numeral_eq_Suc)

section \<open>Big-endian bytes\<close>

definition u16_to_be :: "u16 \<Rightarrow> u8 list" where
  "u16_to_be x = [ucast (drop_bit 8 x), ucast x]"

definition u16_from_be :: "u8 \<Rightarrow> u8 \<Rightarrow> u16" where
  "u16_from_be a b = push_bit 8 (ucast a) OR ucast b"

definition u32_to_be :: "u32 \<Rightarrow> u8 list" where
  "u32_to_be x = [ucast (drop_bit 24 x), ucast (drop_bit 16 x), ucast (drop_bit 8 x), ucast x]"

definition u32_from_be :: "u8 \<Rightarrow> u8 \<Rightarrow> u8 \<Rightarrow> u8 \<Rightarrow> u32" where
  "u32_from_be a b c d =
     push_bit 24 (ucast a) OR push_bit 16 (ucast b) OR push_bit 8 (ucast c) OR ucast d"

lemma u16_be_round:
  "u16_from_be (ucast (drop_bit 8 x)) (ucast x) = x"
  unfolding u16_from_be_def
  by (rule bit_word_eqI) (auto simp: bit_simps)

lemma u32_be_round:
  "u32_from_be (ucast (drop_bit 24 x)) (ucast (drop_bit 16 x)) (ucast (drop_bit 8 x)) (ucast x) = x"
  unfolding u32_from_be_def
proof (rule bit_word_eqI, goal_cases)
  case (1 n)
  then consider "n < 8" | "8 \<le> n" "n < 16" | "16 \<le> n" "n < 24" | "24 \<le> n" "n < 32"
    by (cases "n < 8"; cases "n < 16"; cases "n < 24") auto
  then show ?case
    by cases (auto simp: bit_simps)
qed

lemma length_u16_to_be [simp]: "length (u16_to_be x) = 2"
  by (simp add: u16_to_be_def)

lemma length_u32_to_be [simp]: "length (u32_to_be x) = 4"
  by (simp add: u32_to_be_def)

section \<open>Rust text\<close>

type_synonym uchar = nat
type_synonym ustr = "uchar list"

text \<open>An ASCII literal of the source as Rust text.\<close>

definition lit :: "string \<Rightarrow> ustr" where
  "lit s = map of_char s"

lemma lit_Nil [simp]: "lit [] = []"
  by (simp add: lit_def)

lemma lit_Cons [simp]: "lit (c # s) = of_char c # lit s"
  by (simp add: lit_def)

text \<open>\<open>char::len_utf8\<close>, \<open>char::is_whitespace\<close> (the Unicode
  \<open>White_Space\<close> property) and \<open>char::is_ascii_digit\<close>.\<close>

definition len_utf8 :: "uchar \<Rightarrow> nat" where
  "len_utf8 c = (if c < 128 then 1 else if c < 2048 then 2 else if c < 65536 then 3 else 4)"

definition is_whitespace :: "uchar \<Rightarrow> bool" where
  "is_whitespace c \<longleftrightarrow>
     (9 \<le> c \<and> c \<le> 13) \<or> c = 32 \<or> c = 133 \<or> c = 160 \<or> c = 5760 \<or>
     (8192 \<le> c \<and> c \<le> 8202) \<or> c = 8232 \<or> c = 8233 \<or> c = 8239 \<or> c = 8287 \<or> c = 12288"

definition is_ascii_digit :: "uchar \<Rightarrow> bool" where
  "is_ascii_digit c \<longleftrightarrow> 48 \<le> c \<and> c \<le> 57"

text \<open>\<open>str::len\<close> is the length in bytes.\<close>

definition byte_len :: "ustr \<Rightarrow> nat" where
  "byte_len s = sum_list (map len_utf8 s)"

lemma len_utf8_pos [simp]: "0 < len_utf8 c"
  by (simp add: len_utf8_def)

lemma byte_len_Nil [simp]: "byte_len [] = 0"
  by (simp add: byte_len_def)

lemma byte_len_Cons [simp]: "byte_len (c # s) = len_utf8 c + byte_len s"
  by (simp add: byte_len_def)

lemma byte_len_append [simp]: "byte_len (s @ t) = byte_len s + byte_len t"
  by (simp add: byte_len_def)

text \<open>Slicing \<open>(&s[..n], &s[n..])\<close> at a byte offset; \<open>None\<close> is the panic
  off a character boundary or past the end.\<close>

fun split_at_byte :: "nat \<Rightarrow> ustr \<Rightarrow> (ustr \<times> ustr) option" where
  "split_at_byte n s =
     (if n = 0 then Some ([], s)
      else case s of
        [] \<Rightarrow> None
      | c # cs \<Rightarrow>
          if len_utf8 c \<le> n
          then map_option (apfst (Cons c)) (split_at_byte (n - len_utf8 c) cs)
          else None)"

declare split_at_byte.simps [simp del]

lemma split_at_byte_0 [simp]: "split_at_byte 0 s = Some ([], s)"
  by (simp add: split_at_byte.simps)

lemma split_at_byte_append [simp]:
  "split_at_byte (byte_len s) (s @ t) = Some (s, t)"
proof (induction s)
  case Nil
  then show ?case by simp
next
  case (Cons c s)
  have "byte_len (c # s) \<noteq> 0" by simp
  then show ?case
    by (subst split_at_byte.simps) (simp add: Cons.IH)
qed

lemma split_at_byte_Some:
  "split_at_byte n s = Some (a, b) \<Longrightarrow> s = a @ b \<and> byte_len a = n"
proof (induction n s arbitrary: a rule: split_at_byte.induct)
  case (1 n s)
  show ?case
  proof (cases "n = 0")
    case True
    with "1.prems" show ?thesis by simp
  next
    case False
    with "1.prems" obtain c cs a' where s: "s = c # cs" and le: "len_utf8 c \<le> n"
      and rec: "split_at_byte (n - len_utf8 c) cs = Some (a', b)" and a: "a = c # a'"
      by (subst (asm) split_at_byte.simps) (auto split: list.splits if_splits)
    from "1.IH" [OF False s le rec] s a le show ?thesis by simp
  qed
qed

text \<open>\<open>trim_matches(' ')\<close>, \<open>trim\<close> and \<open>trim_start\<close>.\<close>

definition trim_by :: "('a \<Rightarrow> bool) \<Rightarrow> 'a list \<Rightarrow> 'a list" where
  "trim_by P s = rev (dropWhile P (rev (dropWhile P s)))"

abbreviation trim_spaces :: "ustr \<Rightarrow> ustr" where
  "trim_spaces \<equiv> trim_by (\<lambda>c. c = 32)"

abbreviation trim :: "ustr \<Rightarrow> ustr" where
  "trim \<equiv> trim_by is_whitespace"

lemma trim_by_Nil [simp]: "trim_by P [] = []"
  by (simp add: trim_by_def)

lemma trim_by_infix:
  "\<exists>a b. s = a @ trim_by P s @ b \<and> (\<forall>c \<in> set a. P c) \<and> (\<forall>c \<in> set b. P c)"
proof -
  let ?d = "dropWhile P s" and ?r = "rev (dropWhile P s)"
  have "s = takeWhile P s @ ?d" by simp
  moreover have "?d = rev (dropWhile P ?r) @ rev (takeWhile P ?r)"
    by (metis rev_append rev_rev_ident takeWhile_dropWhile_id)
  ultimately have "s = takeWhile P s @ trim_by P s @ rev (takeWhile P ?r)"
    by (simp add: trim_by_def)
  then show ?thesis
    by (intro exI [of _ "takeWhile P s"] exI [of _ "rev (takeWhile P ?r)"])
       (auto dest: set_takeWhileD)
qed

text \<open>Removing the trimmed characters everywhere forgets the trimming.\<close>

lemma filter_trim_by [simp]:
  "filter (\<lambda>c. \<not> P c) (trim_by P s) = filter (\<lambda>c. \<not> P c) s"
proof -
  obtain a b where s: "s = a @ trim_by P s @ b"
    and a: "\<forall>c \<in> set a. P c" and b: "\<forall>c \<in> set b. P c"
    using trim_by_infix [of s P] by blast
  have "filter (\<lambda>c. \<not> P c) a = []" and "filter (\<lambda>c. \<not> P c) b = []"
    using a b by (simp_all add: filter_empty_conv)
  then show ?thesis by (subst (2) s) simp
qed

text \<open>\<open>split_whitespace\<close>: the maximal non-whitespace runs.\<close>

function split_whitespace :: "ustr \<Rightarrow> ustr list" where
  "split_whitespace s =
     (let t = dropWhile is_whitespace s in
      if t = [] then []
      else takeWhile (\<lambda>c. \<not> is_whitespace c) t
             # split_whitespace (dropWhile (\<lambda>c. \<not> is_whitespace c) t))"
  by pat_completeness auto
termination
proof (relation "measure length", goal_cases)
  case 1
  then show ?case by simp
next
  case (2 s t)
  let ?t = "dropWhile is_whitespace s"
  from 2 have ne: "?t \<noteq> []" by simp
  then have hd: "\<not> is_whitespace (hd ?t)" by (rule hd_dropWhile)
  with ne have "length (dropWhile (\<lambda>c. \<not> is_whitespace c) ?t) \<le> length (tl ?t)"
    by (cases ?t) (simp_all add: length_dropWhile_le)
  also have "\<dots> < length ?t" using ne by (cases ?t) simp_all
  also have "\<dots> \<le> length s" by (rule length_dropWhile_le)
  finally show ?case using 2 by simp
qed

declare split_whitespace.simps [simp del]

lemma split_whitespace_nonempty: "w \<in> set (split_whitespace s) \<Longrightarrow> w \<noteq> []"
proof (induction s rule: split_whitespace.induct)
  case (1 s)
  let ?t = "dropWhile is_whitespace s"
  show ?case
  proof (cases "?t = []")
    case True
    with "1.prems" show ?thesis by (simp add: split_whitespace.simps [of s])
  next
    case False
    then have "\<not> is_whitespace (hd ?t)" by (rule hd_dropWhile)
    with False have "takeWhile (\<lambda>c. \<not> is_whitespace c) ?t \<noteq> []"
      by (cases ?t) simp_all
    moreover have "w = takeWhile (\<lambda>c. \<not> is_whitespace c) ?t \<or>
        w \<in> set (split_whitespace (dropWhile (\<lambda>c. \<not> is_whitespace c) ?t))"
      using "1.prems" False by (subst (asm) split_whitespace.simps) (simp add: Let_def split: if_splits)
    ultimately show ?thesis using "1.IH" [OF refl False] by metis
  qed
qed

text \<open>\<open>str::find\<close> with the text around the first occurrence, and
  \<open>matches(pat).count()\<close> (disjoint occurrences; the empty pattern matches at every
  boundary).\<close>

fun strip_prefix :: "'a list \<Rightarrow> 'a list \<Rightarrow> 'a list option" where
  "strip_prefix [] s = Some s"
| "strip_prefix (p # ps) [] = None"
| "strip_prefix (p # ps) (c # cs) = (if p = c then strip_prefix ps cs else None)"

lemma strip_prefix_append [simp]: "strip_prefix p (p @ s) = Some s"
  by (induction p) simp_all

lemma strip_prefix_Some: "strip_prefix p s = Some t \<longleftrightarrow> s = p @ t"
  by (induction p s rule: strip_prefix.induct) auto

fun find_split :: "'a list \<Rightarrow> 'a list \<Rightarrow> ('a list \<times> 'a list) option" where
  "find_split pat [] = (if pat = [] then Some ([], []) else None)"
| "find_split pat (c # cs) =
     (case strip_prefix pat (c # cs) of
        Some rest \<Rightarrow> Some ([], rest)
      | None \<Rightarrow> map_option (apfst (Cons c)) (find_split pat cs))"

lemma find_split_Some: "find_split pat s = Some (pre, post) \<Longrightarrow> s = pre @ pat @ post"
  by (induction s arbitrary: pre)
     (auto simp: strip_prefix_Some split: if_splits option.splits)

function count_matches :: "'a list \<Rightarrow> 'a list \<Rightarrow> nat" where
  "count_matches pat s =
     (if pat = [] then Suc (length s)
      else case find_split pat s of
        None \<Rightarrow> 0
      | Some (pre, post) \<Rightarrow> Suc (count_matches pat post))"
  by pat_completeness auto
termination
proof (relation "measure (length \<circ> snd)", goal_cases)
  case 1
  then show ?case by simp
next
  case (2 pat s a pre post)
  then have "s = pre @ pat @ post" by (auto dest: find_split_Some)
  with 2 show ?case by simp
qed

declare count_matches.simps [simp del]

end
