(* ===== verification/Floats.thy ===== *)
theory Floats
  imports Complex_Main Flowcat_Prelude
begin

text \<open>
  Rust's \<open>f32\<close> and \<open>f64\<close> as IEEE-754 binary formats over exact
  rationals: a finite value is the rational it denotes, every arithmetic operation is
  the exact operation followed by rounding to nearest, ties to even, with overflow to
  infinity and gradual underflow. Comparison with NaN is false. The sign of zero is not
  represented (no modelled operation observes it).
\<close>

datatype fl = FNum rat | FInf bool | FNaN

record fmt =
  prec :: nat
  emin :: int
  emax :: int

definition f32_fmt :: fmt where
  "f32_fmt = \<lparr>prec = 24, emin = - 149, emax = 127\<rparr>"

definition f64_fmt :: fmt where
  "f64_fmt = \<lparr>prec = 53, emin = - 1074, emax = 1023\<rparr>"

type_synonym f32 = fl
type_synonym f64 = fl

definition pow2 :: "int \<Rightarrow> rat" where
  "pow2 e = (if 0 \<le> e then 2 ^ nat e else 1 / 2 ^ nat (- e))"

function bit_length :: "int \<Rightarrow> int" where
  "bit_length n = (if n \<le> 0 then 0 else 1 + bit_length (n div 2))"
  by pat_completeness auto
termination
  by (relation "measure nat") auto

declare bit_length.simps [simp del]

text \<open>The binary exponent of a positive rational.\<close>

definition ilog2 :: "rat \<Rightarrow> int" where
  "ilog2 x =
     (let (n, d) = quotient_of x;
          e = bit_length n - bit_length d
      in if pow2 e \<le> x then e else e - 1)"

definition round_half_even :: "rat \<Rightarrow> int" where
  "round_half_even x =
     (let f = \<lfloor>x\<rfloor>; r = x - of_int f
      in if r < 1 / 2 then f else if 1 / 2 < r then f + 1 else if even f then f else f + 1)"

definition fl_round :: "fmt \<Rightarrow> rat \<Rightarrow> fl" where
  "fl_round F x =
     (if x = 0 then FNum 0
      else let e = max (ilog2 \<bar>x\<bar> - (int (prec F) - 1)) (emin F);
               v = of_int (round_half_even (x / pow2 e)) * pow2 e
           in if pow2 (emax F + 1) \<le> \<bar>v\<bar> then FInf (x < 0) else FNum v)"

section \<open>Operations\<close>

fun fl_ge :: "fl \<Rightarrow> fl \<Rightarrow> bool" where
  "fl_ge FNaN _ = False"
| "fl_ge _ FNaN = False"
| "fl_ge (FInf False) _ = True"
| "fl_ge (FInf True) b = (b = FInf True)"
| "fl_ge (FNum x) (FInf neg) = neg"
| "fl_ge (FNum x) (FNum y) = (y \<le> x)"

abbreviation fl_le :: "fl \<Rightarrow> fl \<Rightarrow> bool" where
  "fl_le a b \<equiv> fl_ge b a"

fun fl_add :: "fmt \<Rightarrow> fl \<Rightarrow> fl \<Rightarrow> fl" where
  "fl_add F FNaN _ = FNaN"
| "fl_add F _ FNaN = FNaN"
| "fl_add F (FInf a) (FInf b) = (if a = b then FInf a else FNaN)"
| "fl_add F (FInf a) (FNum _) = FInf a"
| "fl_add F (FNum _) (FInf b) = FInf b"
| "fl_add F (FNum x) (FNum y) = fl_round F (x + y)"

fun fl_sub :: "fmt \<Rightarrow> fl \<Rightarrow> fl \<Rightarrow> fl" where
  "fl_sub F a (FNum y) = fl_add F a (FNum (- y))"
| "fl_sub F a (FInf b) = fl_add F a (FInf (\<not> b))"
| "fl_sub F a FNaN = FNaN"

fun fl_mul :: "fmt \<Rightarrow> fl \<Rightarrow> fl \<Rightarrow> fl" where
  "fl_mul F FNaN _ = FNaN"
| "fl_mul F _ FNaN = FNaN"
| "fl_mul F (FInf a) (FInf b) = FInf (a \<noteq> b)"
| "fl_mul F (FInf a) (FNum y) = (if y = 0 then FNaN else FInf (a \<noteq> (y < 0)))"
| "fl_mul F (FNum x) (FInf b) = (if x = 0 then FNaN else FInf ((x < 0) \<noteq> b))"
| "fl_mul F (FNum x) (FNum y) = fl_round F (x * y)"

text \<open>A zero divisor is taken as \<open>+0\<close>.\<close>

fun fl_div :: "fmt \<Rightarrow> fl \<Rightarrow> fl \<Rightarrow> fl" where
  "fl_div F FNaN _ = FNaN"
| "fl_div F _ FNaN = FNaN"
| "fl_div F (FInf a) (FInf b) = FNaN"
| "fl_div F (FInf a) (FNum y) = FInf (a \<noteq> (y < 0))"
| "fl_div F (FNum x) (FInf b) = FNum 0"
| "fl_div F (FNum x) (FNum y) =
     (if y = 0 then (if x = 0 then FNaN else FInf (x < 0)) else fl_round F (x / y))"

text \<open>\<open>f32::max\<close> returns the other operand on NaN; \<open>f32::round\<close> rounds half
  away from zero (an integer below the precision is exact, above it the value is an
  integer already).\<close>

fun fl_max :: "fl \<Rightarrow> fl \<Rightarrow> fl" where
  "fl_max FNaN b = b"
| "fl_max a FNaN = a"
| "fl_max a b = (if fl_ge a b then a else b)"

definition round_half_away :: "rat \<Rightarrow> int" where
  "round_half_away x = (if 0 \<le> x then \<lfloor>x + 1 / 2\<rfloor> else - \<lfloor>1 / 2 - x\<rfloor>)"

fun fl_round_int :: "fl \<Rightarrow> fl" where
  "fl_round_int (FNum x) = FNum (of_int (round_half_away x))"
| "fl_round_int a = a"

text \<open>The saturating cast \<open>as u32\<close>, and \<open>n as f32\<close> on integers.\<close>

definition fl_as_u32 :: "fl \<Rightarrow> u32" where
  "fl_as_u32 a =
     (case a of
        FNaN \<Rightarrow> 0
      | FInf neg \<Rightarrow> (if neg then 0 else - 1)
      | FNum x \<Rightarrow> (if x < 0 then 0
                   else if 2 ^ 32 - 1 \<le> \<lfloor>x\<rfloor> then - 1
                   else word_of_int \<lfloor>x\<rfloor>))"

definition fl_as_usize :: "fl \<Rightarrow> nat" where
  "fl_as_usize a =
     (case a of
        FNaN \<Rightarrow> 0
      | FInf neg \<Rightarrow> (if neg then 0 else 2 ^ 64 - 1)
      | FNum x \<Rightarrow> min (nat \<lfloor>x\<rfloor>) (2 ^ 64 - 1))"

definition f32_of_nat :: "nat \<Rightarrow> f32" where
  "f32_of_nat n = fl_round f32_fmt (of_nat n)"

lemma fl_max_one_ge: "fl_ge (fl_max a (FNum 1)) (FNum 1)"
proof (cases a)
  case (FInf b)
  then show ?thesis by (cases b) simp_all
qed simp_all

lemma unat_minus_one_u32: "unat (- 1 :: u32) = 2 ^ 32 - 1"
  by (simp add: unsigned_minus_1_eq_mask mask_eq_exp_minus_1)

lemma fl_as_u32_ge_one: "fl_ge a (FNum 1) \<Longrightarrow> 1 \<le> unat (fl_as_u32 a)"
proof (cases a)
  case (FNum x)
  assume "fl_ge a (FNum 1)"
  with FNum have "1 \<le> x" by simp
  then have fl: "1 \<le> \<lfloor>x\<rfloor>" by linarith
  show ?thesis
  proof (cases "2 ^ 32 - 1 \<le> \<lfloor>x\<rfloor>")
    case True
    then show ?thesis using \<open>1 \<le> x\<close> FNum by (simp add: fl_as_u32_def unat_minus_one_u32)
  next
    case False
    then have "unat (word_of_int \<lfloor>x\<rfloor> :: u32) = nat \<lfloor>x\<rfloor>"
      using fl by (simp add: unat_eq_nat_uint uint_word_of_int)
    then show ?thesis using fl \<open>1 \<le> x\<close> False FNum by (simp add: fl_as_u32_def le_nat_iff)
  qed
next
  case (FInf b)
  assume "fl_ge a (FNum 1)"
  then show ?thesis using FInf by (cases b) (simp_all add: fl_as_u32_def unat_minus_one_u32)
qed (simp_all add: fl_as_u32_def)

text \<open>The literal \<open>0.2f32\<close>.\<close>

lemma f32_one_fifth: "fl_round f32_fmt (1 / 5) = FNum (13421773 / 67108864)"
  by code_simp

section \<open>Exact results\<close>

lemma pow2_powi: "pow2 e = 2 powi e"
  by (simp add: pow2_def power_int_def inverse_eq_divide flip: power_one_over)

lemma bit_length_bounds: "0 < n \<Longrightarrow> 0 < bit_length n \<and> 2 ^ nat (bit_length n - 1) \<le> n \<and> n < 2 ^ nat (bit_length n)"
proof (induction n rule: bit_length.induct)
  case (1 n)
  show ?case
  proof (cases "n = 1")
    case True
    then show ?thesis by (simp add: bit_length.simps)
  next
    case False
    with 1 have "0 < n div 2" by linarith
    with 1 have ih: "0 < bit_length (n div 2)" "2 ^ nat (bit_length (n div 2) - 1) \<le> n div 2"
        "n div 2 < 2 ^ nat (bit_length (n div 2))" by simp_all
    have bl: "bit_length n = 1 + bit_length (n div 2)" using 1(2) by (subst bit_length.simps) simp
    define k where "k = nat (bit_length (n div 2) - 1)"
    have k: "nat (bit_length (n div 2)) = Suc k" "nat (bit_length n - 1) = Suc k" "nat (bit_length n) = Suc (Suc k)"
      using ih(1) by (simp_all add: k_def bl)
    have "2 ^ k \<le> n div 2" "n div 2 < 2 ^ Suc k" using ih(2,3) k(1) by (simp_all add: k_def)
    moreover have "n = 2 * (n div 2) + n mod 2" "0 \<le> n mod 2" "n mod 2 < 2" by simp_all
    ultimately have "2 * 2 ^ k \<le> n \<and> n < 2 * (2 * 2 ^ k)" unfolding power_Suc by linarith
    then show ?thesis unfolding k(2,3) using ih(1) by (simp add: bl)
  qed
qed

lemma pow2_ilog2_le:
  assumes "0 < x"
  shows "pow2 (ilog2 x) \<le> x"
proof -
  obtain n d where q: "quotient_of x = (n, d)" by (cases "quotient_of x")
  have d: "0 < d" using quotient_of_denom_pos [OF q] .
  have x: "x = of_int n / of_int d" using quotient_of_div [OF q] .
  have n: "0 < n" using assms d by (simp add: x zero_less_divide_iff)
  note bn = bit_length_bounds [OF n] and bd = bit_length_bounds [OF d]
  define a b where "a = nat (bit_length n - 1)" and "b = nat (bit_length d)"
  have e: "bit_length n - bit_length d - 1 = int a - int b" using bn bd by (simp add: a_def b_def)
  have an: "2 ^ a \<le> n" and db: "d \<le> 2 ^ b" using bn bd by (simp_all add: a_def b_def)
  have "2 ^ a * d \<le> n * 2 ^ b" using an db d n by (intro mult_mono) simp_all
  then have "of_int (2 ^ a * d) \<le> (of_int (n * 2 ^ b) :: rat)" by (simp only: of_int_le_iff)
  then have "(2::rat) ^ a * of_int d \<le> of_int n * 2 ^ b" by simp
  moreover have "0 < (of_int d :: rat)" using d by simp
  ultimately have "2 ^ a \<le> of_int n * 2 ^ b / (of_int d :: rat)" by (subst pos_le_divide_eq)
  then have "2 ^ a \<le> x * 2 ^ b" by (simp add: x)
  then have "2 ^ a / 2 ^ b \<le> x" by (subst pos_divide_le_eq) simp_all
  then have "2 powi (int a - int b) \<le> x" by (simp add: power_int_diff)
  then have "2 powi (bit_length n - bit_length d - 1) \<le> x" by (simp only: e)
  then show ?thesis unfolding ilog2_def q Let_def prod.case pow2_powi by (simp split: if_split)
qed

lemma round_half_even_int [simp]: "round_half_even (of_int i) = i"
  by (simp add: round_half_even_def)

text \<open>A value whose significand fits the format is represented exactly.\<close>

lemma fl_round_exact:
  assumes "x = of_int m * pow2 k" and "\<bar>m\<bar> < 2 ^ prec F" and "emin F \<le> k" and "\<bar>x\<bar> < pow2 (emax F + 1)" and "0 < prec F"
  shows "fl_round F x = FNum x"
proof (cases "x = 0")
  case False
  define e where "e = max (ilog2 \<bar>x\<bar> - (int (prec F) - 1)) (emin F)"
  have "pow2 (ilog2 \<bar>x\<bar>) \<le> \<bar>x\<bar>" using False by (intro pow2_ilog2_le) simp
  also have "\<bar>x\<bar> = of_int \<bar>m\<bar> * 2 powi k" by (simp add: assms(1) abs_mult pow2_powi)
  also have "\<dots> < 2 ^ prec F * 2 powi k"
    using assms(2) by (intro mult_strict_right_mono) (simp_all flip: of_int_less_iff [where 'a = rat])
  also have "\<dots> = 2 powi (int (prec F) + k)" by (simp add: power_int_add)
  finally have "ilog2 \<bar>x\<bar> < int (prec F) + k"
    by (metis not_le one_le_numeral pow2_powi power_int_increasing zero_neq_numeral)
  then have ek: "e \<le> k" using assms(3) by (simp add: e_def)
  have "pow2 k = pow2 (k - e) * pow2 e" by (simp add: pow2_powi flip: power_int_add)
  moreover have "pow2 (k - e) = of_int (2 ^ nat (k - e))" using ek by (simp add: pow2_def)
  ultimately have "x / pow2 e = of_int (m * 2 ^ nat (k - e))"
    by (simp add: assms(1) pow2_powi)
  then have "of_int (round_half_even (x / pow2 e)) * pow2 e = x"
    by (metis round_half_even_int nonzero_eq_divide_eq pow2_powi power_int_eq_0_iff zero_neq_numeral)
  then show ?thesis using False assms(4) by (simp add: fl_round_def e_def)
qed (simp add: fl_round_def)

end
