(* ===== verification/Frames.thy ===== *)
theory Frames
  imports Floats
begin

text \<open>
  The pipeline frame taxonomy of \<^verbatim>\<open>flowcat-core/src/processor/frame.rs\<close> and
  \<^verbatim>\<open>metrics.rs\<close>: directions, scheduling classes, the closed \<open>Frame\<close> enum,
  its classification functions (\<open>class\<close>, \<open>uninterruptible\<close>,
  \<open>is_terminal\<close>, \<open>name\<close>, \<open>kind\<close>), frame metadata and the
  process-wide frame id counter. JSON payloads are carried, never inspected, by the frame
  layer: they are a type parameter \<open>'j\<close>. The extension hatch
  \<open>Custom(Arc<dyn CustomFrame>)\<close> is the record of what the trait object answers; the value that
  \<open>as_any\<close> exposes is a tag \<open>cf_any\<close> for the enumerations and a carried value \<open>cf_value\<close> for the rest.
\<close>

section \<open>Directions and classes\<close>

datatype direction = Downstream | Upstream

fun flip :: "direction \<Rightarrow> direction" where
  "flip Downstream = Upstream"
| "flip Upstream = Downstream"

datatype frame_class = System | Data | Control

section \<open>Payload types\<close>

record 'j custom_frame =
  cf_class :: frame_class
  cf_uninterruptible :: bool
  cf_name :: string
  cf_any :: nat
  cf_value :: "'j option"

record audio_frame =
  pcm :: "i16 list"
  af_sample_rate :: u32
  num_channels :: u16

definition mono :: "i16 list \<Rightarrow> u32 \<Rightarrow> audio_frame" where
  "mono p r = \<lparr>pcm = p, af_sample_rate = r, num_channels = 1\<rparr>"

record audio_chunk =
  ac_pcm :: "i16 list"
  ac_sample_rate :: u32

definition frame_of_chunk :: "audio_chunk \<Rightarrow> audio_frame" where
  "frame_of_chunk c = mono (ac_pcm c) (ac_sample_rate c)"

definition chunk_of_frame :: "audio_frame \<Rightarrow> audio_chunk" where
  "chunk_of_frame f = \<lparr>ac_pcm = pcm f, ac_sample_rate = af_sample_rate f\<rparr>"

record start_params =
  audio_in_sample_rate :: u32
  audio_out_sample_rate :: u32
  sp_enable_metrics :: bool
  sp_enable_usage_metrics :: bool
  enable_tracing :: bool
  report_only_initial_ttfb :: bool

definition start_params_default :: start_params where
  "start_params_default =
     \<lparr>audio_in_sample_rate = 16000, audio_out_sample_rate = 24000, sp_enable_metrics = False,
      sp_enable_usage_metrics = False, enable_tracing = False, report_only_initial_ttfb = True\<rparr>"

datatype keypad_entry =
  Zero | One | Two | Three | Four | Five | Six | Seven | Eight | Nine | Star | Pound

datatype service_kind = Stt | Tts | Llm | Filter | Mixer | All

record vad_params =
  confidence :: f32
  start_secs :: f32
  stop_secs :: f32
  min_volume :: f32

record turn_params =
  tp_stop_secs :: f32
  pre_speech_ms :: f32
  max_duration_secs :: "f32 option"

record 'j function_call =
  fc_function_name :: ustr
  fc_tool_call_id :: ustr
  fc_arguments :: 'j

record 'j function_call_result =
  fr_function_name :: ustr
  fr_tool_call_id :: ustr
  fr_result :: 'j

record 'j llm_context =
  messages :: "'j list"
  ctx_tools :: "'j list"

record llm_token_usage =
  prompt_tokens :: u64
  completion_tokens :: u64
  total_tokens :: u64
  cache_read_input_tokens :: "u64 option"
  cache_creation_input_tokens :: "u64 option"
  reasoning_tokens :: "u64 option"

datatype metrics_data =
    Ttfb string "ustr option" f64
  | Processing string "ustr option" f64
  | LlmUsage string "ustr option" llm_token_usage
  | TtsUsage string u64
  | SttUsage string f64
  | TurnPrediction string bool f32 f64

section \<open>The frame enum\<close>

datatype (plugins only: code size) 'j frame =
    Start start_params
  | Cancel "ustr option"
  | Error ustr bool "string option"
  | Interruption
  | InputAudio audio_frame
  | UserAudio audio_frame ustr
  | InputText ustr
  | InputDtmf keypad_entry
  | UserStartedSpeaking
  | UserStoppedSpeaking
  | UserSpeaking
  | BotStartedSpeaking
  | BotStoppedSpeaking
  | BotSpeaking
  | VadUserStartedSpeaking f32
  | VadUserStoppedSpeaking f32
  | SttMute bool
  | Metrics "metrics_data list"
  | TransportMessage 'j bool
  | ClientConnected
  | BotConnected
  | FunctionCallsStarted "'j function_call list"
  | FunctionCallInProgress "'j function_call" bool
  | FunctionCallCancel ustr ustr
  | OutputAudio audio_frame
  | TtsAudio audio_frame "ustr option"
  | Text ustr
  | LlmText ustr
  | Transcription ustr ustr "ustr option" bool
  | InterimTranscription ustr ustr "ustr option"
  | TtsSpeak ustr "bool option"
  | TtsText ustr "ustr option"
  | FunctionCallResult "'j function_call_result"
  | LlmRun
  | LlmContext "'j llm_context"
  | OutputDtmf "keypad_entry list"
  | End "ustr option"
  | Stop
  | LlmResponseStart
  | LlmResponseEnd
  | TtsStarted "ustr option"
  | TtsStopped "ustr option"
  | UpdateSettings service_kind 'j
  | SpeechControlParams "vad_params option" "turn_params option"
  | Heartbeat i64
  | OutputTransportReady
  | FilterEnable bool
  | MixerEnable bool
  | Custom "'j custom_frame"

datatype (plugins only: code size) frame_kind =
    KStart | KCancel | KError | KInterruption | KInputAudio | KUserAudio | KInputText
  | KInputDtmf | KUserStartedSpeaking | KUserStoppedSpeaking | KUserSpeaking
  | KBotStartedSpeaking | KBotStoppedSpeaking | KBotSpeaking | KVadUserStartedSpeaking
  | KVadUserStoppedSpeaking | KSttMute | KMetrics | KTransportMessage | KClientConnected
  | KBotConnected | KFunctionCallsStarted | KFunctionCallInProgress | KFunctionCallCancel
  | KOutputAudio | KTtsAudio | KText | KLlmText | KTranscription | KInterimTranscription
  | KTtsSpeak | KTtsText | KFunctionCallResult | KLlmRun | KLlmContext | KOutputDtmf | KEnd
  | KStop | KLlmResponseStart | KLlmResponseEnd | KTtsStarted | KTtsStopped | KUpdateSettings
  | KSpeechControlParams | KHeartbeat | KOutputTransportReady | KFilterEnable | KMixerEnable
  | KCustom

section \<open>Classification\<close>

fun class_of :: "'j frame \<Rightarrow> frame_class" where
  "class_of (Start _) = System"
| "class_of (Cancel _) = System"
| "class_of (Error _ _ _) = System"
| "class_of Interruption = System"
| "class_of (InputAudio _) = System"
| "class_of (UserAudio _ _) = System"
| "class_of (InputText _) = System"
| "class_of (InputDtmf _) = System"
| "class_of UserStartedSpeaking = System"
| "class_of UserStoppedSpeaking = System"
| "class_of UserSpeaking = System"
| "class_of BotStartedSpeaking = System"
| "class_of BotStoppedSpeaking = System"
| "class_of BotSpeaking = System"
| "class_of (VadUserStartedSpeaking _) = System"
| "class_of (VadUserStoppedSpeaking _) = System"
| "class_of (SttMute _) = System"
| "class_of (Metrics _) = System"
| "class_of (TransportMessage _ _) = System"
| "class_of ClientConnected = System"
| "class_of BotConnected = System"
| "class_of (FunctionCallsStarted _) = System"
| "class_of (FunctionCallInProgress _ _) = System"
| "class_of (FunctionCallCancel _ _) = System"
| "class_of (End _) = Control"
| "class_of Stop = Control"
| "class_of LlmResponseStart = Control"
| "class_of LlmResponseEnd = Control"
| "class_of (TtsStarted _) = Control"
| "class_of (TtsStopped _) = Control"
| "class_of (UpdateSettings _ _) = Control"
| "class_of (SpeechControlParams _ _) = Control"
| "class_of (Heartbeat _) = Control"
| "class_of OutputTransportReady = Control"
| "class_of (FilterEnable _) = Control"
| "class_of (MixerEnable _) = Control"
| "class_of (OutputAudio _) = Data"
| "class_of (TtsAudio _ _) = Data"
| "class_of (Text _) = Data"
| "class_of (LlmText _) = Data"
| "class_of (Transcription _ _ _ _) = Data"
| "class_of (InterimTranscription _ _ _) = Data"
| "class_of (TtsSpeak _ _) = Data"
| "class_of (TtsText _ _) = Data"
| "class_of (FunctionCallResult _) = Data"
| "class_of LlmRun = Data"
| "class_of (LlmContext _) = Data"
| "class_of (OutputDtmf _) = Data"
| "class_of (Custom c) = cf_class c"

definition uninterruptible :: "'j frame \<Rightarrow> bool" where
  "uninterruptible f =
     (case f of
        End _ \<Rightarrow> True
      | Stop \<Rightarrow> True
      | FunctionCallResult _ \<Rightarrow> True
      | UpdateSettings _ _ \<Rightarrow> True
      | Custom c \<Rightarrow> cf_uninterruptible c
      | _ \<Rightarrow> False)"

definition is_terminal :: "'j frame \<Rightarrow> bool" where
  "is_terminal f = (case f of End _ \<Rightarrow> True | Stop \<Rightarrow> True | Cancel _ \<Rightarrow> True | _ \<Rightarrow> False)"

fun frame_name :: "'j frame \<Rightarrow> string" where
  "frame_name (Start _) = ''Start''"
| "frame_name (Cancel _) = ''Cancel''"
| "frame_name (Error _ _ _) = ''Error''"
| "frame_name Interruption = ''Interruption''"
| "frame_name (InputAudio _) = ''InputAudio''"
| "frame_name (UserAudio _ _) = ''UserAudio''"
| "frame_name (InputText _) = ''InputText''"
| "frame_name (InputDtmf _) = ''InputDtmf''"
| "frame_name UserStartedSpeaking = ''UserStartedSpeaking''"
| "frame_name UserStoppedSpeaking = ''UserStoppedSpeaking''"
| "frame_name UserSpeaking = ''UserSpeaking''"
| "frame_name BotStartedSpeaking = ''BotStartedSpeaking''"
| "frame_name BotStoppedSpeaking = ''BotStoppedSpeaking''"
| "frame_name BotSpeaking = ''BotSpeaking''"
| "frame_name (VadUserStartedSpeaking _) = ''VadUserStartedSpeaking''"
| "frame_name (VadUserStoppedSpeaking _) = ''VadUserStoppedSpeaking''"
| "frame_name (SttMute _) = ''SttMute''"
| "frame_name (Metrics _) = ''Metrics''"
| "frame_name (TransportMessage _ _) = ''TransportMessage''"
| "frame_name ClientConnected = ''ClientConnected''"
| "frame_name BotConnected = ''BotConnected''"
| "frame_name (FunctionCallsStarted _) = ''FunctionCallsStarted''"
| "frame_name (FunctionCallInProgress _ _) = ''FunctionCallInProgress''"
| "frame_name (FunctionCallCancel _ _) = ''FunctionCallCancel''"
| "frame_name (OutputAudio _) = ''OutputAudio''"
| "frame_name (TtsAudio _ _) = ''TtsAudio''"
| "frame_name (Text _) = ''Text''"
| "frame_name (LlmText _) = ''LlmText''"
| "frame_name (Transcription _ _ _ _) = ''Transcription''"
| "frame_name (InterimTranscription _ _ _) = ''InterimTranscription''"
| "frame_name (TtsSpeak _ _) = ''TtsSpeak''"
| "frame_name (TtsText _ _) = ''TtsText''"
| "frame_name (FunctionCallResult _) = ''FunctionCallResult''"
| "frame_name LlmRun = ''LlmRun''"
| "frame_name (LlmContext _) = ''LlmContext''"
| "frame_name (OutputDtmf _) = ''OutputDtmf''"
| "frame_name (End _) = ''End''"
| "frame_name Stop = ''Stop''"
| "frame_name LlmResponseStart = ''LlmResponseStart''"
| "frame_name LlmResponseEnd = ''LlmResponseEnd''"
| "frame_name (TtsStarted _) = ''TtsStarted''"
| "frame_name (TtsStopped _) = ''TtsStopped''"
| "frame_name (UpdateSettings _ _) = ''UpdateSettings''"
| "frame_name (SpeechControlParams _ _) = ''SpeechControlParams''"
| "frame_name (Heartbeat _) = ''Heartbeat''"
| "frame_name OutputTransportReady = ''OutputTransportReady''"
| "frame_name (FilterEnable _) = ''FilterEnable''"
| "frame_name (MixerEnable _) = ''MixerEnable''"
| "frame_name (Custom c) = cf_name c"

fun kind :: "'j frame \<Rightarrow> frame_kind" where
  "kind (Start _) = KStart"
| "kind (Cancel _) = KCancel"
| "kind (Error _ _ _) = KError"
| "kind Interruption = KInterruption"
| "kind (InputAudio _) = KInputAudio"
| "kind (UserAudio _ _) = KUserAudio"
| "kind (InputText _) = KInputText"
| "kind (InputDtmf _) = KInputDtmf"
| "kind UserStartedSpeaking = KUserStartedSpeaking"
| "kind UserStoppedSpeaking = KUserStoppedSpeaking"
| "kind UserSpeaking = KUserSpeaking"
| "kind BotStartedSpeaking = KBotStartedSpeaking"
| "kind BotStoppedSpeaking = KBotStoppedSpeaking"
| "kind BotSpeaking = KBotSpeaking"
| "kind (VadUserStartedSpeaking _) = KVadUserStartedSpeaking"
| "kind (VadUserStoppedSpeaking _) = KVadUserStoppedSpeaking"
| "kind (SttMute _) = KSttMute"
| "kind (Metrics _) = KMetrics"
| "kind (TransportMessage _ _) = KTransportMessage"
| "kind ClientConnected = KClientConnected"
| "kind BotConnected = KBotConnected"
| "kind (FunctionCallsStarted _) = KFunctionCallsStarted"
| "kind (FunctionCallInProgress _ _) = KFunctionCallInProgress"
| "kind (FunctionCallCancel _ _) = KFunctionCallCancel"
| "kind (OutputAudio _) = KOutputAudio"
| "kind (TtsAudio _ _) = KTtsAudio"
| "kind (Text _) = KText"
| "kind (LlmText _) = KLlmText"
| "kind (Transcription _ _ _ _) = KTranscription"
| "kind (InterimTranscription _ _ _) = KInterimTranscription"
| "kind (TtsSpeak _ _) = KTtsSpeak"
| "kind (TtsText _ _) = KTtsText"
| "kind (FunctionCallResult _) = KFunctionCallResult"
| "kind LlmRun = KLlmRun"
| "kind (LlmContext _) = KLlmContext"
| "kind (OutputDtmf _) = KOutputDtmf"
| "kind (End _) = KEnd"
| "kind Stop = KStop"
| "kind LlmResponseStart = KLlmResponseStart"
| "kind LlmResponseEnd = KLlmResponseEnd"
| "kind (TtsStarted _) = KTtsStarted"
| "kind (TtsStopped _) = KTtsStopped"
| "kind (UpdateSettings _ _) = KUpdateSettings"
| "kind (SpeechControlParams _ _) = KSpeechControlParams"
| "kind (Heartbeat _) = KHeartbeat"
| "kind OutputTransportReady = KOutputTransportReady"
| "kind (FilterEnable _) = KFilterEnable"
| "kind (MixerEnable _) = KMixerEnable"
| "kind (Custom _) = KCustom"

section \<open>Metadata and the frame id counter\<close>

record 'j frame_meta =
  fm_id :: u64
  fm_name :: string
  pts :: "i64 option"
  broadcast_sibling_id :: "u64 option"
  fm_extra :: "'j option"
  transport_source :: "string option"
  transport_destination :: "string option"

text \<open>The process-wide counter \<open>FRAME_ID\<close>: \<open>fetch_add(1)\<close> returns the
  old value and wraps.\<close>

definition frame_id_init :: u64 where
  "frame_id_init = 1"

definition next_frame_id :: "u64 \<Rightarrow> u64 \<times> u64" where
  "next_frame_id n = (n, n + 1)"

definition frame_meta_new :: "u64 \<Rightarrow> 'j frame \<Rightarrow> 'j frame_meta \<times> u64" where
  "frame_meta_new n f =
     (let (i, n') = next_frame_id n
      in (\<lparr>fm_id = i, fm_name = frame_name f, pts = None, broadcast_sibling_id = None,
           fm_extra = None, transport_source = None, transport_destination = None\<rparr>, n'))"

section \<open>Facts\<close>

lemma uninterruptible_simps [frame_simps]:
  "uninterruptible (End r)" "uninterruptible Stop"
  "uninterruptible (FunctionCallResult r')" "uninterruptible (UpdateSettings k j)"
  "uninterruptible (Custom c) = cf_uninterruptible c"
  "\<not> uninterruptible (OutputAudio a)" "\<not> uninterruptible (Text t)"
  "\<not> uninterruptible (Cancel r'')"
  by (simp_all add: uninterruptible_def)

lemma is_terminal_simps [frame_simps]:
  "is_terminal (End r)" "is_terminal Stop" "is_terminal (Cancel r')"
  "\<not> is_terminal (Text t)" "\<not> is_terminal (OutputAudio a)" "\<not> is_terminal (Start p)"
  "\<not> is_terminal Interruption" "\<not> is_terminal (Error m b q)"
  by (simp_all add: is_terminal_def)

lemma is_terminal_iff: "is_terminal f \<longleftrightarrow> (\<exists>r. f = End r) \<or> f = Stop \<or> (\<exists>r. f = Cancel r)"
  by (cases f) (simp_all add: is_terminal_def)

lemma is_terminalE:
  assumes "is_terminal f"
  obtains r where "f = End r" | "f = Stop" | r where "f = Cancel r"
  using assms by (auto simp: is_terminal_iff)

text \<open>The frames an interruption must not lose.\<close>

lemma uninterruptible_iff:
  "uninterruptible f \<longleftrightarrow>
     (\<exists>r. f = End r) \<or> f = Stop \<or> (\<exists>r. f = FunctionCallResult r) \<or>
     (\<exists>k j. f = UpdateSettings k j) \<or> (\<exists>c. f = Custom c \<and> cf_uninterruptible c)"
  by (cases f) (simp_all add: uninterruptible_def)

lemma terminal_system_or_uninterruptible:
  "is_terminal f \<Longrightarrow> class_of f = System \<or> uninterruptible f"
  by (erule is_terminalE) (simp_all add: frame_simps)

text \<open>Built-in system frames are all interruptible by \<open>uninterruptible\<close>: they survive
  because they never sit in the normal queue.\<close>

lemma system_not_uninterruptible:
  "class_of f = System \<Longrightarrow> (\<And>c. f \<noteq> Custom c) \<Longrightarrow> \<not> uninterruptible f"
  by (auto simp: uninterruptible_iff)

lemma flip_flip [simp]: "flip (flip d) = d"
  by (cases d) simp_all

lemma chunk_frame_round: "chunk_of_frame (frame_of_chunk c) = c"
  by (simp add: chunk_of_frame_def frame_of_chunk_def mono_def)

lemma frame_meta_new_simps [eff_simps]:
  "snd (frame_meta_new n f) = n + 1" "fm_id (fst (frame_meta_new n f)) = n"
  "fm_name (fst (frame_meta_new n f)) = frame_name f"
  "broadcast_sibling_id (fst (frame_meta_new n f)) = None"
  by (simp_all add: frame_meta_new_def next_frame_id_def)

end
