(* ===== verification/Proc_Runtime.thy ===== *)
theory Proc_Runtime
  imports Frames
begin

text \<open>
  The per-processor runtime of \<^verbatim>\<open>flowcat-core/src/processor/mod.rs\<close> and
  \<^verbatim>\<open>runtime.rs\<close>: envelopes, links and their push helpers, the processor
  hooks, the two-channel receive half and the task loop \<open>run_processor\<close>.

  A hook is a function that returns the new processor state, the effects it performed in
  order and an error message if it returned \<open>Err\<close>. Effects are sends into a
  neighbour's channel, observer call-backs and messages on the sink's tap. The atomic
  frame id counter is threaded explicitly. Observer time stamps (the wall clock) are not
  recorded. The channels of a receive half are queues; \<open>rx_open\<close> says whether a
  sender is still alive.
\<close>

section \<open>Envelopes, links, effects\<close>

record 'j envelope =
  env_meta :: "'j frame_meta"
  env_frame :: "'j frame"
  env_direction :: direction

definition envelope_new :: "u64 \<Rightarrow> 'j frame \<Rightarrow> direction \<Rightarrow> 'j envelope \<times> u64" where
  "envelope_new n f d =
     (let (m, n') = frame_meta_new n f
      in (\<lparr>env_meta = m, env_frame = f, env_direction = d\<rparr>, n'))"

datatype stop_reason = EndOfTask | Stopped | Cancelled

record processor_tx =
  tx_chan :: nat
  tx_name :: string

datatype (plugins only: code size) 'j eff =
    Send processor_tx "'j envelope"
  | OnProcess string "'j envelope"
  | OnPush string string "'j envelope"
  | Tap "'j frame"

record link =
  l_next :: "processor_tx option"
  l_prev :: "processor_tx option"
  l_name :: string
  l_observer :: bool
  enable_metrics :: bool
  enable_usage_metrics :: bool
  ttfb_start :: i64
  processing_start :: i64

section \<open>Push helpers\<close>

definition push :: "link \<Rightarrow> 'j frame_meta \<Rightarrow> 'j frame \<Rightarrow> direction \<Rightarrow> 'j eff list" where
  "push l m f d =
     (case (case d of Downstream \<Rightarrow> l_next l | Upstream \<Rightarrow> l_prev l) of
        None \<Rightarrow> []
      | Some tx \<Rightarrow>
          let env = \<lparr>env_meta = m, env_frame = f, env_direction = d\<rparr>
          in (if l_observer l then [OnPush (l_name l) (tx_name tx) env] else []) @ [Send tx env])"

abbreviation push_env :: "link \<Rightarrow> 'j envelope \<Rightarrow> 'j eff list" where
  "push_env l e \<equiv> push l (env_meta e) (env_frame e) (env_direction e)"

definition push_down :: "link \<Rightarrow> u64 \<Rightarrow> 'j frame \<Rightarrow> 'j eff list \<times> u64" where
  "push_down l n f = (let (m, n') = frame_meta_new n f in (push l m f Downstream, n'))"

definition push_up :: "link \<Rightarrow> u64 \<Rightarrow> 'j frame \<Rightarrow> 'j eff list \<times> u64" where
  "push_up l n f = (let (m, n') = frame_meta_new n f in (push l m f Upstream, n'))"

definition push_error :: "link \<Rightarrow> u64 \<Rightarrow> ustr \<Rightarrow> bool \<Rightarrow> 'j eff list \<times> u64" where
  "push_error l n msg fatal = push_up l n (Error msg fatal (Some (l_name l)))"

definition broadcast :: "link \<Rightarrow> u64 \<Rightarrow> 'j frame \<Rightarrow> 'j eff list \<times> u64" where
  "broadcast l n f =
     (let (down_id, n1) = next_frame_id n;
          (up_id, n2) = next_frame_id n1;
          (down_meta, n3) = frame_meta_new n2 f;
          (up_meta, n4) = frame_meta_new n3 f
      in (push l (down_meta\<lparr>fm_id := down_id, broadcast_sibling_id := Some up_id\<rparr>) f Downstream @
          push l (up_meta\<lparr>fm_id := up_id, broadcast_sibling_id := Some down_id\<rparr>) f Upstream,
          n4))"

section \<open>Metric helpers\<close>

text \<open>The pipeline clock reading \<open>now\<close> (nanoseconds, \<open>i64\<close>) is an argument.\<close>

definition start_ttfb :: "link \<Rightarrow> i64 \<Rightarrow> link" where
  "start_ttfb l now = (if enable_metrics l then l\<lparr>ttfb_start := now\<rparr> else l)"

definition start_processing :: "link \<Rightarrow> i64 \<Rightarrow> link" where
  "start_processing l now = (if enable_metrics l then l\<lparr>processing_start := now\<rparr> else l)"

definition elapsed_seconds :: "i64 \<Rightarrow> i64 \<Rightarrow> f64" where
  "elapsed_seconds now start =
     fl_div f64_fmt (fl_round f64_fmt (of_int (max (sint (now - start)) 0))) (FNum 1000000000)"

definition emit_metric :: "link \<Rightarrow> u64 \<Rightarrow> metrics_data \<Rightarrow> 'j eff list \<times> u64" where
  "emit_metric l n d = push_down l n (Metrics [d])"

definition stop_ttfb :: "link \<Rightarrow> i64 \<Rightarrow> u64 \<Rightarrow> ustr option \<Rightarrow> link \<times> 'j eff list \<times> u64" where
  "stop_ttfb l now n model =
     (if \<not> enable_metrics l then (l, [], n)
      else let start = ttfb_start l; l' = l\<lparr>ttfb_start := 0\<rparr>
           in if start = 0 then (l', [], n)
              else (l', emit_metric l' n (Ttfb (l_name l) model (elapsed_seconds now start))))"

definition stop_processing :: "link \<Rightarrow> i64 \<Rightarrow> u64 \<Rightarrow> ustr option \<Rightarrow> link \<times> 'j eff list \<times> u64" where
  "stop_processing l now n model =
     (if \<not> enable_metrics l then (l, [], n)
      else let start = processing_start l; l' = l\<lparr>processing_start := 0\<rparr>
           in if start = 0 then (l', [], n)
              else (l', emit_metric l' n (Processing (l_name l) model (elapsed_seconds now start))))"

definition report_llm_usage ::
  "link \<Rightarrow> u64 \<Rightarrow> ustr option \<Rightarrow> llm_token_usage \<Rightarrow> 'j eff list \<times> u64" where
  "report_llm_usage l n model tokens =
     (if \<not> enable_usage_metrics l then ([], n)
      else emit_metric l n (LlmUsage (l_name l) model tokens))"

definition report_tts_usage :: "link \<Rightarrow> u64 \<Rightarrow> u64 \<Rightarrow> 'j eff list \<times> u64" where
  "report_tts_usage l n characters =
     (if \<not> enable_usage_metrics l then ([], n)
      else emit_metric l n (TtsUsage (l_name l) characters))"

section \<open>Processors\<close>

type_synonym ('s, 'j) hook_result = "'s \<times> 'j eff list \<times> ustr option"

record ('s, 'j) processor =
  p_name :: string
  p_start :: "'s \<Rightarrow> start_params \<Rightarrow> ('s, 'j) hook_result"
  p_process :: "link \<Rightarrow> 's \<Rightarrow> 'j envelope \<Rightarrow> u64 \<Rightarrow> 's \<times> 'j eff list \<times> u64 \<times> ustr option"
  p_on_interruption :: "'s \<Rightarrow> ('s, 'j) hook_result"
  p_stop :: "'s \<Rightarrow> stop_reason \<Rightarrow> ('s, 'j) hook_result"

text \<open>The trait's default methods: no-op hooks, and \<open>process_frame\<close> forwards the
  frame unchanged in its direction.\<close>

definition default_start :: "'s \<Rightarrow> start_params \<Rightarrow> ('s, 'j) hook_result" where
  "default_start s params = (s, [], None)"

definition default_process ::
  "link \<Rightarrow> 's \<Rightarrow> 'j envelope \<Rightarrow> u64 \<Rightarrow> 's \<times> 'j eff list \<times> u64 \<times> ustr option" where
  "default_process l s env n = (s, push_env l env, n, None)"

definition default_on_interruption :: "'s \<Rightarrow> ('s, 'j) hook_result" where
  "default_on_interruption s = (s, [], None)"

definition default_stop :: "'s \<Rightarrow> stop_reason \<Rightarrow> ('s, 'j) hook_result" where
  "default_stop s reason = (s, [], None)"

definition default_processor :: "string \<Rightarrow> ('s, 'j) processor" where
  "default_processor nm =
     \<lparr>p_name = nm, p_start = default_start, p_process = default_process,
      p_on_interruption = default_on_interruption, p_stop = default_stop\<rparr>"

section \<open>The receive half\<close>

definition normal_chan_cap :: nat where
  "normal_chan_cap = 64"

record 'j rx =
  rx_system :: "'j envelope list"
  rx_normal :: "'j envelope list"
  rx_open :: bool

text \<open>\<open>ProcessorTx::send\<close>, once the bounded channel has room.\<close>

definition tx_send :: "'j envelope \<Rightarrow> 'j rx \<Rightarrow> 'j rx" where
  "tx_send e r =
     (case class_of (env_frame e) of
        System \<Rightarrow> r\<lparr>rx_system := rx_system r @ [e]\<rparr>
      | _ \<Rightarrow> r\<lparr>rx_normal := rx_normal r @ [e]\<rparr>)"

datatype (plugins only: code size) 'j recv = Got "'j envelope" "'j rx" | Pending | Closed

text \<open>The biased \<open>select!\<close> over the two channels.\<close>

definition rx_recv :: "'j rx \<Rightarrow> 'j recv" where
  "rx_recv r =
     (case rx_system r of
        e # es \<Rightarrow> Got e (r\<lparr>rx_system := es\<rparr>)
      | [] \<Rightarrow>
         (case rx_normal r of
            e # es \<Rightarrow> Got e (r\<lparr>rx_normal := es\<rparr>)
          | [] \<Rightarrow> if rx_open r then Pending else Closed))"

section \<open>The task loop\<close>

definition frame_stop_reason :: "'j frame \<Rightarrow> stop_reason" where
  "frame_stop_reason f =
     (case f of End _ \<Rightarrow> EndOfTask | Stop \<Rightarrow> Stopped | Cancel _ \<Rightarrow> Cancelled | _ \<Rightarrow> Stopped)"

fun drain_on_interruption ::
  "link \<Rightarrow> 'j envelope list \<Rightarrow> 'j envelope option \<times> 'j eff list \<times> 'j envelope list" where
  "drain_on_interruption l [] = (None, [], [])"
| "drain_on_interruption l (e # es) =
     (if uninterruptible (env_frame e) then
        if env_direction e = Downstream \<and> is_terminal (env_frame e) then (Some e, [], es)
        else let (t, effs, rest) = drain_on_interruption l es in (t, push_env l e @ effs, rest)
      else drain_on_interruption l es)"

text \<open>\<open>if let Err(e) = hook \{ link.push_error(e.to_string(), false) \}\<close>.\<close>

definition report_err :: "link \<Rightarrow> u64 \<Rightarrow> ustr option \<Rightarrow> 'j eff list \<times> u64" where
  "report_err l n r = (case r of None \<Rightarrow> ([], n) | Some msg \<Rightarrow> push_error l n msg False)"

datatype flow = Continue | Break

type_synonym ('s, 'j) loop_result = "'s \<times> 'j rx \<times> 'j eff list \<times> u64 \<times> flow"

text \<open>A terminal frame: \<open>stop()\<close>, report its error, forward, and leave the loop
  unless the frame is \<open>Stop\<close>.\<close>

definition handle_terminal ::
  "('s, 'j) processor \<Rightarrow> link \<Rightarrow> 's \<Rightarrow> 'j envelope \<Rightarrow> u64 \<Rightarrow> 's \<times> 'j eff list \<times> u64 \<times> flow" where
  "handle_terminal p l s env n =
     (let reason = frame_stop_reason (env_frame env);
          (s', e1, r) = p_stop p s reason;
          (e2, n') = report_err l n r
      in (s', e1 @ e2 @ push_env l env, n',
          case env_frame env of Stop \<Rightarrow> Continue | _ \<Rightarrow> Break))"

definition handle_start ::
  "('s, 'j) processor \<Rightarrow> link \<Rightarrow> 's \<Rightarrow> 'j envelope \<Rightarrow> start_params \<Rightarrow> u64 \<Rightarrow> 's \<times> 'j eff list \<times> u64" where
  "handle_start p l s env params n =
     (let (s', e1, r) = p_start p s params;
          (e2, n') = report_err l n r
      in (s', e1 @ e2 @ push_env l env, n'))"

definition handle_interruption ::
  "('s, 'j) processor \<Rightarrow> link \<Rightarrow> 's \<Rightarrow> 'j rx \<Rightarrow> 'j envelope \<Rightarrow> u64 \<Rightarrow> ('s, 'j) loop_result" where
  "handle_interruption p l s r env n =
     (let (kept_terminal, e0, rest) = drain_on_interruption l (rx_normal r);
          r' = r\<lparr>rx_normal := rest\<rparr>;
          (s1, e1, res) = p_on_interruption p s;
          (e2, n1) = report_err l n res;
          e3 = push_env l env
      in case kept_terminal of
           None \<Rightarrow> (s1, r', e0 @ e1 @ e2 @ e3, n1, Continue)
         | Some term \<Rightarrow>
             let (s2, e4, n2, fl) = handle_terminal p l s1 term n1
             in (s2, r', e0 @ e1 @ e2 @ e3 @ e4, n2, fl))"

definition handle_process ::
  "('s, 'j) processor \<Rightarrow> link \<Rightarrow> 's \<Rightarrow> 'j envelope \<Rightarrow> u64 \<Rightarrow> 's \<times> 'j eff list \<times> u64" where
  "handle_process p l s env n =
     (let (s', e1, n1, r) = p_process p l s env n;
          (e2, n2) = report_err l n1 r
      in (s', e1 @ e2, n2))"

definition observe :: "link \<Rightarrow> 'j envelope \<Rightarrow> 'j eff list" where
  "observe l env = (if l_observer l then [OnProcess (l_name l) env] else [])"

text \<open>One iteration of the loop body on a received envelope.\<close>

definition handle_env ::
  "('s, 'j) processor \<Rightarrow> link \<Rightarrow> 's \<Rightarrow> 'j rx \<Rightarrow> 'j envelope \<Rightarrow> u64 \<Rightarrow> ('s, 'j) loop_result" where
  "handle_env p l s r env n =
     (let plain = (\<lambda>(s', e, n'). (s', r, observe l env @ e, n', Continue));
          term = (let (s', e, n', fl) = handle_terminal p l s env n
                  in (s', r, observe l env @ e, n', fl))
      in case env_frame env of
           Start params \<Rightarrow> plain (handle_start p l s env params n)
         | Interruption \<Rightarrow>
             (let (s', r', e, n', fl) = handle_interruption p l s r env n
              in (s', r', observe l env @ e, n', fl))
         | Cancel _ \<Rightarrow> if env_direction env = Downstream then term else plain (handle_process p l s env n)
         | End _ \<Rightarrow> if env_direction env = Downstream then term else plain (handle_process p l s env n)
         | Stop \<Rightarrow> if env_direction env = Downstream then term else plain (handle_process p l s env n)
         | _ \<Rightarrow> plain (handle_process p l s env n))"

definition rx_len :: "'j rx \<Rightarrow> nat" where
  "rx_len r = length (rx_system r) + length (rx_normal r)"

datatype task_status = Waiting | Finished

section \<open>Lemmas on pushes and hooks\<close>

lemma push_none [eff_simps]:
  "l_next l = None \<Longrightarrow> push l m f Downstream = []"
  "l_prev l = None \<Longrightarrow> push l m f Upstream = []"
  by (simp_all add: push_def)

lemma report_err_None [eff_simps]: "report_err l n None = ([], n)"
  by (simp add: report_err_def)

lemma default_hooks [eff_simps]:
  "p_start (default_processor nm) s params = (s, [], None)"
  "p_process (default_processor nm) l s env n = (s, push_env l env, n, None)"
  "p_on_interruption (default_processor nm) s = (s, [], None)"
  "p_stop (default_processor nm) s reason = (s, [], None)"
  "p_name (default_processor nm) = nm"
  by (simp_all add: default_processor_def default_start_def default_process_def
      default_on_interruption_def default_stop_def)

lemma observe_off [eff_simps]: "\<not> l_observer l \<Longrightarrow> observe l env = []"
  by (simp add: observe_def)

section \<open>The drain\<close>

text \<open>A frame that stops the drain, and the frames it keeps.\<close>

definition drain_stops :: "'j envelope \<Rightarrow> bool" where
  "drain_stops e \<longleftrightarrow>
     uninterruptible (env_frame e) \<and> env_direction e = Downstream \<and> is_terminal (env_frame e)"

definition drain_spec ::
  "link \<Rightarrow> 'j envelope list \<Rightarrow> 'j envelope option \<times> 'j eff list \<times> 'j envelope list" where
  "drain_spec l q =
     (let before = takeWhile (\<lambda>e. \<not> drain_stops e) q;
          kept = filter (\<lambda>e. uninterruptible (env_frame e)) before;
          rest = dropWhile (\<lambda>e. \<not> drain_stops e) q
      in (case rest of [] \<Rightarrow> None | t # _ \<Rightarrow> Some t, concat (map (push_env l) kept), tl rest))"

lemma drain_on_interruption_eq_spec: "drain_on_interruption l q = drain_spec l q"
  by (induction q) (auto simp: drain_spec_def drain_stops_def Let_def split: prod.splits)

lemma drain_rest_length: "length (snd (snd (drain_on_interruption l q))) \<le> length q"
  by (induction q) (auto simp: Let_def split: prod.splits)

lemma drain_terminal:
  "fst (drain_on_interruption l q) = Some t \<Longrightarrow> drain_stops t \<and> t \<in> set q"
  by (induction q) (auto simp: drain_stops_def Let_def split: prod.splits if_splits)

section \<open>The loop\<close>

lemma handle_env_rx_len:
  "handle_env p l s r env n = (s', r', e, n', fl) \<Longrightarrow> rx_len r' \<le> rx_len r"
  using drain_rest_length [of l "rx_normal r"]
  by (auto simp: handle_env_def handle_interruption_def rx_len_def Let_def
      split: prod.splits frame.splits if_splits option.splits)

lemma rx_recv_len: "rx_recv r = Got e r' \<Longrightarrow> rx_len r' < rx_len r"
  by (auto simp: rx_recv_def rx_len_def split: list.splits if_splits)

text \<open>\<open>run_processor\<close> up to the point where it would wait for a new frame
  (\<open>Waiting\<close>) or its task ends (\<open>Finished\<close>).\<close>

function run_processor ::
  "('s, 'j) processor \<Rightarrow> link \<Rightarrow> 's \<Rightarrow> 'j rx \<Rightarrow> u64 \<Rightarrow> 's \<times> 'j rx \<times> 'j eff list \<times> u64 \<times> task_status" where
  "run_processor p l s r n =
     (case rx_recv r of
        Pending \<Rightarrow> (s, r, [], n, Waiting)
      | Closed \<Rightarrow> (s, r, [], n, Finished)
      | Got env r1 \<Rightarrow>
          (case handle_env p l s r1 env n of
             (s', r', e, n', Break) \<Rightarrow> (s', r', e, n', Finished)
           | (s', r', e, n', Continue) \<Rightarrow>
               (case run_processor p l s' r' n' of
                  (s'', r'', e', n'', st) \<Rightarrow> (s'', r'', e @ e', n'', st))))"
  by pat_completeness auto
termination
proof (relation "measure (\<lambda>(p, l, s, r, n). rx_len r)", goal_cases)
  case 1
  then show ?case by simp
next
  case (2 p l s r n env r1 s' y r' y' e y'' n' y''' )
  then have "rx_len r' \<le> rx_len r1" and "rx_len r1 < rx_len r"
    by (auto dest: handle_env_rx_len [OF sym] rx_recv_len)
  then show ?case by simp
qed

declare run_processor.simps [simp del]

lemma run_processor_Got:
  assumes "rx_recv r = Got env r1"
  shows "run_processor p l s r n =
     (case handle_env p l s r1 env n of
        (s', r', e, n', fl) \<Rightarrow>
          (if fl = Break then (s', r', e, n', Finished)
           else case run_processor p l s' r' n' of
                  (s'', r'', e', n'', st) \<Rightarrow> (s'', r'', e @ e', n'', st)))"
  using assms by (subst run_processor.simps) (simp split: prod.splits flow.splits)

lemma run_processor_empty:
  "rx_system r = [] \<Longrightarrow> rx_normal r = [] \<Longrightarrow>
     run_processor p l s r n = (s, r, [], n, if rx_open r then Waiting else Finished)"
  by (subst run_processor.simps) (simp add: rx_recv_def)

text \<open>Which frames the loop keeps from \<open>process_frame\<close>.\<close>

definition lifecycle :: "'j envelope \<Rightarrow> bool" where
  "lifecycle e \<longleftrightarrow>
     (case env_frame e of
        Start _ \<Rightarrow> True
      | Interruption \<Rightarrow> True
      | f \<Rightarrow> is_terminal f \<and> env_direction e = Downstream)"

lemma handle_terminal_process [simp]:
  "handle_terminal (p\<lparr>p_process := g\<rparr>) = handle_terminal p"
  by (simp add: fun_eq_iff handle_terminal_def)

lemma handle_start_process [simp]:
  "handle_start (p\<lparr>p_process := g\<rparr>) = handle_start p"
  by (simp add: fun_eq_iff handle_start_def)

lemma handle_interruption_process [simp]:
  "handle_interruption (p\<lparr>p_process := g\<rparr>) = handle_interruption p"
  by (simp add: fun_eq_iff handle_interruption_def Let_def split: prod.split option.split)

lemma handle_env_lifecycle_cong:
  assumes "lifecycle env"
  shows "handle_env (p\<lparr>p_process := g\<rparr>) l s r env n = handle_env p l s r env n"
  using assms
  by (cases "env_frame env")
     (simp_all add: handle_env_def lifecycle_def is_terminal_def)

lemma handle_env_other:
  assumes "\<not> lifecycle env"
  shows "handle_env p l s r env n =
    (case handle_process p l s env n of (s', e, n') \<Rightarrow> (s', r, observe l env @ e, n', Continue))"
  using assms
  by (cases "env_frame env")
     (simp_all add: handle_env_def lifecycle_def is_terminal_def)

lemma handle_env_terminal:
  assumes "is_terminal (env_frame env)" and "env_direction env = Downstream"
  shows "handle_env p l s r env n =
    (case handle_terminal p l s env n of (s', e, n', fl) \<Rightarrow> (s', r, observe l env @ e, n', fl))"
  using assms by (auto simp: handle_env_def elim!: is_terminalE split: prod.split)

section \<open>System frames come first\<close>

text \<open>A system queue without interruptions is handled completely, in order, before the
  first queued normal frame; if one of its frames ends the loop the normal queue is left as
  it is.\<close>

lemma handle_env_normal_frame:
  assumes "env_frame env \<noteq> Interruption"
  shows "\<exists>s' e n' fl. \<forall>r. handle_env p l s r env n = (s', r, e, n', fl)"
proof (cases "lifecycle env")
  case False
  then show ?thesis
    by (cases "handle_process p l s env n") (simp add: handle_env_other)
next
  case True
  with assms consider params where "env_frame env = Start params"
    | "is_terminal (env_frame env)" "env_direction env = Downstream"
    by (cases "env_frame env") (auto simp: lifecycle_def is_terminal_def)
  then show ?thesis
  proof cases
    case 1
    then show ?thesis
      by (cases "handle_start p l s env params n") (simp add: handle_env_def)
  next
    case 2
    then show ?thesis
      by (cases "handle_terminal p l s env n") (simp add: handle_env_terminal)
  qed
qed

lemma run_processor_system_first:
  assumes "\<forall>e \<in> set ss. env_frame e \<noteq> Interruption"
  shows "run_processor p l s \<lparr>rx_system = ss, rx_normal = xs, rx_open = b\<rparr> n =
    (case run_processor p l s \<lparr>rx_system = ss, rx_normal = [], rx_open = True\<rparr> n of
       (s1, r1, e1, n1, Finished) \<Rightarrow>
         (s1, \<lparr>rx_system = rx_system r1, rx_normal = xs, rx_open = b\<rparr>, e1, n1, Finished)
     | (s1, r1, e1, n1, Waiting) \<Rightarrow>
         (case run_processor p l s1 \<lparr>rx_system = [], rx_normal = xs, rx_open = b\<rparr> n1 of
            (s2, r2, e2, n2, st) \<Rightarrow> (s2, r2, e1 @ e2, n2, st)))"
  using assms
proof (induction ss arbitrary: s n)
  case Nil
  have "run_processor p l s \<lparr>rx_system = [], rx_normal = [], rx_open = True\<rparr> n =
      (s, \<lparr>rx_system = [], rx_normal = [], rx_open = True\<rparr>, [], n, Waiting)"
    by (simp add: run_processor_empty)
  then show ?case by (simp split: prod.splits)
next
  case (Cons env ss)
  from Cons.prems have "env_frame env \<noteq> Interruption" by simp
  then obtain s1 e1 n1 fl where h: "\<And>r. handle_env p l s r env n = (s1, r, e1, n1, fl)"
    using handle_env_normal_frame [of env p l s n] by blast
  have got: "rx_recv \<lparr>rx_system = env # ss, rx_normal = ys, rx_open = c\<rparr> =
      Got env \<lparr>rx_system = ss, rx_normal = ys, rx_open = c\<rparr>" for ys c
    by (simp add: rx_recv_def)
  show ?case
  proof (cases fl)
    case Break
    then show ?thesis by (simp add: run_processor_Got [OF got] h)
  next
    case Continue
    then show ?thesis
      using Cons.prems
      by (simp add: run_processor_Got [OF got] h Cons.IH split: prod.splits task_status.splits)
  qed
qed

section \<open>Forwarding in order\<close>

text \<open>A processor that keeps the default \<open>process_frame\<close> forwards its normal queue in
  first-in first-out order.\<close>

lemma default_handle_other:
  assumes "\<not> lifecycle env"
  shows "handle_env (default_processor nm) l s r env n =
    (s, r, observe l env @ push_env l env, n, Continue)"
  using assms by (simp add: handle_env_other handle_process_def eff_simps)

lemma run_default_append:
  assumes "\<forall>e \<in> set xs. \<not> lifecycle e"
  shows "run_processor (default_processor nm) l s \<lparr>rx_system = [], rx_normal = xs @ ys, rx_open = b\<rparr> n =
    (case run_processor (default_processor nm) l s \<lparr>rx_system = [], rx_normal = ys, rx_open = b\<rparr> n of
       (s', r', e', n', st) \<Rightarrow>
         (s', r', concat (map (\<lambda>e. observe l e @ push_env l e) xs) @ e', n', st))"
  using assms
proof (induction xs)
  case Nil
  then show ?case by (simp split: prod.splits)
next
  case (Cons e xs)
  have got: "rx_recv \<lparr>rx_system = [], rx_normal = e # xs @ ys, rx_open = b\<rparr> =
      Got e \<lparr>rx_system = [], rx_normal = xs @ ys, rx_open = b\<rparr>"
    by (simp add: rx_recv_def)
  show ?case
    using Cons by (simp add: run_processor_Got [OF got] default_handle_other split: prod.splits)
qed

section \<open>Interruption\<close>

lemma takeWhile_all: "\<forall>x \<in> set xs. P x \<Longrightarrow> takeWhile P (xs @ ys) = xs @ takeWhile P ys"
  by (simp add: takeWhile_append)

lemma dropWhile_all: "\<forall>x \<in> set xs. P x \<Longrightarrow> dropWhile P (xs @ ys) = dropWhile P ys"
  by (simp add: dropWhile_append)

text \<open>What the drain forwards.\<close>

abbreviation survivors :: "'j envelope list \<Rightarrow> 'j envelope list" where
  "survivors \<equiv> filter (\<lambda>e. uninterruptible (env_frame e))"

lemma drain_clean:
  assumes "\<forall>e \<in> set q. \<not> drain_stops e"
  shows "drain_on_interruption l q = (None, concat (map (push_env l) (survivors q)), [])"
  using assms by (induction q) (auto simp: drain_stops_def)

lemma drain_at_terminal:
  assumes "\<forall>e \<in> set q. \<not> drain_stops e" and "drain_stops t"
  shows "drain_on_interruption l (q @ t # rest) =
    (Some t, concat (map (push_env l) (survivors q)), rest)"
  using assms
  by (simp add: drain_on_interruption_eq_spec drain_spec_def takeWhile_all dropWhile_all)

section \<open>Properties\<close>

text \<open>Concrete envelopes and a link for the witnesses.\<close>

definition ex_link :: link where
  "ex_link = \<lparr>l_next = Some \<lparr>tx_chan = 1, tx_name = ''next''\<rparr>,
     l_prev = Some \<lparr>tx_chan = 0, tx_name = ''prev''\<rparr>, l_name = ''P'', l_observer = False,
     enable_metrics = False, enable_usage_metrics = False, ttfb_start = 0, processing_start = 0\<rparr>"

definition ex_env :: "unit frame \<Rightarrow> direction \<Rightarrow> unit envelope" where
  "ex_env f d = fst (envelope_new 7 f d)"

lemma ex_env_simps [simp]:
  "env_frame (ex_env f d) = f" "env_direction (ex_env f d) = d"
  by (simp_all add: ex_env_def envelope_new_def frame_meta_new_def next_frame_id_def)

text \<open>An interruption without a downstream \<open>End\<close> or \<open>Stop\<close> in the queue.\<close>

lemma run_interruption:
  assumes "env_frame ie = Interruption" and "\<forall>e \<in> set q. \<not> drain_stops e"
    and "p_on_interruption p s = (s', eh, None)"
  shows "run_processor p l s \<lparr>rx_system = [ie], rx_normal = q, rx_open = True\<rparr> n =
    (s', \<lparr>rx_system = [], rx_normal = [], rx_open = True\<rparr>,
     observe l ie @ concat (map (push_env l) (survivors q)) @ eh @ push_env l ie, n, Waiting)"
proof -
  have got: "rx_recv \<lparr>rx_system = [ie], rx_normal = q, rx_open = True\<rparr> =
      Got ie \<lparr>rx_system = [], rx_normal = q, rx_open = True\<rparr>"
    by (simp add: rx_recv_def)
  show ?thesis
    using assms
    by (simp add: run_processor_Got [OF got] handle_env_def handle_interruption_def drain_clean
        run_processor_empty eff_simps)
qed

text \<open>C1. Barge-in: when a processor receives an interruption and no downstream
  \<open>End\<close>/\<open>Stop\<close> is queued, the whole normal backlog is gone afterwards: exactly the
  uninterruptible frames are forwarded, in queue order and before the interruption marker,
  the interruption hook runs once and succeeds, and \<open>process_frame\<close> sees none of it.\<close>

theorem interruption_drains_backlog:
  assumes "env_frame ie = Interruption" and "\<forall>e \<in> set q. \<not> drain_stops e"
    and "p_on_interruption p s = (s', eh, None)"
  shows "run_processor p l s \<lparr>rx_system = [ie], rx_normal = q, rx_open = True\<rparr> n =
    (s', \<lparr>rx_system = [], rx_normal = [], rx_open = True\<rparr>,
     observe l ie @ concat (map (push_env l) (survivors q)) @ eh @ push_env l ie, n, Waiting)"
  using assms by (rule run_interruption)

theorem interruption_drains_backlog_witness:
  "run_processor (default_processor ''P'') ex_link ()
     \<lparr>rx_system = [ex_env Interruption Downstream],
      rx_normal = [ex_env (Text [97]) Downstream, ex_env (UpdateSettings Tts ()) Downstream],
      rx_open = True\<rparr> 9 =
   ((), \<lparr>rx_system = [], rx_normal = [], rx_open = True\<rparr>,
    [Send \<lparr>tx_chan = 1, tx_name = ''next''\<rparr> (ex_env (UpdateSettings Tts ()) Downstream),
     Send \<lparr>tx_chan = 1, tx_name = ''next''\<rparr> (ex_env Interruption Downstream)], 9, Waiting)"
proof -
  have 1: "env_frame (ex_env Interruption Downstream) = Interruption" by simp
  have 2: "\<forall>e \<in> set [ex_env (Text [97]) Downstream, ex_env (UpdateSettings Tts ()) Downstream].
      \<not> drain_stops e"
    by (simp add: drain_stops_def uninterruptible_def is_terminal_def)
  have 3: "p_on_interruption (default_processor ''P'') () = ((), [], None)"
    by (simp add: eff_simps)
  show ?thesis
    using interruption_drains_backlog [OF 1 2 3, of ex_link 9]
    by (simp add: push_def ex_link_def observe_def uninterruptible_def ex_env_def envelope_new_def
        frame_meta_new_def next_frame_id_def)
qed

text \<open>C2. An \<open>End\<close> that is buffered when an interruption hits is not lost: the frames
  before it are drained as above, then the interruption is forwarded, then \<open>stop\<close> has run once
  with \<open>EndOfTask\<close> and the \<open>End\<close> has been forwarded once, and the task finishes; nothing
  queued behind the \<open>End\<close> is handled. The order of the effects of \<open>stop\<close> and the forwarded
  \<open>End\<close> is left open: the documentation of the hook puts the \<open>End\<close> first, that of the runtime
  \<open>stop\<close>.\<close>

theorem interruption_keeps_end:
  assumes "env_frame ie = Interruption" and "\<forall>e \<in> set q. \<not> drain_stops e"
    and "env_frame t = End rsn" and "env_direction t = Downstream"
    and "p_on_interruption p s = (s1, eh, None)" and "p_stop p s1 EndOfTask = (s2, es, None)"
  shows "\<exists>fin. run_processor p l s \<lparr>rx_system = [ie], rx_normal = q @ t # rest, rx_open = b\<rparr> n =
      (s2, \<lparr>rx_system = [], rx_normal = rest, rx_open = b\<rparr>,
       observe l ie @ concat (map (push_env l) (survivors q)) @ eh @ push_env l ie @ fin, n, Finished) \<and>
    (fin = es @ push_env l t \<or> fin = push_env l t @ es)"
proof -
  have got: "rx_recv \<lparr>rx_system = [ie], rx_normal = q @ t # rest, rx_open = b\<rparr> =
      Got ie \<lparr>rx_system = [], rx_normal = q @ t # rest, rx_open = b\<rparr>"
    by (simp add: rx_recv_def)
  have "drain_stops t"
    using assms(3,4) by (simp add: drain_stops_def frame_simps)
  then show ?thesis
    using assms
    by (simp add: run_processor_Got [OF got] handle_env_def handle_interruption_def
        drain_at_terminal handle_terminal_def frame_stop_reason_def eff_simps)
qed

theorem interruption_keeps_end_witness:
  "run_processor (default_processor ''P'') ex_link ()
     \<lparr>rx_system = [ex_env Interruption Downstream],
      rx_normal = [ex_env (Text [97]) Downstream] @ ex_env (End None) Downstream # [],
      rx_open = True\<rparr> 9 =
   ((), \<lparr>rx_system = [], rx_normal = [], rx_open = True\<rparr>,
    [Send \<lparr>tx_chan = 1, tx_name = ''next''\<rparr> (ex_env Interruption Downstream),
     Send \<lparr>tx_chan = 1, tx_name = ''next''\<rparr> (ex_env (End None) Downstream)], 9, Finished)"
proof -
  have 1: "env_frame (ex_env Interruption Downstream) = Interruption" by simp
  have 2: "\<forall>e \<in> set [ex_env (Text [97]) Downstream]. \<not> drain_stops e"
    by (simp add: drain_stops_def uninterruptible_def)
  have 3: "env_frame (ex_env (End None) Downstream) = End None"
    and 4: "env_direction (ex_env (End None) Downstream) = Downstream" by simp_all
  have 5: "p_on_interruption (default_processor ''P'') () = ((), [], None)"
    and 6: "p_stop (default_processor ''P'') () EndOfTask = ((), [], None)"
    by (simp_all add: eff_simps)
  show ?thesis
    using interruption_keeps_end [OF 1 2 3 4 5 6, of ex_link "[]" True 9]
    by (auto simp: push_def ex_link_def observe_def uninterruptible_def ex_env_def envelope_new_def
        frame_meta_new_def next_frame_id_def)
qed

text \<open>C3. Graceful drain: a forwarding processor whose normal queue holds frames followed by
  a downstream \<open>End\<close> forwards every frame in order, then the \<open>End\<close>, and its task
  finishes without touching what is queued behind it.\<close>

theorem graceful_end_flushes:
  assumes "\<forall>e \<in> set q. \<not> lifecycle e" and "env_frame t = End rsn" and "env_direction t = Downstream"
  shows "run_processor (default_processor nm) l s
      \<lparr>rx_system = [], rx_normal = q @ t # rest, rx_open = b\<rparr> n =
    (s, \<lparr>rx_system = [], rx_normal = rest, rx_open = b\<rparr>,
     concat (map (\<lambda>e. observe l e @ push_env l e) (q @ [t])), n, Finished)"
proof -
  have got: "rx_recv \<lparr>rx_system = [], rx_normal = t # rest, rx_open = b\<rparr> =
      Got t \<lparr>rx_system = [], rx_normal = rest, rx_open = b\<rparr>"
    by (simp add: rx_recv_def)
  have "run_processor (default_processor nm) l s \<lparr>rx_system = [], rx_normal = t # rest, rx_open = b\<rparr> n =
      (s, \<lparr>rx_system = [], rx_normal = rest, rx_open = b\<rparr>, observe l t @ push_env l t, n, Finished)"
    using assms(2,3)
    by (simp add: run_processor_Got [OF got] handle_env_terminal frame_simps handle_terminal_def
        eff_simps)
  then show ?thesis
    by (simp add: run_default_append [OF assms(1)])
qed

theorem graceful_end_flushes_witness:
  "fst (snd (snd (run_processor (default_processor ''P'') ex_link ()
     \<lparr>rx_system = [], rx_normal = [ex_env (Text [97]) Downstream] @ ex_env (End None) Downstream # [],
      rx_open = True\<rparr> 9))) =
   [Send \<lparr>tx_chan = 1, tx_name = ''next''\<rparr> (ex_env (Text [97]) Downstream),
    Send \<lparr>tx_chan = 1, tx_name = ''next''\<rparr> (ex_env (End None) Downstream)]"
proof -
  have 1: "\<forall>e \<in> set [ex_env (Text [97]) Downstream]. \<not> lifecycle e"
    by (simp add: lifecycle_def is_terminal_def)
  have 2: "env_frame (ex_env (End None) Downstream) = End None"
    and 3: "env_direction (ex_env (End None) Downstream) = Downstream" by simp_all
  show ?thesis
    using graceful_end_flushes [OF 1 2 3, of "''P''" ex_link "()" "[]" True 9]
    by (simp add: push_def ex_link_def observe_def ex_env_def envelope_new_def
        frame_meta_new_def next_frame_id_def)
qed

text \<open>C4. System priority: with no interruption queued, every frame of the system channel is
  handled, in order, before the first frame of the normal channel; a system frame that ends the
  task (a downstream \<open>Cancel\<close>) leaves the normal queue unhandled.\<close>

theorem system_frames_first:
  assumes "\<forall>e \<in> set ss. env_frame e \<noteq> Interruption"
  shows "run_processor p l s \<lparr>rx_system = ss, rx_normal = xs, rx_open = b\<rparr> n =
    (case run_processor p l s \<lparr>rx_system = ss, rx_normal = [], rx_open = True\<rparr> n of
       (s1, r1, e1, n1, Finished) \<Rightarrow>
         (s1, \<lparr>rx_system = rx_system r1, rx_normal = xs, rx_open = b\<rparr>, e1, n1, Finished)
     | (s1, r1, e1, n1, Waiting) \<Rightarrow>
         (case run_processor p l s1 \<lparr>rx_system = [], rx_normal = xs, rx_open = b\<rparr> n1 of
            (s2, r2, e2, n2, st) \<Rightarrow> (s2, r2, e1 @ e2, n2, st)))"
  using assms by (rule run_processor_system_first)

theorem system_frames_first_witness:
  "run_processor (default_processor ''P'') ex_link ()
     \<lparr>rx_system = [ex_env (Cancel None) Downstream], rx_normal = [ex_env (Text [97]) Downstream],
      rx_open = True\<rparr> 9 =
   ((), \<lparr>rx_system = [], rx_normal = [ex_env (Text [97]) Downstream], rx_open = True\<rparr>,
    [Send \<lparr>tx_chan = 1, tx_name = ''next''\<rparr> (ex_env (Cancel None) Downstream)], 9, Finished)"
proof -
  have 1: "\<forall>e \<in> set [ex_env (Cancel None) Downstream]. env_frame e \<noteq> Interruption" by simp
  have got: "rx_recv \<lparr>rx_system = [ex_env (Cancel None) Downstream], rx_normal = [], rx_open = True\<rparr> =
      Got (ex_env (Cancel None) Downstream) \<lparr>rx_system = [], rx_normal = [], rx_open = True\<rparr>"
    by (simp add: rx_recv_def)
  have run: "run_processor (default_processor ''P'') ex_link ()
      \<lparr>rx_system = [ex_env (Cancel None) Downstream], rx_normal = [], rx_open = True\<rparr> 9 =
    ((), \<lparr>rx_system = [], rx_normal = [], rx_open = True\<rparr>,
     [Send \<lparr>tx_chan = 1, tx_name = ''next''\<rparr> (ex_env (Cancel None) Downstream)], 9, Finished)"
    unfolding run_processor_Got [OF got]
    by (simp add: handle_env_def handle_terminal_def eff_simps push_def ex_link_def observe_def
        ex_env_def envelope_new_def frame_meta_new_def next_frame_id_def)
  show ?thesis
    using system_frames_first [OF 1, of "default_processor ''P''" ex_link "()"
        "[ex_env (Text [97]) Downstream]" True 9]
    by (simp add: run)
qed

lemma drain_rest_subset: "set (snd (snd (drain_on_interruption l q))) \<subseteq> set q"
  by (induction q) (auto simp: Let_def split: prod.splits)

lemma handle_env_rx_subset:
  assumes "handle_env p l s r env n = (s', r', e, n', fl)"
  shows "set (rx_system r') \<union> set (rx_normal r') \<subseteq> set (rx_system r) \<union> set (rx_normal r)"
proof (cases "env_frame env = Interruption")
  case True
  with assms show ?thesis
    using drain_rest_subset [of l "rx_normal r"]
    by (auto simp: handle_env_def handle_interruption_def Let_def split: prod.splits option.splits)
next
  case False
  then show ?thesis using handle_env_normal_frame [of env p l s n] assms by fastforce
qed

text \<open>C5. Lifecycle frames never reach \<open>process_frame\<close>: on any queue of starts,
  interruptions and downstream terminals the task behaves the same whatever
  \<open>process_frame\<close> does.\<close>

theorem lifecycle_bypasses_process:
  assumes "\<forall>e \<in> set (rx_system r) \<union> set (rx_normal r). lifecycle e"
  shows "run_processor (p\<lparr>p_process := g\<rparr>) l s r n = run_processor p l s r n"
  using assms
proof (induction p l s r n rule: run_processor.induct)
  case (1 p l s r n)
  show ?case
  proof (cases "rx_recv r")
    case (Got env r1)
    then have sub: "set (rx_system r1) \<union> set (rx_normal r1) \<subseteq> set (rx_system r) \<union> set (rx_normal r)"
      and mem: "env \<in> set (rx_system r) \<union> set (rx_normal r)"
      by (auto simp: rx_recv_def split: list.splits if_splits)
    have eq: "handle_env (p\<lparr>p_process := g\<rparr>) l s r1 env n = handle_env p l s r1 env n"
      using "1.prems" mem by (intro handle_env_lifecycle_cong) blast
    obtain s' r' e n' fl where h: "handle_env p l s r1 env n = (s', r', e, n', fl)"
      by (cases "handle_env p l s r1 env n") auto
    have "\<forall>e \<in> set (rx_system r') \<union> set (rx_normal r'). lifecycle e"
      using handle_env_rx_subset [OF h] sub "1.prems" by blast
    then have "fl = Continue \<Longrightarrow> run_processor (p\<lparr>p_process := g\<rparr>) l s' r' n' = run_processor p l s' r' n'"
      using "1.IH" [OF Got] h by fastforce
    then show ?thesis by (cases fl) (simp_all add: run_processor_Got [OF Got] eq h)
  qed (simp_all add: run_processor.simps [of _ l s r n])
qed

theorem lifecycle_bypasses_process_witness:
  "run_processor ((default_processor ''P'')\<lparr>p_process := (\<lambda>l s e n. (s, [], n, Some [33]))\<rparr>) ex_link ()
     \<lparr>rx_system = [ex_env (Start start_params_default) Downstream],
      rx_normal = [ex_env (End None) Downstream], rx_open = True\<rparr> 9 =
   run_processor (default_processor ''P'') ex_link ()
     \<lparr>rx_system = [ex_env (Start start_params_default) Downstream],
      rx_normal = [ex_env (End None) Downstream], rx_open = True\<rparr> 9"
  by (rule lifecycle_bypasses_process) (simp add: lifecycle_def is_terminal_def)

text \<open>Errors are contained: an \<open>Err\<close> of \<open>process_frame\<close> turns into one
  non-fatal \<open>Error\<close> frame pushed upstream under this processor's name and a fresh id,
  after the frames the hook pushed itself, and the loop goes on with the rest of the queue.\<close>

lemma process_error_reported:
  assumes "\<not> lifecycle env" and "p_process p l s env n = (s', e, n1, Some msg)"
    and "l_prev l = Some tx" and "\<not> l_observer l"
  shows "run_processor p l s \<lparr>rx_system = [], rx_normal = env # q, rx_open = b\<rparr> n =
    (case run_processor p l s' \<lparr>rx_system = [], rx_normal = q, rx_open = b\<rparr> (n1 + 1) of
       (s2, r2, e2, n2, st) \<Rightarrow>
         (s2, r2, e @ Send tx (fst (envelope_new n1 (Error msg False (Some (l_name l))) Upstream)) # e2,
          n2, st))"
proof -
  have got: "rx_recv \<lparr>rx_system = [], rx_normal = env # q, rx_open = b\<rparr> =
      Got env \<lparr>rx_system = [], rx_normal = q, rx_open = b\<rparr>"
    by (simp add: rx_recv_def)
  show ?thesis
    using assms
    by (simp add: run_processor_Got [OF got] handle_env_other handle_process_def report_err_def
        push_error_def push_up_def push_def envelope_new_def frame_meta_new_def next_frame_id_def
        observe_def split: prod.splits)
qed

text \<open>A broadcast reaches both neighbours with two different ids, each copy naming the
  other as its sibling.\<close>

lemma broadcast_pairs_siblings:
  assumes "l_next l = Some dn" and "l_prev l = Some up" and "\<not> l_observer l"
  shows "\<exists>d u. fst (broadcast l n f) = [Send dn d, Send up u] \<and>
    env_frame d = f \<and> env_frame u = f \<and>
    env_direction d = Downstream \<and> env_direction u = Upstream \<and>
    fm_id (env_meta d) \<noteq> fm_id (env_meta u) \<and>
    broadcast_sibling_id (env_meta d) = Some (fm_id (env_meta u)) \<and>
    broadcast_sibling_id (env_meta u) = Some (fm_id (env_meta d))"
  using assms by (simp add: broadcast_def next_frame_id_def frame_meta_new_def push_def)

text \<open>A \<open>Stop\<close> buffered behind an interruption does not end the task, and the drain
  stops at it: the interruptible frames queued behind the \<open>Stop\<close> survive the
  interruption and are processed afterwards.\<close>

lemma interruption_stop_keeps_rest:
  assumes "env_frame ie = Interruption" and "\<forall>e \<in> set q. \<not> drain_stops e"
    and "env_frame t = Stop" and "env_direction t = Downstream"
    and "\<forall>e \<in> set rest. \<not> lifecycle e"
  shows "run_processor (default_processor nm) l s
      \<lparr>rx_system = [ie], rx_normal = q @ t # rest, rx_open = True\<rparr> n =
    (s, \<lparr>rx_system = [], rx_normal = [], rx_open = True\<rparr>,
     observe l ie @ concat (map (push_env l) (survivors q)) @ push_env l ie @ push_env l t @
       concat (map (\<lambda>e. observe l e @ push_env l e) rest), n, Waiting)"
proof -
  have got: "rx_recv \<lparr>rx_system = [ie], rx_normal = q @ t # rest, rx_open = True\<rparr> =
      Got ie \<lparr>rx_system = [], rx_normal = q @ t # rest, rx_open = True\<rparr>"
    by (simp add: rx_recv_def)
  have "drain_stops t"
    using assms(3,4) by (simp add: drain_stops_def frame_simps)
  moreover have "run_processor (default_processor nm) l s
      \<lparr>rx_system = [], rx_normal = rest, rx_open = True\<rparr> n =
      (s, \<lparr>rx_system = [], rx_normal = [], rx_open = True\<rparr>,
       concat (map (\<lambda>e. observe l e @ push_env l e) rest), n, Waiting)"
    using run_default_append [OF assms(5), of nm l s "[]" True n]
    by (simp add: run_processor_empty)
  ultimately show ?thesis
    using assms
    by (simp add: run_processor_Got [OF got] handle_env_def handle_interruption_def
        drain_at_terminal handle_terminal_def eff_simps)
qed

end
