(* ===== verification/Frame_Relays.thy ===== *)
theory Frame_Relays
  imports Proc_Runtime "HOL-Library.Sublist"
begin

text \<open>
  The relay tasks that wire composites together: \<open>bridge\<close> of
  \<^verbatim>\<open>flowcat-core/src/pipeline/mod.rs\<close> and \<open>fan_out\<close>,
  \<open>fan_in\<close>, \<open>forward\<close> of \<^verbatim>\<open>pipeline/parallel.rs\<close>.

  All four run the same biased receive loop around a step; \<open>recv_loop\<close> is that loop up
  to the point where it waits or its task ends. The locale \<open>frame_relay\<close> is the
  contract they share (no relay invents a frame) and \<open>copy_relay\<close> the stronger one of
  the three stateless tasks (every received frame goes to a fixed list of destinations).
\<close>

section \<open>The biased receive loop\<close>

type_synonym ('s, 'j) relay_step = "'s \<Rightarrow> 'j envelope \<Rightarrow> 's \<times> 'j eff list \<times> flow"

function recv_loop :: "('s, 'j) relay_step \<Rightarrow> 's \<Rightarrow> 'j rx \<Rightarrow> 's \<times> 'j rx \<times> 'j eff list \<times> task_status" where
  "recv_loop step s r =
     (case rx_recv r of
        Pending \<Rightarrow> (s, r, [], Waiting)
      | Closed \<Rightarrow> (s, r, [], Finished)
      | Got env r1 \<Rightarrow>
          (case step s env of
             (s', e, Break) \<Rightarrow> (s', r1, e, Finished)
           | (s', e, Continue) \<Rightarrow>
               (case recv_loop step s' r1 of (s'', r', e', st) \<Rightarrow> (s'', r', e @ e', st))))"
  by pat_completeness auto
termination
  by (relation "measure (\<lambda>(step, s, r). rx_len r)") (auto dest: rx_recv_len)

declare recv_loop.simps [simp del]

section \<open>The relay tasks\<close>

definition forward_one :: "processor_tx option \<Rightarrow> 'j envelope \<Rightarrow> 'j eff list" where
  "forward_one dst env = (case dst of Some tx \<Rightarrow> [Send tx env] | None \<Rightarrow> [])"

definition bridge_step :: "processor_tx \<Rightarrow> (unit, 'j) relay_step" where
  "bridge_step dst u env =
     (u, [Send dst env], if is_terminal (env_frame env) then Break else Continue)"

definition bridge :: "'j rx \<Rightarrow> processor_tx \<Rightarrow> unit \<times> 'j rx \<times> 'j eff list \<times> task_status" where
  "bridge r dst = recv_loop (bridge_step dst) () r"

definition fan_out_step :: "processor_tx list \<Rightarrow> (unit, 'j) relay_step" where
  "fan_out_step branch_heads u env =
     (u, map (\<lambda>head. Send head env) branch_heads,
      if is_terminal (env_frame env) then Break else Continue)"

definition fan_out :: "'j rx \<Rightarrow> processor_tx list \<Rightarrow> unit \<times> 'j rx \<times> 'j eff list \<times> task_status" where
  "fan_out r branch_heads = recv_loop (fan_out_step branch_heads) () r"

definition forward_step :: "processor_tx option \<Rightarrow> (unit, 'j) relay_step" where
  "forward_step dst u env = (u, forward_one dst env, Continue)"

definition forward :: "'j rx \<Rightarrow> processor_tx option \<Rightarrow> unit \<times> 'j rx \<times> 'j eff list \<times> task_status" where
  "forward r dst = recv_loop (forward_step dst) () r"

text \<open>The fan-in: which frames are synchronised, and when two are the same event.\<close>

definition is_synced_lifecycle :: "'j frame \<Rightarrow> bool" where
  "is_synced_lifecycle f \<longleftrightarrow>
     (case f of Start _ \<Rightarrow> True | End _ \<Rightarrow> True | Cancel _ \<Rightarrow> True | _ \<Rightarrow> False)"

definition same_lifecycle :: "'j frame \<Rightarrow> 'j frame \<Rightarrow> bool" where
  "same_lifecycle a b \<longleftrightarrow>
     (case (a, b) of
        (Start _, Start _) \<Rightarrow> True
      | (End _, End _) \<Rightarrow> True
      | (Cancel _, Cancel _) \<Rightarrow> True
      | _ \<Rightarrow> False)"

lemma is_synced_lifecycle_simps [simp]:
  "is_synced_lifecycle (Start p)" "is_synced_lifecycle (End r)" "is_synced_lifecycle (Cancel r)"
  "\<not> is_synced_lifecycle (Text t)" "\<not> is_synced_lifecycle Stop" "\<not> is_synced_lifecycle Interruption"
  by (simp_all add: is_synced_lifecycle_def)

record 'j fan_in_state =
  seen_ids :: "u64 set"
  lifecycle_pending :: "('j frame \<times> nat) option"
  fi_buffer :: "'j envelope list"

definition fan_in_init :: "'j fan_in_state" where
  "fan_in_init = \<lparr>seen_ids = {}, lifecycle_pending = None, fi_buffer = []\<rparr>"

text \<open>One received envelope: the new state and the envelopes passed to
  \<open>forward_one\<close>, in order.\<close>

definition fan_in_emit :: "nat \<Rightarrow> 'j fan_in_state \<Rightarrow> 'j envelope \<Rightarrow> 'j fan_in_state \<times> 'j envelope list" where
  "fan_in_emit branch_count st env =
     (if is_synced_lifecycle (env_frame env) then
        case lifecycle_pending st of
          Some (pending, count) \<Rightarrow>
            if same_lifecycle pending (env_frame env) then
              if branch_count \<le> count + 1
              then (st\<lparr>fi_buffer := [], lifecycle_pending := None\<rparr>, env # fi_buffer st)
              else (st\<lparr>lifecycle_pending := Some (pending, count + 1)\<rparr>, [])
            else (st\<lparr>fi_buffer := fi_buffer st @ [env]\<rparr>, [])
        | None \<Rightarrow>
            if branch_count \<le> 1 then (st, [env])
            else (st\<lparr>lifecycle_pending := Some (env_frame env, 1)\<rparr>, [])
      else if fm_id (env_meta env) \<in> seen_ids st then (st, [])
      else let st' = st\<lparr>seen_ids := insert (fm_id (env_meta env)) (seen_ids st)\<rparr>
           in if lifecycle_pending st \<noteq> None then (st'\<lparr>fi_buffer := fi_buffer st' @ [env]\<rparr>, [])
              else (st', [env]))"

definition fan_in_step :: "processor_tx option \<Rightarrow> nat \<Rightarrow> ('j fan_in_state, 'j) relay_step" where
  "fan_in_step nxt branch_count st env =
     (let (st', es) = fan_in_emit branch_count st env
      in (st', concat (map (forward_one nxt) es), Continue))"

definition fan_in ::
  "'j rx \<Rightarrow> processor_tx option \<Rightarrow> nat \<Rightarrow> 'j fan_in_state \<times> 'j rx \<times> 'j eff list \<times> task_status" where
  "fan_in r nxt branch_count = recv_loop (fan_in_step nxt branch_count) fan_in_init r"

section \<open>The loop on a list of arrivals\<close>

fun relay_list :: "('s, 'j) relay_step \<Rightarrow> 's \<Rightarrow> 'j envelope list \<Rightarrow> 's \<times> 'j eff list \<times> 'j envelope list \<times> flow" where
  "relay_list step s [] = (s, [], [], Continue)"
| "relay_list step s (x # xs) =
     (case step s x of
        (s', e, Break) \<Rightarrow> (s', e, xs, Break)
      | (s', e, Continue) \<Rightarrow>
          (case relay_list step s' xs of (s'', e', rest, fl) \<Rightarrow> (s'', e @ e', rest, fl)))"

text \<open>What is queued in a receive half, in the order the biased loop reads it.\<close>

definition rx_frames :: "'j rx \<Rightarrow> 'j envelope list" where
  "rx_frames r = rx_system r @ rx_normal r"

lemma rx_recv_Got_frames: "rx_recv r = Got e r1 \<Longrightarrow> rx_frames r = e # rx_frames r1 \<and> rx_open r1 = rx_open r"
  by (auto simp: rx_recv_def rx_frames_def split: list.splits if_splits)

lemma rx_recv_frames_Nil: "rx_frames r = [] \<longleftrightarrow> rx_recv r = Pending \<or> rx_recv r = Closed"
  by (auto simp: rx_recv_def rx_frames_def split: list.splits)

lemma recv_loop_list:
  "recv_loop step s r = (s', r', out, st) \<Longrightarrow>
     \<exists>fl. relay_list step s (rx_frames r) = (s', out, rx_frames r', fl) \<and> rx_open r' = rx_open r \<and>
          (st = Finished \<longleftrightarrow> fl = Break \<or> \<not> rx_open r)"
proof (induction step s r arbitrary: s' r' out st rule: recv_loop.induct)
  case (1 step s r)
  show ?case
  proof (cases "rx_recv r")
    case (Got env r1)
    obtain s1 e1 fl1 where st: "step s env = (s1, e1, fl1)" by (cases "step s env")
    show ?thesis
    proof (cases fl1)
      case Break
      then show ?thesis
        using "1.prems" Got st rx_recv_Got_frames [OF Got]
        by (subst (asm) recv_loop.simps) auto
    next
      case Continue
      obtain s2 r2 e2 st2 where rec: "recv_loop step s1 r1 = (s2, r2, e2, st2)"
        by (cases "recv_loop step s1 r1")
      from "1.IH" [OF Got st [symmetric] refl Continue rec] obtain fl2 where
        "relay_list step s1 (rx_frames r1) = (s2, e2, rx_frames r2, fl2)" "rx_open r2 = rx_open r1"
        "(st2 = Finished) = (fl2 = Break \<or> \<not> rx_open r1)" by blast
      then show ?thesis
        using "1.prems" Got st Continue rec rx_recv_Got_frames [OF Got]
        by (subst (asm) recv_loop.simps) auto
    qed
  next
    case Pending
    then have "rx_frames r = []" "rx_open r"
      using rx_recv_frames_Nil [of r] by (auto simp: rx_recv_def split: list.splits if_splits)
    then show ?thesis using "1.prems" Pending by (subst (asm) recv_loop.simps) auto
  next
    case Closed
    then have "rx_frames r = []" "\<not> rx_open r"
      using rx_recv_frames_Nil [of r] by (auto simp: rx_recv_def split: list.splits if_splits)
    then show ?thesis using "1.prems" Closed by (subst (asm) recv_loop.simps) auto
  qed
qed

lemma relay_list_append:
  "relay_list step s xs = (s1, e1, [], Continue) \<Longrightarrow>
     relay_list step s (xs @ ys) =
       (case relay_list step s1 ys of (s2, e2, rest, fl) \<Rightarrow> (s2, e1 @ e2, rest, fl))"
  by (induction xs arbitrary: s e1) (auto split: prod.splits flow.splits)

section \<open>The contracts of a relay\<close>

text \<open>The envelopes a list of effects sends.\<close>

definition sent :: "'j eff list \<Rightarrow> 'j envelope set" where
  "sent es = {e. \<exists>tx. Send tx e \<in> set es}"

lemma sent_simps [simp]:
  "sent [] = {}" "sent (Send tx e # es) = insert e (sent es)" "sent (xs @ ys) = sent xs \<union> sent ys"
  by (auto simp: sent_def)

lemma sent_forward_one [simp]: "sent (forward_one d e) = (if d = None then {} else {e})"
  by (auto simp: forward_one_def sent_def split: option.splits)

lemma sent_concat_forward: "sent (concat (map (forward_one d) es)) \<subseteq> set es"
  by (induction es) auto

locale frame_relay =
  fixes step :: "('s, 'j) relay_step"
    and held :: "'s \<Rightarrow> 'j envelope set"
  assumes step_sends: "step s e = (s', out, fl) \<Longrightarrow> sent out \<union> held s' \<subseteq> insert e (held s)"
begin

lemma relay_list_sends:
  "relay_list step s xs = (s', out, rest, fl) \<Longrightarrow> sent out \<union> held s' \<subseteq> held s \<union> set xs"
proof (induction xs arbitrary: s out)
  case Nil
  then show ?case by simp
next
  case (Cons x xs)
  obtain s1 e1 fl1 where st: "step s x = (s1, e1, fl1)" by (cases "step s x")
  from step_sends [OF st] show ?case
    using Cons.prems st Cons.IH [of s1] by (cases fl1) (fastforce split: prod.splits)+
qed

lemma no_invention:
  assumes "recv_loop step s r = (s', r', out, st)"
  shows "sent out \<union> held s' \<subseteq> held s \<union> set (rx_frames r)"
  using recv_loop_list [OF assms] relay_list_sends by blast

end

text \<open>The prefix of a list up to and including the first element that satisfies a
  predicate.\<close>

fun take_until :: "('a \<Rightarrow> bool) \<Rightarrow> 'a list \<Rightarrow> 'a list" where
  "take_until P [] = []"
| "take_until P (x # xs) = (if P x then [x] else x # take_until P xs)"

lemma take_until_all: "\<forall>x \<in> set xs. \<not> P x \<Longrightarrow> take_until P xs = xs"
  by (induction xs) auto

lemma take_until_append: "\<forall>x \<in> set xs. \<not> P x \<Longrightarrow> take_until P (xs @ ys) = xs @ take_until P ys"
  by (induction xs) auto

locale copy_relay =
  fixes cstep :: "(unit, 'j) relay_step"
    and dests :: "processor_tx list"
    and stops :: "'j envelope \<Rightarrow> bool"
  assumes cstep: "cstep u e = (u, map (\<lambda>d. Send d e) dests, if stops e then Break else Continue)"
begin

lemma relay_list_copies:
  "relay_list cstep u xs =
     (u, concat (map (\<lambda>e. map (\<lambda>d. Send d e) dests) (take_until stops xs)),
      drop (length (take_until stops xs)) xs, if \<exists>x \<in> set xs. stops x then Break else Continue)"
  by (induction xs) (auto simp: cstep)

lemma copies:
  assumes "recv_loop cstep u r = (u', r', out, st)"
  shows "out = concat (map (\<lambda>e. map (\<lambda>d. Send d e) dests) (take_until stops (rx_frames r)))"
    and "rx_frames r = take_until stops (rx_frames r) @ rx_frames r'"
    and "st = Finished \<longleftrightarrow> (\<exists>e \<in> set (rx_frames r). stops e) \<or> \<not> rx_open r"
proof -
  have pre: "take_until stops xs @ drop (length (take_until stops xs)) xs = xs" for xs
    by (induction xs) auto
  from recv_loop_list [OF assms] obtain fl where fl:
    "relay_list cstep u (rx_frames r) = (u', out, rx_frames r', fl)"
    "(st = Finished) = (fl = Break \<or> \<not> rx_open r)" by blast
  then show "out = concat (map (\<lambda>e. map (\<lambda>d. Send d e) dests) (take_until stops (rx_frames r)))"
    and "st = Finished \<longleftrightarrow> (\<exists>e \<in> set (rx_frames r). stops e) \<or> \<not> rx_open r"
    unfolding relay_list_copies by (auto split: if_splits)
  show "rx_frames r = take_until stops (rx_frames r) @ rx_frames r'"
    using fl(1) pre [of "rx_frames r"] unfolding relay_list_copies by auto
qed

end

sublocale copy_relay \<subseteq> relay: frame_relay cstep "\<lambda>_. {}"
proof
  fix s :: unit and e s' out fl
  assume "cstep s e = (s', out, fl)"
  then show "sent out \<union> {} \<subseteq> insert e {}"
    by (auto simp: cstep sent_def)
qed

interpretation bridge: copy_relay "bridge_step dst" "[dst]" "\<lambda>e. is_terminal (env_frame e)"
  for dst
  by unfold_locales (simp add: bridge_step_def)

interpretation fan_out: copy_relay "fan_out_step heads" heads "\<lambda>e. is_terminal (env_frame e)"
  for heads
  by unfold_locales (simp add: fan_out_step_def)

interpretation forward: copy_relay "forward_step dst" "case dst of None \<Rightarrow> [] | Some d \<Rightarrow> [d]" "\<lambda>_. False"
  for dst
  by unfold_locales (simp add: forward_step_def forward_one_def split: option.split)

lemma fan_in_emit_sends:
  "fan_in_emit n st e = (st', es) \<Longrightarrow> set es \<union> set (fi_buffer st') \<subseteq> insert e (set (fi_buffer st))"
  by (auto simp: fan_in_emit_def Let_def split: if_splits option.splits)

interpretation fan_in: frame_relay "fan_in_step nxt n" "\<lambda>st. set (fi_buffer st)" for nxt n
proof
  fix s :: "'j fan_in_state" and e s' out fl
  assume "fan_in_step nxt n s e = (s', out, fl)"
  then obtain es where "fan_in_emit n s e = (s', es)" "out = concat (map (forward_one nxt) es)"
    by (auto simp: fan_in_step_def split: prod.splits)
  then show "sent out \<union> set (fi_buffer s') \<subseteq> insert e (set (fi_buffer s))"
    using fan_in_emit_sends [of n s e s' es] sent_concat_forward [of nxt es] by auto
qed

section \<open>The fan-in on a sequence of arrivals\<close>

fun fan_in_run :: "nat \<Rightarrow> 'j fan_in_state \<Rightarrow> 'j envelope list \<Rightarrow> 'j fan_in_state \<times> 'j envelope list" where
  "fan_in_run n st [] = (st, [])"
| "fan_in_run n st (x # xs) =
     (let (st1, es) = fan_in_emit n st x; (st2, es') = fan_in_run n st1 xs in (st2, es @ es'))"

lemma fan_in_run_append:
  "fan_in_run n st (xs @ ys) =
     (let (st1, es) = fan_in_run n st xs; (st2, es') = fan_in_run n st1 ys in (st2, es @ es'))"
  by (induction xs arbitrary: st) (auto simp: Let_def split: prod.splits)

lemma relay_list_fan_in:
  "relay_list (fan_in_step nxt n) st xs =
     (fst (fan_in_run n st xs), concat (map (forward_one nxt) (snd (fan_in_run n st xs))), [], Continue)"
  by (induction xs arbitrary: st) (auto simp: fan_in_step_def Let_def split: prod.splits)

lemma fan_in_eq_run:
  assumes "fan_in r nxt n = (st', r', out, ts)"
  shows "st' = fst (fan_in_run n fan_in_init (rx_frames r))"
    and "out = concat (map (forward_one nxt) (snd (fan_in_run n fan_in_init (rx_frames r))))"
    and "rx_frames r' = []"
  using recv_loop_list [OF assms [unfolded fan_in_def]] by (auto simp: relay_list_fan_in)

lemma concat_forward_Some [simp]: "concat (map (forward_one (Some tx)) es) = map (Send tx) es"
  by (induction es) (simp_all add: forward_one_def)

abbreviation plain :: "'j envelope \<Rightarrow> bool" where
  "plain e \<equiv> \<not> is_synced_lifecycle (env_frame e)"

text \<open>First occurrences by frame id.\<close>

fun first_by_id :: "u64 set \<Rightarrow> 'j envelope list \<Rightarrow> 'j envelope list" where
  "first_by_id seen [] = []"
| "first_by_id seen (x # xs) =
     (if fm_id (env_meta x) \<in> seen then first_by_id seen xs
      else x # first_by_id (insert (fm_id (env_meta x)) seen) xs)"

lemma first_by_id_snoc:
  "first_by_id seen (xs @ [x]) = first_by_id seen xs @
     (if fm_id (env_meta x) \<in> seen \<union> (\<lambda>e. fm_id (env_meta e)) ` set xs then [] else [x])"
  by (induction xs arbitrary: seen) auto

lemma first_by_id_ids:
  "distinct (map (\<lambda>e. fm_id (env_meta e)) (first_by_id seen xs)) \<and>
   (\<lambda>e. fm_id (env_meta e)) ` set (first_by_id seen xs) = (\<lambda>e. fm_id (env_meta e)) ` set xs - seen"
  by (induction xs arbitrary: seen) auto

text \<open>The invariant: frames wait in the buffer only while a lifecycle frame is pending, and the
  plain frames forwarded or waiting are the first occurrences of those that arrived.\<close>

definition fan_in_inv :: "'j envelope list \<Rightarrow> 'j fan_in_state \<Rightarrow> 'j envelope list \<Rightarrow> bool" where
  "fan_in_inv xs st out \<longleftrightarrow>
     (lifecycle_pending st = None \<longrightarrow> fi_buffer st = []) \<and>
     seen_ids st = (\<lambda>e. fm_id (env_meta e)) ` set (filter plain xs) \<and>
     filter plain (out @ fi_buffer st) = first_by_id {} (filter plain xs)"

lemma fan_in_inv_init: "fan_in_inv [] fan_in_init []"
  by (simp add: fan_in_inv_def fan_in_init_def)

lemma fan_in_inv_step:
  assumes "fan_in_inv xs st out" and "fan_in_emit n st x = (st', es)"
  shows "fan_in_inv (xs @ [x]) st' (out @ es)"
  using assms
  by (auto simp: fan_in_inv_def fan_in_emit_def Let_def first_by_id_snoc split: if_splits option.splits)

lemma fan_in_run_inv:
  "fan_in_inv xs (fst (fan_in_run n fan_in_init xs)) (snd (fan_in_run n fan_in_init xs))"
proof (induction xs rule: rev_induct)
  case Nil
  then show ?case by (simp add: fan_in_inv_init)
next
  case (snoc x xs)
  obtain st' es where "fan_in_emit n (fst (fan_in_run n fan_in_init xs)) x = (st', es)"
    by (cases "fan_in_emit n (fst (fan_in_run n fan_in_init xs)) x")
  with fan_in_inv_step [OF snoc this] show ?case
    by (auto simp: fan_in_run_append Let_def split: prod.splits)
qed

text \<open>Lifecycle counting for one kind of lifecycle frame.\<close>

abbreviation synced :: "'j envelope \<Rightarrow> bool" where
  "synced e \<equiv> is_synced_lifecycle (env_frame e)"

lemma same_lifecycle_iff:
  "same_lifecycle a b \<longleftrightarrow>
     (\<exists>p q. a = Start p \<and> b = Start q) \<or> (\<exists>p q. a = End p \<and> b = End q) \<or>
     (\<exists>p q. a = Cancel p \<and> b = Cancel q)"
  by (cases a) (simp_all add: same_lifecycle_def split: frame.split)

lemma same_lifecycle_trans:
  "same_lifecycle a b \<Longrightarrow> same_lifecycle a c \<Longrightarrow> same_lifecycle b c"
  by (auto simp: same_lifecycle_iff)

definition sync_inv :: "'j frame \<Rightarrow> nat \<Rightarrow> 'j envelope list \<Rightarrow> 'j fan_in_state \<Rightarrow> 'j envelope list \<Rightarrow> bool" where
  "sync_inv f n xs st out \<longleftrightarrow>
     (\<forall>e \<in> set (fi_buffer st). plain e) \<and>
     (case lifecycle_pending st of
        None \<Rightarrow> length (filter synced xs) = n * length (filter synced out)
      | Some (g, c) \<Rightarrow>
          same_lifecycle f g \<and> 0 < c \<and> c < n \<and>
          length (filter synced xs) = n * length (filter synced out) + c)"

lemma filter_synced_plain: "\<forall>e \<in> set xs. plain e \<Longrightarrow> filter synced xs = []"
  by (simp add: filter_empty_conv)

lemma sync_inv_step:
  assumes inv: "sync_inv f n xs st out" and e: "fan_in_emit n st x = (st', es)"
    and f: "synced x \<longrightarrow> same_lifecycle f (env_frame x)" and n: "0 < n"
  shows "sync_inv f n (xs @ [x]) st' (out @ es)"
proof (cases "synced x")
  case False
  with inv e show ?thesis
    by (auto simp: sync_inv_def fan_in_emit_def Let_def split: if_splits option.splits)
next
  case True
  show ?thesis
  proof (cases "lifecycle_pending st")
    case None
    with True inv e f n show ?thesis
      by (auto simp: sync_inv_def fan_in_emit_def split: if_splits)
  next
    case (Some gc)
    then obtain g c where p: "lifecycle_pending st = Some (g, c)" by (cases gc) auto
    with inv have c: "same_lifecycle f g" "0 < c" "c < n"
      "length (filter synced xs) = n * length (filter synced out) + c"
      and b: "\<forall>e \<in> set (fi_buffer st). plain e" by (auto simp: sync_inv_def)
    have "same_lifecycle g (env_frame x)" using c(1) f True same_lifecycle_trans by blast
    then show ?thesis
      using True e p c b filter_synced_plain [OF b]
      by (auto simp: sync_inv_def fan_in_emit_def split: if_splits)
  qed
qed

lemma sync_inv_run:
  assumes "\<forall>x \<in> set xs. synced x \<longrightarrow> same_lifecycle f (env_frame x)" and "0 < n"
  shows "sync_inv f n xs (fst (fan_in_run n fan_in_init xs)) (snd (fan_in_run n fan_in_init xs))"
  using assms(1)
proof (induction xs rule: rev_induct)
  case Nil
  then show ?case by (simp add: sync_inv_def fan_in_init_def)
next
  case (snoc x xs)
  obtain st' es where e: "fan_in_emit n (fst (fan_in_run n fan_in_init xs)) x = (st', es)"
    by (cases "fan_in_emit n (fst (fan_in_run n fan_in_init xs)) x")
  have "sync_inv f n xs (fst (fan_in_run n fan_in_init xs)) (snd (fan_in_run n fan_in_init xs))"
    using snoc by simp
  from sync_inv_step [OF this e _ assms(2)] snoc.prems e show ?case
    by (auto simp: fan_in_run_append Let_def split: prod.splits)
qed

lemma sync_inv_div:
  assumes "sync_inv f n xs st out" and "0 < n"
  shows "length (filter synced out) = length (filter synced xs) div n"
  using assms by (auto simp: sync_inv_def split: option.splits prod.splits)

lemma sync_inv_idle:
  assumes "sync_inv f n xs st out" and "n dvd length (filter synced xs)"
  shows "lifecycle_pending st = None"
proof (cases "lifecycle_pending st")
  case (Some gc)
  with assms(1) have "0 < snd gc" "snd gc < n" "length (filter synced xs) = n * length (filter synced out) + snd gc"
    by (auto simp: sync_inv_def split: prod.splits)
  with assms(2) show ?thesis by (metis dvd_add_right_iff dvd_triv_left nat_dvd_not_less)
qed

section \<open>Properties\<close>

definition ex_arrival :: "u64 \<Rightarrow> unit frame \<Rightarrow> unit envelope" where
  "ex_arrival i f = fst (envelope_new i f Downstream)"

lemma ex_arrival_simps [simp]:
  "env_frame (ex_arrival i f) = f" "env_direction (ex_arrival i f) = Downstream"
  "fm_id (env_meta (ex_arrival i f)) = i"
  by (simp_all add: ex_arrival_def envelope_new_def frame_meta_new_def next_frame_id_def)

text \<open>C6. The fan-in de-duplicates, keeps order and releases what it holds back. Whatever order the branches' frames
  arrive in, the non-lifecycle frames it has forwarded, followed by those it still buffers, are exactly the first
  occurrences by frame id of those that arrived, in arrival order; nothing waits unless a lifecycle frame is pending. As long as one kind of lifecycle frame is in flight, one of every \<open>n\<close> copies is
  forwarded, and once all \<open>n\<close> branches have passed theirs every first occurrence has been forwarded. (What waits when
  the channels close before that is not sent.)\<close>

theorem fan_in_dedups_in_order:
  assumes "fan_in r (Some tx) n = (st, r', out, ts)" and "0 < n"
  shows "\<exists>es. out = map (Send tx) es \<and>
    filter plain (es @ fi_buffer st) = first_by_id {} (filter plain (rx_frames r)) \<and>
    distinct (map (\<lambda>e. fm_id (env_meta e)) (filter plain (es @ fi_buffer st))) \<and>
    (lifecycle_pending st = None \<longrightarrow> fi_buffer st = []) \<and>
    (\<forall>f. (\<forall>e \<in> set (rx_frames r). synced e \<longrightarrow> same_lifecycle f (env_frame e)) \<longrightarrow>
       length (filter synced es) = length (filter synced (rx_frames r)) div n \<and>
       (n dvd length (filter synced (rx_frames r)) \<longrightarrow>
          lifecycle_pending st = None \<and> filter plain es = first_by_id {} (filter plain (rx_frames r))))"
proof -
  let ?es = "snd (fan_in_run n fan_in_init (rx_frames r))"
  have inv: "fan_in_inv (rx_frames r) st ?es"
    using fan_in_run_inv [of "rx_frames r" n] fan_in_eq_run(1) [OF assms(1)] by simp
  have out: "out = map (Send tx) ?es"
    using fan_in_eq_run(2) [OF assms(1)] by simp
  have sync: "length (filter synced ?es) = length (filter synced (rx_frames r)) div n \<and>
      (n dvd length (filter synced (rx_frames r)) \<longrightarrow>
         lifecycle_pending st = None \<and> filter plain ?es = first_by_id {} (filter plain (rx_frames r)))"
    if "\<forall>e \<in> set (rx_frames r). synced e \<longrightarrow> same_lifecycle f (env_frame e)" for f
  proof -
    have si: "sync_inv f n (rx_frames r) st ?es"
      using sync_inv_run [OF that assms(2)] fan_in_eq_run(1) [OF assms(1)] by simp
    show ?thesis
      using sync_inv_div [OF si assms(2)] sync_inv_idle [OF si] inv by (auto simp: fan_in_inv_def)
  qed
  show ?thesis
    using first_by_id_ids [of "{}" "filter plain (rx_frames r)"] inv sync
    by (intro exI [of _ ?es] conjI allI impI out) (simp_all add: fan_in_inv_def del: filter_append)
qed

definition ex_fan_in :: "unit rx" where
  "ex_fan_in = \<lparr>rx_system = [], rx_normal = [ex_arrival 1 (Text [97]), ex_arrival 3 (End None), ex_arrival 1 (Text [97]),
     ex_arrival 2 (Text [98]), ex_arrival 4 (End None)], rx_open = True\<rparr>"

theorem fan_in_dedups_in_order_witness:
  "\<exists>es. fst (snd (snd (fan_in ex_fan_in (Some \<lparr>tx_chan = 5, tx_name = ''n''\<rparr>) 2))) = map (Send \<lparr>tx_chan = 5, tx_name = ''n''\<rparr>) es \<and>
     filter plain es = [ex_arrival 1 (Text [97]), ex_arrival 2 (Text [98])] \<and> length (filter synced es) = 1"
proof -
  let ?tx = "\<lparr>tx_chan = 5, tx_name = ''n''\<rparr>"
  obtain st r' out ts where f: "fan_in ex_fan_in (Some ?tx) 2 = (st, r', out, ts)"
    by (cases "fan_in ex_fan_in (Some ?tx) 2")
  have k: "\<forall>e \<in> set (rx_frames ex_fan_in). synced e \<longrightarrow> same_lifecycle (End None) (env_frame e)"
    by (simp add: rx_frames_def ex_fan_in_def same_lifecycle_iff)
  obtain es where "out = map (Send ?tx) es" "length (filter synced es) = length (filter synced (rx_frames ex_fan_in)) div 2"
    "2 dvd length (filter synced (rx_frames ex_fan_in)) \<longrightarrow> filter plain es = first_by_id {} (filter plain (rx_frames ex_fan_in))"
    using fan_in_dedups_in_order [OF f] k by fastforce
  then show ?thesis
    unfolding f by (intro exI [of _ es]) (simp add: rx_frames_def ex_fan_in_def)
qed

text \<open>Lifecycle synchronisation: as long as only one kind of lifecycle frame (\<open>Start\<close>,
  \<open>End\<close> or \<open>Cancel\<close>) is in flight, the fan-in of \<open>n\<close> branches forwards exactly
  one of every \<open>n\<close> copies, so none leaves before every branch passed it.\<close>

lemma fan_in_syncs_lifecycle:
  assumes "fan_in r (Some tx) n = (st, r', out, ts)" and "0 < n"
    and "\<forall>e \<in> set (rx_frames r). synced e \<longrightarrow> same_lifecycle f (env_frame e)"
  shows "\<exists>es. out = map (Send tx) es \<and>
    length (filter synced es) = length (filter synced (rx_frames r)) div n"
  using sync_inv_div [OF sync_inv_run [OF assms(3,2)] assms(2)] fan_in_eq_run(2) [OF assms(1)]
  by auto

lemma fan_in_run_buffering:
  assumes "lifecycle_pending st = Some p" and "\<forall>e \<in> set q. plain e"
    and "distinct (map (\<lambda>e. fm_id (env_meta e)) q)"
    and "(\<lambda>e. fm_id (env_meta e)) ` set q \<inter> seen_ids st = {}"
  shows "fan_in_run n st q =
    (st\<lparr>seen_ids := seen_ids st \<union> (\<lambda>e. fm_id (env_meta e)) ` set q, fi_buffer := fi_buffer st @ q\<rparr>, [])"
  using assms
proof (induction q arbitrary: st)
  case (Cons x q)
  let ?st = "st\<lparr>seen_ids := insert (fm_id (env_meta x)) (seen_ids st), fi_buffer := fi_buffer st @ [x]\<rparr>"
  have "fan_in_emit n st x = (?st, [])"
    using Cons.prems by (auto simp: fan_in_emit_def)
  moreover have "fan_in_run n ?st q =
      (?st\<lparr>seen_ids := seen_ids ?st \<union> (\<lambda>e. fm_id (env_meta e)) ` set q, fi_buffer := fi_buffer ?st @ q\<rparr>, [])"
    using Cons.prems by (intro Cons.IH) auto
  ultimately show ?case by (simp add: insert_commute Un_commute)
qed simp

text \<open>On the last branch's \<open>End\<close> the fan-in forwards the \<open>End\<close> first and
  flushes its buffer behind it: with two branches, everything the slower branch produced between
  the two \<open>End\<close>s leaves after the \<open>End\<close>.\<close>

lemma fan_in_end_overtakes_buffer:
  assumes "env_frame a = End ra" and "env_frame b = End rb" and "\<forall>e \<in> set q. plain e"
    and "distinct (map (\<lambda>e. fm_id (env_meta e)) q)"
    and "rx_frames r = a # q @ [b]"
  shows "fst (snd (snd (fan_in r (Some tx) 2))) = map (Send tx) (b # q)"
proof -
  let ?st = "fan_in_init\<lparr>lifecycle_pending := Some (End ra, Suc 0)\<rparr>"
  have 1: "fan_in_emit 2 fan_in_init a = (?st, [])"
    using assms(1) by (simp add: fan_in_emit_def fan_in_init_def)
  have 2: "fan_in_run 2 ?st q = (?st\<lparr>seen_ids := (\<lambda>e. fm_id (env_meta e)) ` set q, fi_buffer := q\<rparr>, [])"
    using fan_in_run_buffering [of ?st "(End ra, Suc 0)" q 2] assms(3,4) by (simp add: fan_in_init_def)
  have "snd (fan_in_emit 2 (?st\<lparr>seen_ids := (\<lambda>e. fm_id (env_meta e)) ` set q, fi_buffer := q\<rparr>) b) = b # q"
    using assms(2) by (simp add: fan_in_emit_def same_lifecycle_def)
  then have 3: "snd (fan_in_run 2 fan_in_init (a # q @ [b])) = b # q"
    by (simp add: 1 2 fan_in_run_append split: prod.splits)
  obtain st r' out ts where f: "fan_in r (Some tx) 2 = (st, r', out, ts)"
    by (cases "fan_in r (Some tx) 2")
  show ?thesis using fan_in_eq_run(2) [OF f, unfolded assms(5) 3 concat_forward_Some] by (simp add: f)
qed

text \<open>The fan-out copies every frame up to and including the first terminal one to every
  branch head, in order, and then ends its task with the rest unread.\<close>

lemma fan_out_reaches_every_branch:
  assumes "rx_frames r = q @ t # rest" and "\<forall>e \<in> set q. \<not> is_terminal (env_frame e)"
    and "is_terminal (env_frame t)"
  shows "\<exists>r'. fan_out r heads =
      ((), r', concat (map (\<lambda>e. map (\<lambda>h. Send h e) heads) (q @ [t])), Finished) \<and>
      rx_frames r' = rest"
proof -
  obtain u r' out st where f: "fan_out r heads = (u, r', out, st)" by (cases "fan_out r heads")
  let ?P = "\<lambda>e. is_terminal (env_frame e)"
  have tu: "take_until ?P (rx_frames r) = q @ [t]"
    using assms by (simp add: take_until_append)
  from fan_out.copies [OF f [unfolded fan_out_def], unfolded tu] assms(1,3) f show ?thesis
    by auto
qed

end
