(* ===== verification/Pipeline_Link.thy ===== *)
theory Pipeline_Link
  imports Frame_Relays "HOL-Library.Multiset"
begin

text \<open>
  The linker of \<^verbatim>\<open>flowcat-core/src/pipeline/mod.rs\<close> and
  \<^verbatim>\<open>parallel.rs\<close>: topologies, \<open>into_topology\<close>,
  \<open>link_topology\<close> / \<open>link_chain\<close> / \<open>link_parallel\<close>, and the internal
  processors \<open>PassThrough\<close>, \<open>Source\<close> and \<open>Sink\<close>.

  Linking returns the tasks it spawns, in spawn order, with the channels they own. A channel
  is its number; \<open>channel()\<close> takes the next number of a counter that is threaded
  through. A user processor is a record of hooks with its initial state; the three internal
  processors have no state.
\<close>

section \<open>The internal processors\<close>

definition pass_through :: "(unit, 'j) processor" where
  "pass_through = default_processor ''PassThrough''"

definition source_process ::
  "link \<Rightarrow> unit \<Rightarrow> 'j envelope \<Rightarrow> u64 \<Rightarrow> unit \<times> 'j eff list \<times> u64 \<times> ustr option" where
  "source_process l s env n =
     (if env_direction env = Upstream \<and> is_terminal (env_frame env)
      then (let (e, n') = push_down l n (env_frame env) in (s, e, n', None))
      else (s, push_env l env, n, None))"

definition source :: "(unit, 'j) processor" where
  "source = (default_processor ''Source'')\<lparr>p_process := source_process\<rparr>"

definition sink_start :: "unit \<Rightarrow> start_params \<Rightarrow> (unit, 'j) hook_result" where
  "sink_start s params = (s, [Tap (Start params)], None)"

definition sink_stop :: "unit \<Rightarrow> stop_reason \<Rightarrow> (unit, 'j) hook_result" where
  "sink_stop s reason =
     (s, [Tap (case reason of EndOfTask \<Rightarrow> End None | Stopped \<Rightarrow> Stop | Cancelled \<Rightarrow> Cancel None)], None)"

definition sink_process ::
  "link \<Rightarrow> unit \<Rightarrow> 'j envelope \<Rightarrow> u64 \<Rightarrow> unit \<times> 'j eff list \<times> u64 \<times> ustr option" where
  "sink_process l s env n =
     (s, (if env_direction env = Downstream then [Tap (env_frame env)] else []) @ push_env l env, n, None)"

definition sink :: "(unit, 'j) processor" where
  "sink = (default_processor ''Sink'')
     \<lparr>p_start := sink_start, p_process := sink_process, p_stop := sink_stop\<rparr>"

section \<open>Topologies\<close>

datatype (plugins only: code size) ('s, 'j) leaf =
  LUser "('s, 'j) processor" 's | LPassThrough | LSource | LSink

definition leaf_name :: "('s, 'j) leaf \<Rightarrow> string" where
  "leaf_name p =
     (case p of LUser q _ \<Rightarrow> p_name q | LPassThrough \<Rightarrow> ''PassThrough'' | LSource \<Rightarrow> ''Source''
      | LSink \<Rightarrow> ''Sink'')"

datatype (plugins only: code size) ('s, 'j) topology =
  Leaf "('s, 'j) leaf" | Chain "('s, 'j) topology list" | Parallel "('s, 'j) topology list"

text \<open>Boxed processors: a leaf, a \<open>Pipeline\<close> or a \<open>ParallelPipeline\<close> over
  pipelines. \<open>into_topology\<close> explodes the composites.\<close>

datatype (plugins only: code size) ('s, 'j) boxed =
  BLeaf "('s, 'j) leaf" | BPipeline "('s, 'j) boxed list" | BParallel "('s, 'j) boxed list list"

fun into_topology :: "('s, 'j) boxed \<Rightarrow> ('s, 'j) topology" where
  "into_topology (BLeaf p) = Leaf p"
| "into_topology (BPipeline ps) = Chain (map into_topology ps)"
| "into_topology (BParallel bs) = Parallel (map (\<lambda>b. Chain (map into_topology b)) bs)"

section \<open>Linking\<close>

record processor_setup =
  su_observer :: bool
  su_enable_metrics :: bool
  su_enable_usage_metrics :: bool

definition make_link :: "string \<Rightarrow> processor_tx option \<Rightarrow> processor_tx option \<Rightarrow> processor_setup \<Rightarrow> link" where
  "make_link nm nxt prv su =
     \<lparr>l_next = nxt, l_prev = prv, l_name = nm, l_observer = su_observer su,
      enable_metrics = su_enable_metrics su, enable_usage_metrics = su_enable_usage_metrics su,
      ttfb_start = 0, processing_start = 0\<rparr>"

datatype (plugins only: code size) ('s, 'j) task =
    TProc "('s, 'j) leaf" link nat
  | TBridge nat processor_tx
  | TFanOut nat "processor_tx list"
  | TFanIn nat "processor_tx option" nat
  | TForward nat "processor_tx option"

record linked =
  lk_head :: processor_tx
  lk_tail :: processor_tx

definition channel_tx :: "string \<Rightarrow> nat \<Rightarrow> processor_tx" where
  "channel_tx nm c = \<lparr>tx_chan = c, tx_name = nm\<rparr>"

definition link_leaf ::
  "('s, 'j) leaf \<Rightarrow> processor_tx option \<Rightarrow> processor_tx option \<Rightarrow> processor_setup \<Rightarrow> nat \<Rightarrow>
     linked \<times> ('s, 'j) task list \<times> nat" where
  "link_leaf p prv nxt su c =
     (let tx = channel_tx (leaf_name p) c
      in (\<lparr>lk_head = tx, lk_tail = tx\<rparr>, [TProc p (make_link (leaf_name p) nxt prv su) c], Suc c))"

text \<open>The first pass of \<open>link_chain\<close>: one input channel per element.\<close>

fun chain_inputs :: "('s, 'j) topology list \<Rightarrow> nat \<Rightarrow> processor_tx list" where
  "chain_inputs [] c = []"
| "chain_inputs (e # es) c =
     channel_tx (case e of Leaf p \<Rightarrow> leaf_name p | _ \<Rightarrow> ''nested'') c # chain_inputs es (Suc c)"

definition head_opt :: "'a list \<Rightarrow> 'a option \<Rightarrow> 'a option" where
  "head_opt xs d = (case xs of [] \<Rightarrow> d | x # _ \<Rightarrow> Some x)"

text \<open>\<open>link_elems\<close> is the second pass of \<open>link_chain\<close> (its arguments are the
  remaining elements with their input channels and the previous element's input),
  \<open>link_branches\<close> the branch loop of \<open>link_parallel\<close>.\<close>

fun link_topology ::
  "('s, 'j) topology \<Rightarrow> processor_tx option \<Rightarrow> processor_tx option \<Rightarrow> processor_setup \<Rightarrow> nat \<Rightarrow>
     linked \<times> ('s, 'j) task list \<times> nat"
and link_elems ::
  "('s, 'j) topology list \<Rightarrow> processor_tx list \<Rightarrow> processor_tx option \<Rightarrow> processor_tx option \<Rightarrow>
     processor_setup \<Rightarrow> nat \<Rightarrow> ('s, 'j) task list \<times> nat"
and link_branches ::
  "('s, 'j) topology list \<Rightarrow> processor_tx \<Rightarrow> processor_tx \<Rightarrow> processor_setup \<Rightarrow> nat \<Rightarrow>
     processor_tx list \<times> ('s, 'j) task list \<times> nat"
where
  "link_topology (Leaf p) prv nxt su c = link_leaf p prv nxt su c"
| "link_topology (Chain elems) prv nxt su c =
     (if elems = [] then link_leaf LPassThrough prv nxt su c
      else let inputs = chain_inputs elems c;
               (ts, c') = link_elems elems inputs prv nxt su (c + length elems)
           in (\<lparr>lk_head = hd inputs, lk_tail = last inputs\<rparr>, ts, c'))"
| "link_topology (Parallel branches) prv nxt su c =
     (let branch_count = max (length branches) 1;
          head = channel_tx ''ParallelIn'' c;
          tail = channel_tx ''ParallelOut'' (c + 1);
          fanin = channel_tx ''ParallelFanIn'' (c + 2);
          upstream = channel_tx ''ParallelUpstream'' (c + 3);
          (heads, ts, c') = link_branches branches upstream fanin su (c + 4)
      in (\<lparr>lk_head = head, lk_tail = tail\<rparr>,
          ts @ [TFanOut c heads, TFanIn (c + 2) nxt branch_count, TForward (c + 3) prv,
                TForward (c + 1) None],
          c'))"
| "link_elems [] inputs prv nxt su c = ([], c)"
| "link_elems (e # es) inputs prv nxt su c =
     (let input = hd inputs;
          next_tx = head_opt (tl inputs) nxt;
          (ts, c1) =
            (case e of
               Leaf p \<Rightarrow> ([TProc p (make_link (leaf_name p) next_tx prv su) (tx_chan input)], c)
             | _ \<Rightarrow> (let (lk, ts, c1) = link_topology e prv next_tx su c
                     in (ts @ [TBridge (tx_chan input) (lk_head lk)], c1)));
          (ts', c2) = link_elems es (tl inputs) (Some input) nxt su c1
      in (ts @ ts', c2))"
| "link_branches [] upstream fanin su c = ([], [], c)"
| "link_branches (b # bs) upstream fanin su c =
     (let (lk, ts, c1) = link_topology b (Some upstream) (Some fanin) su c;
          (heads, ts', c2) = link_branches bs upstream fanin su c1
      in (lk_head lk # heads, ts @ ts', c2))"

text \<open>\<open>PipelineTask::run\<close> links the pipeline between \<open>Source\<close> and
  \<open>Sink\<close>.\<close>

definition wrapped :: "('s, 'j) topology \<Rightarrow> ('s, 'j) topology" where
  "wrapped topo = Chain [Leaf LSource, topo, Leaf LSink]"

section \<open>Lemmas on the linker\<close>

definition task_rx :: "('s, 'j) task \<Rightarrow> nat" where
  "task_rx t = (case t of TProc _ _ c \<Rightarrow> c | TBridge c _ \<Rightarrow> c | TFanOut c _ \<Rightarrow> c | TFanIn c _ _ \<Rightarrow> c
     | TForward c _ \<Rightarrow> c)"

definition opt_chan :: "processor_tx option \<Rightarrow> nat set" where
  "opt_chan o' = tx_chan ` set_option o'"

definition task_dests :: "('s, 'j) task \<Rightarrow> nat set" where
  "task_dests t =
     (case t of
        TProc _ l _ \<Rightarrow> opt_chan (l_next l) \<union> opt_chan (l_prev l)
      | TBridge _ tx \<Rightarrow> {tx_chan tx}
      | TFanOut _ txs \<Rightarrow> tx_chan ` set txs
      | TFanIn _ d _ \<Rightarrow> opt_chan d
      | TForward _ d \<Rightarrow> opt_chan d)"

lemma length_chain_inputs [simp]: "length (chain_inputs es c) = length es"
  by (induction es arbitrary: c) simp_all

lemma chain_inputs_chans: "map tx_chan (chain_inputs es c) = [c..<c + length es]"
proof (induction es arbitrary: c)
  case (Cons e es)
  have "[c..<c + length (e # es)] = c # [Suc c..<c + length (e # es)]"
    by (rule upt_conv_Cons) simp
  with Cons show ?case by (simp add: channel_tx_def)
qed simp

lemma task_rx_simps [simp]:
  "task_rx (TProc p l c) = c" "task_rx (TBridge c tx) = c" "task_rx (TFanOut c hs) = c"
  "task_rx (TFanIn c d n) = c" "task_rx (TForward c d) = c"
  by (simp_all add: task_rx_def)

lemma mset_upt_split: "a \<le> b \<Longrightarrow> b \<le> c \<Longrightarrow> mset [a..<c] = mset [a..<b] + mset [b..<c]"
  by (metis mset_append upt_add_eq_append le_iff_add)

text \<open>The channels a subgraph allocates are the interval between the two counter values, and
  each has exactly one reading task.\<close>

lemma link_readers:
  shows "link_topology t prv nxt su c = (lk, ts, c') \<Longrightarrow>
      c \<le> c' \<and> mset (map task_rx ts) = mset [c..<c']"
    and "link_elems es inputs prv nxt su c = (ts, c') \<Longrightarrow> length inputs = length es \<Longrightarrow>
      c \<le> c' \<and> mset (map task_rx ts) = mset (map tx_chan inputs) + mset [c..<c']"
    and "link_branches bs up fi su c = (heads, ts, c') \<Longrightarrow>
      c \<le> c' \<and> mset (map task_rx ts) = mset [c..<c']"
proof (induction t prv nxt su c and es inputs prv nxt su c and bs up fi su c
    arbitrary: lk ts c' and ts c' and heads ts c'
    rule: link_topology_link_elems_link_branches.induct)
  case (1 p prv nxt su c)
  then show ?case by (auto simp: link_leaf_def Let_def)
next
  case (2 elems prv nxt su c)
  show ?case
  proof (cases "elems = []")
    case True
    with "2.prems" show ?thesis by (auto simp: link_leaf_def Let_def)
  next
    case False
    obtain ts1 c1 where l: "link_elems elems (chain_inputs elems c) prv nxt su (c + length elems) = (ts1, c1)"
      by (cases "link_elems elems (chain_inputs elems c) prv nxt su (c + length elems)")
    from "2.IH" [OF False refl l] have
      "c + length elems \<le> c1" "mset (map task_rx ts1) = mset [c..<c + length elems] + mset [c + length elems..<c1]"
      by (simp_all add: chain_inputs_chans)
    moreover have "ts = ts1" "c' = c1" using "2.prems" False l by (simp_all add: Let_def)
    ultimately show ?thesis using mset_upt_split [of c "c + length elems" c1] by simp
  qed
next
  case (3 branches prv nxt su c)
  obtain hs ts1 c1 where l: "link_branches branches (channel_tx ''ParallelUpstream'' (c + 3))
      (channel_tx ''ParallelFanIn'' (c + 2)) su (c + 4) = (hs, ts1, c1)"
    by (cases "link_branches branches (channel_tx ''ParallelUpstream'' (c + 3))
      (channel_tx ''ParallelFanIn'' (c + 2)) su (c + 4)")
  from "3.IH" [OF refl refl refl refl refl l]
  have ih: "c + 4 \<le> c1" "mset (map task_rx ts1) = mset [c + 4..<c1]" by simp_all
  have "ts = ts1 @ [TFanOut c hs, TFanIn (c + 2) nxt (max (length branches) 1), TForward (c + 3) prv,
      TForward (c + 1) None]" "c' = c1"
    using "3.prems" l by (auto simp: Let_def)
  moreover have "mset [c..<c1] = {#c, c + 1, c + 2, c + 3#} + mset [c + 4..<c1]"
    using ih(1) mset_upt_split [of c "c + 4" c1] by (simp add: upt_rec numeral_eq_Suc)
  ultimately show ?case using ih by (simp add: ac_simps)
next
  case (4 inputs prv nxt su c)
  then show ?case by simp
next
  case (5 e es inputs prv nxt su c)
  from "5.prems" obtain i ins where inp: "inputs = i # ins" and len: "length ins = length es"
    by (cases inputs) auto
  obtain ts1 c1 where h: "(case e of
      Leaf p \<Rightarrow> ([TProc p (make_link (leaf_name p) (head_opt ins nxt) prv su) (tx_chan i)], c)
    | _ \<Rightarrow> (let (lk, ts, c1) = link_topology e prv (head_opt ins nxt) su c
            in (ts @ [TBridge (tx_chan i) (lk_head lk)], c1))) = (ts1, c1)"
    by fastforce
  obtain ts2 c2 where r: "link_elems es ins (Some i) nxt su c1 = (ts2, c2)"
    by (cases "link_elems es ins (Some i) nxt su c1")
  have ts: "ts = ts1 @ ts2" "c' = c2" using "5.prems"(1) h r by (simp_all add: inp Let_def)
  have ih2: "c1 \<le> c2" "mset (map task_rx ts2) = mset (map tx_chan ins) + mset [c1..<c2]"
    using "5.IH"(3) h r len by (auto simp: inp)
  have ih1: "c \<le> c1 \<and> mset (map task_rx ts1) = {#tx_chan i#} + mset [c..<c1]"
    using h "5.IH"(1,2)
    by (auto simp: inp simp del: link_topology.simps mset_upt split: topology.splits prod.splits)
  show ?case
    using ts ih1 ih2 mset_upt_split [of c c1 c2] by (simp add: inp ac_simps)
next
  case (6 up fi su c)
  then show ?case by simp
next
  case (7 b bs up fi su c)
  obtain lk1 ts1 c1 where h: "link_topology b (Some up) (Some fi) su c = (lk1, ts1, c1)"
    by (cases "link_topology b (Some up) (Some fi) su c")
  obtain hs2 ts2 c2 where r: "link_branches bs up fi su c1 = (hs2, ts2, c2)"
    by (cases "link_branches bs up fi su c1")
  from "7.IH"(1) [OF h] "7.IH"(2) [OF h [symmetric] refl refl r] "7.prems" h r show ?case
    using mset_upt_split [of c c1 c2] by auto
qed

text \<open>Every destination of a spawned task is a channel of the subgraph or one of the two
  neighbours it was given.\<close>

lemma opt_chan_simps [simp]: "opt_chan None = {}" "opt_chan (Some tx) = {tx_chan tx}"
  by (simp_all add: opt_chan_def)

lemma task_dests_simps [simp]:
  "task_dests (TProc p (make_link nm nxt prv su) c) = opt_chan nxt \<union> opt_chan prv"
  "task_dests (TBridge c tx) = {tx_chan tx}" "task_dests (TFanOut c hs) = tx_chan ` set hs"
  "task_dests (TFanIn c d n) = opt_chan d" "task_dests (TForward c d) = opt_chan d"
  by (simp_all add: task_dests_def make_link_def)

lemma head_opt_chan: "opt_chan (head_opt xs d) \<subseteq> tx_chan ` set xs \<union> opt_chan d"
  by (auto simp: head_opt_def split: list.splits)

definition dests :: "('s, 'j) task list \<Rightarrow> nat set" where
  "dests ts = (\<Union>t \<in> set ts. task_dests t)"

lemma dests_simps [simp]:
  "dests [] = {}" "dests (t # ts) = task_dests t \<union> dests ts" "dests (ts @ us) = dests ts \<union> dests us"
  by (auto simp: dests_def)

lemma link_leaf_dests:
  "link_leaf p prv nxt su c = (lk, ts, c') \<Longrightarrow>
     tx_chan (lk_head lk) = c \<and> tx_chan (lk_tail lk) = c \<and> c' = Suc c \<and>
     dests ts \<subseteq> opt_chan prv \<union> opt_chan nxt"
  by (auto simp: link_leaf_def Let_def channel_tx_def)

lemma link_dests:
  shows "link_topology t prv nxt su c = (lk, ts, c') \<Longrightarrow>
      tx_chan (lk_head lk) \<in> {c..<c'} \<and> tx_chan (lk_tail lk) \<in> {c..<c'} \<and>
      dests ts \<subseteq> {c..<c'} \<union> opt_chan prv \<union> opt_chan nxt"
    and "link_elems es inputs prv nxt su c = (ts, c') \<Longrightarrow> length inputs = length es \<Longrightarrow>
      dests ts \<subseteq> {c..<c'} \<union> tx_chan ` set inputs \<union> opt_chan prv \<union> opt_chan nxt"
    and "link_branches bs up fi su c = (heads, ts, c') \<Longrightarrow>
      tx_chan ` set heads \<subseteq> {c..<c'} \<and> dests ts \<subseteq> {c..<c'} \<union> {tx_chan up, tx_chan fi}"
proof (induction t prv nxt su c and es inputs prv nxt su c and bs up fi su c
    arbitrary: lk ts c' and ts c' and heads ts c'
    rule: link_topology_link_elems_link_branches.induct)
  case (1 p prv nxt su c)
  then show ?case using link_leaf_dests [of p prv nxt su c] by fastforce
next
  case (2 elems prv nxt su c)
  show ?case
  proof (cases "elems = []")
    case True
    then show ?thesis using link_leaf_dests [of LPassThrough prv nxt su c] "2.prems" by fastforce
  next
    case False
    let ?ins = "chain_inputs elems c"
    obtain ts1 c1 where l: "link_elems elems ?ins prv nxt su (c + length elems) = (ts1, c1)"
      by (cases "link_elems elems ?ins prv nxt su (c + length elems)")
    have mem: "tx_chan ` set ?ins = {c..<c + length elems}"
      using arg_cong [OF chain_inputs_chans [of elems c], of set] by simp
    from "2.IH" [OF False refl l] have
      "dests ts1 \<subseteq> {c + length elems..<c1} \<union> {c..<c + length elems} \<union> opt_chan prv \<union> opt_chan nxt"
      by (simp add: mem)
    moreover have "c + length elems \<le> c1" using link_readers(2) [OF l] by simp
    moreover have "?ins \<noteq> []" using False by (cases elems) auto
    then have "tx_chan (hd ?ins) \<in> {c..<c + length elems}" "tx_chan (last ?ins) \<in> {c..<c + length elems}"
      using mem by fastforce+
    moreover have "ts = ts1" "c' = c1" "lk = \<lparr>lk_head = hd ?ins, lk_tail = last ?ins\<rparr>"
      using "2.prems" False l by (auto simp add: Let_def)
    ultimately show ?thesis by auto
  qed
next
  case (3 branches prv nxt su c)
  obtain hs ts1 c1 where l: "link_branches branches (channel_tx ''ParallelUpstream'' (c + 3))
      (channel_tx ''ParallelFanIn'' (c + 2)) su (c + 4) = (hs, ts1, c1)"
    by (cases "link_branches branches (channel_tx ''ParallelUpstream'' (c + 3))
      (channel_tx ''ParallelFanIn'' (c + 2)) su (c + 4)")
  from "3.IH" [OF refl refl refl refl refl l] link_readers(3) [OF l] "3.prems" l
  have ih: "tx_chan ` set hs \<subseteq> {c + 4..<c1}" "dests ts1 \<subseteq> {c + 4..<c1} \<union> {c + 3, c + 2}" "c + 4 \<le> c1"
    and eq: "lk = \<lparr>lk_head = channel_tx ''ParallelIn'' c, lk_tail = channel_tx ''ParallelOut'' (c + 1)\<rparr>"
      "ts = ts1 @ [TFanOut c hs, TFanIn (c + 2) nxt (max (length branches) 1), TForward (c + 3) prv,
        TForward (c + 1) None]" "c' = c1"
    by (auto simp: Let_def channel_tx_def)
  have "{c + 4..<c1} \<union> {c + 3, c + 2} \<subseteq> {c..<c1}" using ih(3) by auto
  with ih(1,2) show ?case using ih(3) by (auto simp: eq channel_tx_def)
next
  case (4 inputs prv nxt su c)
  then show ?case by simp
next
  case (5 e es inputs prv nxt su c)
  from "5.prems" obtain i ins where inp: "inputs = i # ins" and len: "length ins = length es"
    by (cases inputs) auto
  obtain ts1 c1 where h: "(case e of
      Leaf p \<Rightarrow> ([TProc p (make_link (leaf_name p) (head_opt ins nxt) prv su) (tx_chan i)], c)
    | _ \<Rightarrow> (let (lk, ts, c1) = link_topology e prv (head_opt ins nxt) su c
            in (ts @ [TBridge (tx_chan i) (lk_head lk)], c1))) = (ts1, c1)"
    by fastforce
  obtain ts2 c2 where r: "link_elems es ins (Some i) nxt su c1 = (ts2, c2)"
    by (cases "link_elems es ins (Some i) nxt su c1")
  have ts: "ts = ts1 @ ts2" "c' = c2" using "5.prems"(1) h r by (simp_all add: inp Let_def)
  have ih2: "dests ts2 \<subseteq> {c1..<c2} \<union> tx_chan ` set ins \<union> {tx_chan i} \<union> opt_chan nxt"
    using "5.IH"(3) h r len by (auto simp: inp)
  have "dests ts1 \<subseteq> {c..<c1} \<union> opt_chan prv \<union> opt_chan (head_opt ins nxt)"
    using h "5.IH"(1,2)
    by (fastforce simp: inp simp del: link_topology.simps split: topology.splits prod.splits)
  moreover have "c \<le> c1" using h
    by (auto simp del: link_topology.simps dest: link_readers(1) split: topology.splits prod.splits)
  then have "{c..<c1} \<subseteq> {c..<c2}" "{c1..<c2} \<subseteq> {c..<c2}"
    using link_readers(2) [OF r] len by auto
  ultimately show ?case using ih2 head_opt_chan [of ins nxt]
    unfolding ts inp dests_simps list.set image_insert by blast
next
  case (6 up fi su c)
  then show ?case by simp
next
  case (7 b bs up fi su c)
  obtain lk1 ts1 c1 where h: "link_topology b (Some up) (Some fi) su c = (lk1, ts1, c1)"
    by (cases "link_topology b (Some up) (Some fi) su c")
  obtain hs2 ts2 c2 where r: "link_branches bs up fi su c1 = (hs2, ts2, c2)"
    by (cases "link_branches bs up fi su c1")
  have "tx_chan (lk_head lk1) \<in> {c..<c1}" "dests ts1 \<subseteq> {c..<c1} \<union> {tx_chan up, tx_chan fi}"
    using "7.IH"(1) [OF h] by auto
  moreover have "tx_chan ` set hs2 \<subseteq> {c1..<c2}" "dests ts2 \<subseteq> {c1..<c2} \<union> {tx_chan up, tx_chan fi}"
    using "7.IH"(2) [OF h [symmetric] refl refl r] by auto
  moreover have "{c..<c1} \<subseteq> {c..<c2}" "{c1..<c2} \<subseteq> {c..<c2}"
    using link_readers(1) [OF h] link_readers(3) [OF r] by auto
  moreover have eq: "heads = lk_head lk1 # hs2" "ts = ts1 @ ts2" "c' = c2"
    using "7.prems" h r by auto
  ultimately show ?case
    unfolding eq dests_simps list.set image_insert insert_subset Un_subset_iff
    by (intro conjI; elim order_trans subsetD) (auto intro: order_trans)
qed

section \<open>The chain of leaves\<close>

text \<open>The wiring of a chain of leaves, written down directly: task \<open>i\<close> reads channel
  \<open>c + i\<close> and its neighbours are the channels on either side.\<close>

definition leaf_chain_task ::
  "('s, 'j) leaf list \<Rightarrow> processor_tx option \<Rightarrow> processor_tx option \<Rightarrow> processor_setup \<Rightarrow> nat \<Rightarrow> nat \<Rightarrow>
     ('s, 'j) task" where
  "leaf_chain_task ps prv nxt su c i =
     TProc (ps ! i)
       (make_link (leaf_name (ps ! i))
          (if i + 1 < length ps then Some (channel_tx (leaf_name (ps ! (i + 1))) (c + i + 1)) else nxt)
          (if 0 < i then Some (channel_tx (leaf_name (ps ! (i - 1))) (c + i - 1)) else prv) su)
       (c + i)"

lemma link_elems_leaves:
  "link_elems (map Leaf ps) (chain_inputs (map Leaf ps) c) prv nxt su c' =
     (map (leaf_chain_task ps prv nxt su c) [0..<length ps], c')"
proof (induction ps arbitrary: c prv)
  case Nil
  then show ?case by simp
next
  case (Cons p ps)
  have shift: "map (leaf_chain_task (p # ps) prv nxt su c) [1..<Suc (length ps)] =
      map (leaf_chain_task ps (Some (channel_tx (leaf_name p) c)) nxt su (Suc c)) [0..<length ps]"
    by (rule nth_equalityI) (auto simp: leaf_chain_task_def nth_Cons' simp del: upt_Suc)
  have hd: "leaf_chain_task (p # ps) prv nxt su c 0 =
      TProc p (make_link (leaf_name p) (head_opt (chain_inputs (map Leaf ps) (Suc c)) nxt) prv su) c"
    by (cases ps) (simp_all add: leaf_chain_task_def head_opt_def channel_tx_def)
  have "[0..<length (p # ps)] = 0 # [1..<Suc (length ps)]"
    using upt_conv_Cons [of 0 "length (p # ps)"] by (simp del: upt_Suc)
  then have "map (leaf_chain_task (p # ps) prv nxt su c) [0..<length (p # ps)] =
      leaf_chain_task (p # ps) prv nxt su c 0 #
      map (leaf_chain_task ps (Some (channel_tx (leaf_name p) c)) nxt su (Suc c)) [0..<length ps]"
    by (simp only: list.map shift)
  then show ?case
    by (simp only: hd) (simp add: Cons.IH channel_tx_def)
qed

section \<open>Properties\<close>

definition ex_setup :: processor_setup where
  "ex_setup = \<lparr>su_observer = False, su_enable_metrics = False, su_enable_usage_metrics = False\<rparr>"

text \<open>C7. Linking any topology gives every channel it allocates exactly one reading task, and
  every sender it hands out leads to an allocated channel or to the neighbour it was given: no
  frame is sent into a channel nobody reads, and no two tasks compete for one channel.\<close>

theorem link_topology_wires_all:
  assumes "link_topology t prv nxt su c = (lk, ts, c')"
  shows "distinct (map task_rx ts) \<and> task_rx ` set ts = {c..<c'} \<and>
    tx_chan (lk_head lk) \<in> {c..<c'} \<and> tx_chan (lk_tail lk) \<in> {c..<c'} \<and>
    dests ts \<subseteq> {c..<c'} \<union> opt_chan prv \<union> opt_chan nxt"
proof -
  have m: "mset (map task_rx ts) = mset [c..<c']" using link_readers(1) [OF assms] by simp
  have "distinct (map task_rx ts)" using m by (metis distinct_upt mset_eq_imp_distinct_iff)
  moreover have "task_rx ` set ts = {c..<c'}" using mset_eq_setD [OF m] by simp
  ultimately show ?thesis using link_dests(1) [OF assms] by blast
qed

theorem link_topology_wires_all_witness:
  "\<exists>lk ts c'. link_topology (wrapped (Parallel [Chain [], Leaf (LUser (default_processor ''A'') ())])
       :: (unit, unit) topology) None None ex_setup 0 = (lk, ts, c') \<and>
     distinct (map task_rx ts) \<and> dests ts \<subseteq> {0..<c'} \<and> c' = 9"
proof -
  let ?t = "wrapped (Parallel [Chain [], Leaf (LUser (default_processor ''A'') ())]) :: (unit, unit) topology"
  obtain lk ts c' where l: "link_topology ?t None None ex_setup 0 = (lk, ts, c')"
    by (cases "link_topology ?t None None ex_setup 0")
  have "c' = 9" using l by (auto simp: wrapped_def link_leaf_def Let_def)
  with link_topology_wires_all [OF l] l show ?thesis by auto
qed

text \<open>A chain of processors is wired head to tail: processor \<open>i\<close> reads its own
  channel, pushes downstream into the channel of processor \<open>i + 1\<close> and upstream into that of
  \<open>i - 1\<close>, and the two ends are connected to the outer neighbours.\<close>

lemma link_chain_of_leaves:
  assumes "ps \<noteq> []"
  shows "link_topology (Chain (map Leaf ps)) prv nxt su c =
    (\<lparr>lk_head = channel_tx (leaf_name (hd ps)) c,
      lk_tail = channel_tx (leaf_name (last ps)) (c + (length ps - 1))\<rparr>,
     map (leaf_chain_task ps prv nxt su c) [0..<length ps], c + length ps)"
proof -
  have nth: "i < length ps \<Longrightarrow> chain_inputs (map Leaf ps) c ! i = channel_tx (leaf_name (ps ! i)) (c + i)" for i
  proof (induction ps arbitrary: c i)
    case (Cons p ps)
    then show ?case by (cases i) simp_all
  qed simp
  have "chain_inputs (map Leaf ps) c \<noteq> []" using assms by (cases ps) simp_all
  then have "hd (chain_inputs (map Leaf ps) c) = channel_tx (leaf_name (hd ps)) c"
    and "last (chain_inputs (map Leaf ps) c) = channel_tx (leaf_name (last ps)) (c + (length ps - 1))"
    using nth [of 0] nth [of "length ps - 1"] assms
    by (simp_all add: hd_conv_nth last_conv_nth)
  then show ?thesis using assms by (simp add: Let_def link_elems_leaves)
qed

text \<open>A processor may ask for the end of the call: an upstream \<open>End\<close>,
  \<open>Stop\<close> or \<open>Cancel\<close> that reaches the \<open>Source\<close> comes back as the same frame
  flowing downstream, under a fresh id, and the \<open>Source\<close> keeps running until that
  downstream frame reaches it.\<close>

lemma source_converts_end_request:
  assumes "is_terminal (env_frame env)" and "env_direction env = Upstream" and "l_next l = Some tx"
    and "\<not> l_observer l"
  shows "handle_env source l () r env n =
    ((), r, [Send tx (fst (envelope_new n (env_frame env) Downstream))], n + 1, Continue)"
proof -
  have "\<not> lifecycle env"
    using assms(1,2) by (cases "env_frame env") (simp_all add: lifecycle_def is_terminal_def)
  then show ?thesis
    using assms
    by (simp add: handle_env_other handle_process_def source_def source_process_def push_down_def
        push_def frame_meta_new_def next_frame_id_def envelope_new_def observe_def eff_simps)
qed

definition tapped :: "'j frame \<Rightarrow> 'j frame" where
  "tapped f = (case f of End _ \<Rightarrow> End None | Cancel _ \<Rightarrow> Cancel None | g \<Rightarrow> g)"

lemma sink_hooks [eff_simps]:
  "p_start sink = sink_start" "p_process sink = sink_process" "p_stop sink = sink_stop"
  "p_on_interruption sink = default_on_interruption" "p_name sink = ''Sink''"
  by (simp_all add: sink_def default_processor_def)

text \<open>The \<open>Sink\<close> reports every downstream frame on the task's tap, lifecycle frames
  included: \<open>Start\<close> and the terminal frames through its hooks (terminals without their
  reason text), everything else from \<open>process_frame\<close>; upstream frames are not tapped.\<close>

lemma sink_taps_downstream:
  assumes "env_direction env = Downstream" and "env_frame env \<noteq> Interruption"
    and "l_next l = None" and "\<not> l_observer l"
  shows "fst (snd (snd (handle_env sink l () r env n))) = [Tap (tapped (env_frame env))]"
  using assms
  by (cases "env_frame env")
     (simp_all add: handle_env_def handle_process_def handle_terminal_def handle_start_def
        eff_simps sink_start_def sink_stop_def sink_process_def tapped_def frame_stop_reason_def)

text \<open>The bridge in front of a nested composite ends on any terminal frame, whatever its
  direction: an upstream end request from behind the composite is sent into the composite's
  head and ends the bridge, and the frames queued after it are never forwarded.\<close>

lemma bridge_ends_on_upstream_request:
  assumes "rx_frames r = q @ t # rest" and "\<forall>e \<in> set q. \<not> is_terminal (env_frame e)"
    and "is_terminal (env_frame t)" and "env_direction t = Upstream"
  shows "\<exists>r'. bridge r dst = ((), r', map (Send dst) (q @ [t]), Finished) \<and> rx_frames r' = rest"
proof -
  obtain u r' out st where f: "bridge r dst = (u, r', out, st)" by (cases "bridge r dst")
  have tu: "take_until (\<lambda>e. is_terminal (env_frame e)) (rx_frames r) = q @ [t]"
    using assms by (simp add: take_until_append)
  have cm: "concat (map (\<lambda>e. [Send dst e]) xs) = map (Send dst) xs" for xs :: "'a envelope list"
    by (induction xs) simp_all
  from bridge.copies [OF f [unfolded bridge_def], unfolded tu] assms(1,3) f show ?thesis
    by (auto simp: cm)
qed

end
