(* ===== verification/Observers.thy ===== *)
theory Observers
  imports Proc_Runtime
begin

text \<open>
  The built-in observers, \<^verbatim>\<open>flowcat-core/src/observer/mod.rs\<close>. An observer is told of every
  frame a processor is about to handle (\<open>on_process\<close>) and of every frame pushed
  (\<open>on_push\<close>); it keeps its own state and changes nothing else. Atomics and mutexes are plain
  state: the runtime calls the hooks one at a time.
\<close>

record 'j frame_event =
  fe_processor :: string
  fe_env :: "'j envelope"
  fe_timestamp_ns :: i64

section \<open>Turn edges\<close>

datatype turn_edge = UserStarted | UserStopped | BotStarted | BotStopped

definition turn_edge_of :: "frame_kind \<Rightarrow> turn_edge option" where
  "turn_edge_of k =
     (case k of
        KUserStartedSpeaking \<Rightarrow> Some UserStarted
      | KUserStoppedSpeaking \<Rightarrow> Some UserStopped
      | KBotStartedSpeaking \<Rightarrow> Some BotStarted
      | KBotStoppedSpeaking \<Rightarrow> Some BotStopped
      | _ \<Rightarrow> None)"

definition turn_tracking_on_process ::
  "(turn_edge \<times> i64) list \<Rightarrow> 'j frame_event \<Rightarrow> (turn_edge \<times> i64) list" where
  "turn_tracking_on_process es e =
     (case turn_edge_of (kind (env_frame (fe_env e))) of
        Some d \<Rightarrow> es @ [(d, fe_timestamp_ns e)]
      | None \<Rightarrow> es)"

section \<open>User to bot latency\<close>

record latency_observer =
  user_stop_ns :: i64
  last_latency :: i64

definition latency_new :: latency_observer where
  "latency_new = \<lparr>user_stop_ns = - 1, last_latency = - 1\<rparr>"

text \<open>The derived \<open>Default\<close>, which zeroes both fields.\<close>

definition latency_default :: latency_observer where
  "latency_default = \<lparr>user_stop_ns = 0, last_latency = 0\<rparr>"

definition last_latency_ns :: "latency_observer \<Rightarrow> i64 option" where
  "last_latency_ns o1 = (if 0 \<le> sint (last_latency o1) then Some (last_latency o1) else None)"

definition latency_on_process :: "latency_observer \<Rightarrow> 'j frame_event \<Rightarrow> latency_observer" where
  "latency_on_process o1 e =
     (let k = kind (env_frame (fe_env e))
      in if k = KUserStoppedSpeaking then o1\<lparr>user_stop_ns := fe_timestamp_ns e\<rparr>
         else if k = KBotStartedSpeaking \<or> k = KTtsAudio \<or> k = KOutputAudio then
           let start = user_stop_ns o1; o2 = o1\<lparr>user_stop_ns := - 1\<rparr>
           in if 0 \<le> sint start then
                let d = fe_timestamp_ns e - start
                in o2\<lparr>last_latency := if sint d < 0 then 0 else d\<rparr>
              else o2
         else o1)"

section \<open>Idle detection\<close>

record idle_observer =
  io_activity :: "frame_kind list"
  io_counter :: u64

definition idle_observer_new :: "frame_kind list \<Rightarrow> idle_observer" where
  "idle_observer_new ks = \<lparr>io_activity = ks, io_counter = 0\<rparr>"

definition idle_on_process :: "idle_observer \<Rightarrow> 'j frame \<Rightarrow> idle_observer" where
  "idle_on_process ob f =
     (if kind f \<in> set (io_activity ob) then ob\<lparr>io_counter := io_counter ob + 1\<rparr> else ob)"

section \<open>Metrics log\<close>

record observed_metric =
  om_data :: metrics_data
  om_timestamp_ns :: i64

record metrics_log =
  frames_seen :: "u64 list"
  ml_metrics :: "observed_metric list"

definition metrics_log_new :: metrics_log where
  "metrics_log_new = \<lparr>frames_seen = [], ml_metrics = []\<rparr>"

definition metrics_on_push :: "metrics_log \<Rightarrow> 'j frame_event \<Rightarrow> metrics_log" where
  "metrics_on_push st e =
     (case env_frame (fe_env e) of
        Metrics batch \<Rightarrow>
          (let m = env_meta (fe_env e)
           in if broadcast_sibling_id m \<noteq> None \<and> env_direction (fe_env e) \<noteq> Downstream then st
              else if fm_id m \<in> set (frames_seen st) then st
              else st\<lparr>frames_seen := frames_seen st @ [fm_id m],
                      ml_metrics := ml_metrics st @
                        map (\<lambda>d. \<lparr>om_data = d, om_timestamp_ns = fe_timestamp_ns e\<rparr>) batch\<rparr>)
      | _ \<Rightarrow> st)"

definition last_seconds :: "metrics_log \<Rightarrow> (metrics_data \<Rightarrow> f64 option) \<Rightarrow> f64 option" where
  "last_seconds st pick = find_map (\<lambda>m. pick (om_data m)) (rev (ml_metrics st))"

definition ttfb_seconds :: "metrics_log \<Rightarrow> string \<Rightarrow> f64 option" where
  "ttfb_seconds st p =
     last_seconds st (\<lambda>d. case d of Ttfb q _ s \<Rightarrow> if q = p then Some s else None | _ \<Rightarrow> None)"

definition processing_seconds :: "metrics_log \<Rightarrow> string \<Rightarrow> f64 option" where
  "processing_seconds st p =
     last_seconds st (\<lambda>d. case d of Processing q _ s \<Rightarrow> if q = p then Some s else None | _ \<Rightarrow> None)"

definition real_time_factor :: "metrics_log \<Rightarrow> string \<Rightarrow> f64 \<Rightarrow> f64 option" where
  "real_time_factor st p audio_seconds =
     (if fl_le audio_seconds (FNum 0) then None
      else map_option (\<lambda>s. fl_div f64_fmt s audio_seconds) (processing_seconds st p))"

definition total_llm_tokens :: "metrics_log \<Rightarrow> u64" where
  "total_llm_tokens st =
     sum_list (map (\<lambda>m. case om_data m of LlmUsage _ _ t \<Rightarrow> total_tokens t | _ \<Rightarrow> 0) (ml_metrics st))"

section \<open>What the observers keep\<close>

lemma metrics_on_push_inv:
  "distinct (frames_seen st) \<Longrightarrow> distinct (frames_seen (metrics_on_push st e))"
  by (cases "env_frame (fe_env e)") (simp_all add: metrics_on_push_def Let_def)

lemma metrics_on_push_again:
  "fe_env e' = fe_env e \<Longrightarrow> metrics_on_push (metrics_on_push st e) e' = metrics_on_push st e"
  by (cases "env_frame (fe_env e)") (simp_all add: metrics_on_push_def Let_def)

lemma idle_counter_advances:
  "io_counter (idle_on_process ob f) = io_counter ob + (if kind f \<in> set (io_activity ob) then 1 else 0)"
  "io_activity (idle_on_process ob f) = io_activity ob"
  by (simp_all add: idle_on_process_def)

text \<open>A latency is only reported after a bot frame that follows a stop of the user, and then it
  is not negative; a fresh observer reports none.\<close>

lemma latency_new_none: "last_latency_ns latency_new = None"
  by (simp add: last_latency_ns_def latency_new_def)

lemma latency_default_some: "last_latency_ns latency_default = Some 0"
  by (simp add: last_latency_ns_def latency_default_def)

lemma latency_measures:
  assumes "kind (env_frame (fe_env a)) = KUserStoppedSpeaking" and "kind (env_frame (fe_env b)) = KBotStartedSpeaking"
    and "0 \<le> sint (fe_timestamp_ns a)" and "sint (fe_timestamp_ns a) \<le> sint (fe_timestamp_ns b)"
  shows "last_latency_ns (latency_on_process (latency_on_process ob a) b) = Some (fe_timestamp_ns b - fe_timestamp_ns a)"
proof -
  have "sint (fe_timestamp_ns b - fe_timestamp_ns a) = sint (fe_timestamp_ns b) - sint (fe_timestamp_ns a)"
    using assms(3,4) sint_lt [of "fe_timestamp_ns b"]
    by (simp add: sint_word_ariths signed_take_bit_int_eq_self)
  then show ?thesis using assms by (simp add: latency_on_process_def last_latency_ns_def Let_def)
qed

end
