(* ===== verification/Pipeline_Task.thy ===== *)
theory Pipeline_Task
  imports Pipeline_Link Observers
begin

text \<open>
  The life of one pipeline, \<^verbatim>\<open>flowcat-core/src/pipeline/task.rs\<close>, with the source pump
  (\<^verbatim>\<open>source_pump.rs\<close>) and the runner (\<^verbatim>\<open>runner.rs\<close>).

  \<open>PipelineTask::run\<close> is a state machine over the queues it selects on. The record
  \<open>pipe_task\<close> holds what it reads and writes: the cancel token, the head queue, the
  Sink tap, what it has sent to the head, and the calls it has made to registered callbacks
  (a callback is a number). \<open>pump_step\<close> is one turn of the biased select of the main loop, \<open>None\<close>
  when no branch is ready. \<open>task_step\<close> adds the rest as labelled transitions: producers, the pipeline
  delivering to the tap, the two watchers and the timers, cancellation, and the unbiased select of
  the start handshake. Back-pressure of the head channel is not modelled: a send completes.
\<close>

section \<open>Parameters\<close>

record task_params =
  tk_audio_in_sample_rate :: u32
  tk_audio_out_sample_rate :: u32
  tk_enable_metrics :: bool
  tk_enable_usage_metrics :: bool
  tk_enable_tracing :: bool
  tk_enable_heartbeats :: bool
  heartbeat_period :: nat
  heartbeat_monitor :: nat
  idle_timeout :: "nat option"
  cancel_on_idle :: bool
  idle_timeout_frames :: "frame_kind list"

text \<open>Durations in seconds.\<close>

definition task_params_default :: task_params where
  "task_params_default =
     \<lparr>tk_audio_in_sample_rate = 16000, tk_audio_out_sample_rate = 24000, tk_enable_metrics = False,
      tk_enable_usage_metrics = False, tk_enable_tracing = False, tk_enable_heartbeats = False,
      heartbeat_period = 1, heartbeat_monitor = 10, idle_timeout = Some 300, cancel_on_idle = True,
      idle_timeout_frames = [KBotSpeaking, KUserSpeaking]\<rparr>"

definition task_start_params :: "task_params \<Rightarrow> start_params" where
  "task_start_params ps =
     \<lparr>audio_in_sample_rate = tk_audio_in_sample_rate ps, audio_out_sample_rate = tk_audio_out_sample_rate ps,
      sp_enable_metrics = tk_enable_metrics ps, sp_enable_usage_metrics = tk_enable_usage_metrics ps,
      enable_tracing = tk_enable_tracing ps, report_only_initial_ttfb = True\<rparr>"

section \<open>The task\<close>

datatype callback_call =
    CallStarted nat
  | CallFinished nat stop_reason
  | CallError nat ustr bool
  | CallIdleTimeout nat

datatype phase = AwaitStart | Pumping | Draining "stop_reason option" | Joined

record 'j pipe_task =
  pt_params :: task_params
  pt_phase :: phase
  pt_cancelled :: bool
  pt_finished :: bool
  pt_queue :: "'j frame list"
  pt_tap :: "'j frame list"
  pt_tap_open :: bool
  pt_head :: "'j envelope list"
  pt_next_id :: u64
  pt_on_started :: "nat list"
  pt_on_finished :: "nat list"
  pt_on_error :: "nat list"
  pt_on_idle_timeout :: "nat list"
  pt_calls :: "callback_call list"
  pt_idle :: idle_observer
  pt_idle_watch :: "u64 option"
  pt_idle_fired :: bool
  pt_last_heartbeat :: u64

definition head_send :: "'j frame \<Rightarrow> 'j pipe_task \<Rightarrow> 'j pipe_task" where
  "head_send f s =
     (let (env, n) = envelope_new (pt_next_id s) f Downstream
      in s\<lparr>pt_head := pt_head s @ [env], pt_next_id := n\<rparr>)"

definition queue_send :: "'j frame \<Rightarrow> 'j pipe_task \<Rightarrow> 'j pipe_task" where
  "queue_send f s = s\<lparr>pt_queue := pt_queue s @ [f]\<rparr>"

definition pipe_task_new :: "task_params \<Rightarrow> u64 \<Rightarrow> 'j pipe_task" where
  "pipe_task_new ps n =
     \<lparr>pt_params = ps, pt_phase = AwaitStart, pt_cancelled = False, pt_finished = False, pt_queue = [],
      pt_tap = [], pt_tap_open = True, pt_head = [], pt_next_id = n, pt_on_started = [], pt_on_finished = [],
      pt_on_error = [], pt_on_idle_timeout = [], pt_calls = [],
      pt_idle = idle_observer_new (idle_timeout_frames ps), pt_idle_watch = None, pt_idle_fired = False,
      pt_last_heartbeat = 0\<rparr>"

definition queue_frames :: "'j frame list \<Rightarrow> 'j pipe_task \<Rightarrow> 'j pipe_task" where
  "queue_frames fs s = foldl (\<lambda>s f. queue_send f s) s fs"

definition stop_when_done :: "'j pipe_task \<Rightarrow> 'j pipe_task" where
  "stop_when_done s = queue_send (End None) s"

definition cancel_task :: "ustr option \<Rightarrow> 'j pipe_task \<Rightarrow> 'j pipe_task" where
  "cancel_task reason s = queue_send (Cancel reason) s"

definition on_started :: "nat \<Rightarrow> 'j pipe_task \<Rightarrow> 'j pipe_task" where
  "on_started c s = s\<lparr>pt_on_started := pt_on_started s @ [c]\<rparr>"

definition on_finished :: "nat \<Rightarrow> 'j pipe_task \<Rightarrow> 'j pipe_task" where
  "on_finished c s = s\<lparr>pt_on_finished := pt_on_finished s @ [c]\<rparr>"

definition on_error :: "nat \<Rightarrow> 'j pipe_task \<Rightarrow> 'j pipe_task" where
  "on_error c s = s\<lparr>pt_on_error := pt_on_error s @ [c]\<rparr>"

definition on_idle_timeout :: "nat \<Rightarrow> 'j pipe_task \<Rightarrow> 'j pipe_task" where
  "on_idle_timeout c s = s\<lparr>pt_on_idle_timeout := pt_on_idle_timeout s @ [c]\<rparr>"

definition task_terminal_reason :: "'j frame \<Rightarrow> stop_reason" where
  "task_terminal_reason f =
     (case f of End _ \<Rightarrow> EndOfTask | Stop \<Rightarrow> Stopped | Cancel _ \<Rightarrow> Cancelled | _ \<Rightarrow> EndOfTask)"

definition run_begin :: "'j pipe_task \<Rightarrow> 'j pipe_task" where
  "run_begin s = head_send (Start (task_start_params (pt_params s))) s"

text \<open>What follows the handshake: the started callbacks when the Start came through, then the
  watchers are spawned.\<close>

definition after_wait :: "bool \<Rightarrow> 'j pipe_task \<Rightarrow> 'j pipe_task" where
  "after_wait ready s =
     s\<lparr>pt_phase := Pumping,
       pt_calls := pt_calls s @ (if ready then map CallStarted (pt_on_started s) else []),
       pt_idle_watch := if idle_timeout (pt_params s) = None then None else Some (io_counter (pt_idle s))\<rparr>"

definition tap_frame :: "'j frame \<Rightarrow> 'j pipe_task \<Rightarrow> 'j pipe_task" where
  "tap_frame f s =
     (case f of
        Heartbeat t \<Rightarrow> s\<lparr>pt_last_heartbeat := t\<rparr>
      | Error msg fatal _ \<Rightarrow>
          (let s1 = s\<lparr>pt_calls := pt_calls s @ map (\<lambda>c. CallError c msg fatal) (pt_on_error s)\<rparr>
           in if fatal then head_send (Cancel None) s1 else s1)
      | _ \<Rightarrow> if is_terminal f then s\<lparr>pt_phase := Draining (Some (task_terminal_reason f))\<rparr> else s)"

definition pump_step :: "'j pipe_task \<Rightarrow> 'j pipe_task option" where
  "pump_step s =
     (if pt_phase s \<noteq> Pumping then None
      else if pt_cancelled s then
        Some ((head_send (Cancel None) s)\<lparr>pt_phase := Draining (Some Cancelled)\<rparr>)
      else case pt_queue s of
        f # fs \<Rightarrow> Some (head_send f (s\<lparr>pt_queue := fs\<rparr>))
      | [] \<Rightarrow>
        (case pt_tap s of
           f # fs \<Rightarrow> Some (tap_frame f (s\<lparr>pt_tap := fs\<rparr>))
         | [] \<Rightarrow> if pt_tap_open s then None else Some (s\<lparr>pt_phase := Draining None\<rparr>)))"

definition idle_tick :: "'j pipe_task \<Rightarrow> 'j pipe_task" where
  "idle_tick s =
     (case pt_idle_watch s of
        None \<Rightarrow> s
      | Some seen \<Rightarrow>
          (let now = io_counter (pt_idle s)
           in if now = seen then
                let s1 = s\<lparr>pt_idle_fired := True, pt_idle_watch := None\<rparr>
                in if cancel_on_idle (pt_params s) then queue_send (Cancel (Some (lit ''idle timeout''))) s1 else s1
              else s\<lparr>pt_idle_watch := Some now\<rparr>))"

definition heartbeat_tick :: "i64 \<Rightarrow> 'j pipe_task \<Rightarrow> 'j pipe_task" where
  "heartbeat_tick now s = head_send (Heartbeat now) s"

definition join_tasks :: "stop_reason option \<Rightarrow> 'j pipe_task \<Rightarrow> 'j pipe_task" where
  "join_tasks r s =
     s\<lparr>pt_phase := Joined, pt_cancelled := True, pt_idle_watch := None, pt_finished := True,
       pt_calls := pt_calls s
         @ (if pt_idle_fired s then map CallIdleTimeout (pt_on_idle_timeout s) else [])
         @ map (\<lambda>c. CallFinished c (case r of Some x \<Rightarrow> x | None \<Rightarrow> EndOfTask)) (pt_on_finished s)\<rparr>"

section \<open>Transitions\<close>

datatype (plugins only: code size) 'j task_label =
    Submit "'j frame" | Forward "'j frame" | Tapped "'j frame" | Observed "'j frame" | TapClosed | Quiet_Step

inductive task_step :: "'j pipe_task \<Rightarrow> 'j task_label \<Rightarrow> 'j pipe_task \<Rightarrow> bool" where
  wait_cancelled: "pt_phase s = AwaitStart \<Longrightarrow> pt_cancelled s \<Longrightarrow> task_step s Quiet_Step (after_wait False s)"
| wait_ready: "pt_phase s = AwaitStart \<Longrightarrow> pt_tap s = Start ps # fs \<Longrightarrow>
    task_step s Quiet_Step (after_wait True (s\<lparr>pt_tap := fs\<rparr>))"
| wait_skip: "pt_phase s = AwaitStart \<Longrightarrow> pt_tap s = f # fs \<Longrightarrow> kind f \<noteq> KStart \<Longrightarrow>
    task_step s Quiet_Step (s\<lparr>pt_tap := fs\<rparr>)"
| wait_closed: "pt_phase s = AwaitStart \<Longrightarrow> pt_tap s = [] \<Longrightarrow> \<not> pt_tap_open s \<Longrightarrow>
    task_step s Quiet_Step (after_wait False s)"
| pump_queue: "pump_step s = Some s' \<Longrightarrow> \<not> pt_cancelled s \<Longrightarrow> pt_queue s = f # fs \<Longrightarrow> task_step s (Forward f) s'"
| pump_other: "pump_step s = Some s' \<Longrightarrow> pt_cancelled s \<or> pt_queue s = [] \<Longrightarrow> task_step s Quiet_Step s'"
| submit: "task_step s (Submit f) (queue_send f s)"
| tapped: "pt_tap_open s \<Longrightarrow> task_step s (Tapped f) (s\<lparr>pt_tap := pt_tap s @ [f]\<rparr>)"
| tap_closed: "task_step s TapClosed (s\<lparr>pt_tap_open := False\<rparr>)"
| observed: "task_step s (Observed f) (s\<lparr>pt_idle := idle_on_process (pt_idle s) f\<rparr>)"
| cancelled: "task_step s Quiet_Step (s\<lparr>pt_cancelled := True\<rparr>)"
| idle_other: "pt_phase s = Pumping \<Longrightarrow> pt_idle_watch s \<noteq> None \<Longrightarrow> pt_queue (idle_tick s) = pt_queue s \<Longrightarrow>
    task_step s Quiet_Step (idle_tick s)"
| idle_fires: "pt_phase s = Pumping \<Longrightarrow> pt_queue (idle_tick s) = pt_queue s @ [f] \<Longrightarrow>
    task_step s (Submit f) (idle_tick s)"
| heartbeat: "pt_phase s = Pumping \<Longrightarrow> tk_enable_heartbeats (pt_params s) \<Longrightarrow>
    task_step s Quiet_Step (heartbeat_tick now s)"
| joined: "pt_phase s = Draining r \<Longrightarrow> task_step s Quiet_Step (join_tasks r s)"

inductive task_run :: "'j pipe_task \<Rightarrow> 'j task_label list \<Rightarrow> 'j pipe_task \<Rightarrow> bool" where
  task_run_refl: "task_run s [] s"
| task_run_step: "task_run s tr s' \<Longrightarrow> task_step s' a s'' \<Longrightarrow> task_run s (tr @ [a]) s''"

text \<open>The main loop run until no branch is ready.\<close>

lemma tap_frame_queues [simp]:
  "pt_queue (tap_frame f s) = pt_queue s" "pt_tap (tap_frame f s) = pt_tap s"
  "pt_cancelled (tap_frame f s) = pt_cancelled s"
  by (cases f; simp add: tap_frame_def head_send_def Let_def case_prod_unfold)+

lemma head_send_fields [simp]:
  "pt_queue (head_send f s) = pt_queue s" "pt_tap (head_send f s) = pt_tap s" "pt_phase (head_send f s) = pt_phase s"
  "pt_cancelled (head_send f s) = pt_cancelled s" "pt_tap_open (head_send f s) = pt_tap_open s"
  "pt_calls (head_send f s) = pt_calls s" "pt_params (head_send f s) = pt_params s"
  "pt_on_error (head_send f s) = pt_on_error s" "pt_idle (head_send f s) = pt_idle s"
  "pt_idle_watch (head_send f s) = pt_idle_watch s" "pt_finished (head_send f s) = pt_finished s"
  "map env_frame (pt_head (head_send f s)) = map env_frame (pt_head s) @ [f]"
  by (simp_all add: head_send_def envelope_new_def Let_def case_prod_unfold)

function pump_loop :: "'j pipe_task \<Rightarrow> 'j pipe_task" where
  "pump_loop s = (case pump_step s of None \<Rightarrow> s | Some s' \<Rightarrow> pump_loop s')"
  by pat_completeness auto
termination
  by (relation "measure (\<lambda>s. if pt_phase s = Pumping then 1 + length (pt_queue s) + length (pt_tap s) else 0)")
    (auto simp: pump_step_def split: if_splits list.splits)

declare pump_loop.simps [simp del]

section \<open>Source pump\<close>

text \<open>A reader's handle on the head queue. The queue is gone once the task has returned.\<close>

definition source_emit :: "'j frame \<Rightarrow> 'j pipe_task \<Rightarrow> 'j frame + 'j pipe_task" where
  "source_emit f s = (if pt_finished s then Inl f else Inr (queue_send f s))"

definition source_end :: "'j pipe_task \<Rightarrow> 'j pipe_task" where
  "source_end s = (case source_emit (End None) s of Inl _ \<Rightarrow> s | Inr s' \<Rightarrow> s')"

definition source_cancel :: "ustr option \<Rightarrow> 'j pipe_task \<Rightarrow> 'j pipe_task" where
  "source_cancel reason s = (case source_emit (Cancel reason) s of Inl _ \<Rightarrow> s | Inr s' \<Rightarrow> s')"

section \<open>Runner\<close>

text \<open>A token is a number; \<open>fired\<close> says which ones are cancelled. A task cancels its own
  token before it returns.\<close>

record runner =
  handle_sigint :: bool
  handle_sigterm :: bool
  tokens :: "nat list"

definition runner_new :: "bool \<Rightarrow> bool \<Rightarrow> runner" where
  "runner_new i t = \<lparr>handle_sigint = i, handle_sigterm = t, tokens = []\<rparr>"

definition runner_begin :: "nat \<Rightarrow> runner \<Rightarrow> runner" where
  "runner_begin t r = r\<lparr>tokens := tokens r @ [t]\<rparr>"

definition runner_end :: "(nat \<Rightarrow> bool) \<Rightarrow> runner \<Rightarrow> runner" where
  "runner_end fired r = r\<lparr>tokens := filter (\<lambda>t. \<not> fired t) (tokens r)\<rparr>"

definition cancel_all :: "runner \<Rightarrow> (nat \<Rightarrow> bool) \<Rightarrow> nat \<Rightarrow> bool" where
  "cancel_all r fired = foldl (\<lambda>fd t. fd(t := True)) fired (tokens r)"

datatype os_signal = SigInt | SigTerm

definition on_signal :: "runner \<Rightarrow> nat \<Rightarrow> os_signal \<Rightarrow> (nat \<Rightarrow> bool) \<Rightarrow> nat \<Rightarrow> bool" where
  "on_signal r t sg fired =
     (if (case sg of SigInt \<Rightarrow> handle_sigint r | SigTerm \<Rightarrow> handle_sigterm r) then fired(t := True) else fired)"

section \<open>The main loop\<close>

definition fatal_errors :: "'j frame list \<Rightarrow> nat" where
  "fatal_errors fs = length (filter (\<lambda>f. case f of Error _ fatal _ \<Rightarrow> fatal | _ \<Rightarrow> False) fs)"

definition error_calls :: "nat list \<Rightarrow> 'j frame list \<Rightarrow> callback_call list" where
  "error_calls cs fs =
     concat (map (\<lambda>f. case f of Error msg fatal _ \<Rightarrow> map (\<lambda>c. CallError c msg fatal) cs | _ \<Rightarrow> []) fs)"

lemma pump_forward:
  assumes "pt_phase s = Pumping" and "\<not> pt_cancelled s" and "pt_queue s = f # fs"
  shows "pump_loop s = pump_loop (head_send f (s\<lparr>pt_queue := fs\<rparr>))"
  using assms by (subst pump_loop.simps) (simp add: pump_step_def)

lemma pump_queue_run:
  assumes "pt_phase s = Pumping" and "\<not> pt_cancelled s" and "pt_queue s = fs"
  shows "pump_loop s = pump_loop (foldl (\<lambda>s f. head_send f s) (s\<lparr>pt_queue := []\<rparr>) fs)"
  using assms
proof (induction fs arbitrary: s)
  case Nil
  then have "s\<lparr>pt_queue := []\<rparr> = s" by simp
  then show ?case by simp
next
  case (Cons f fs)
  have "(head_send f (s\<lparr>pt_queue := fs\<rparr>))\<lparr>pt_queue := []\<rparr> = head_send f (s\<lparr>pt_queue := []\<rparr>)"
    by (simp add: head_send_def Let_def case_prod_unfold)
  then show ?case using Cons.IH [of "head_send f (s\<lparr>pt_queue := fs\<rparr>)"] pump_forward [OF Cons.prems] Cons.prems by simp
qed

lemma foldl_head_send [simp]:
  "pt_phase (foldl (\<lambda>s f. head_send f s) s fs) = pt_phase s"
  "pt_cancelled (foldl (\<lambda>s f. head_send f s) s fs) = pt_cancelled s"
  "pt_queue (foldl (\<lambda>s f. head_send f s) s fs) = pt_queue s" "pt_tap (foldl (\<lambda>s f. head_send f s) s fs) = pt_tap s"
  "pt_calls (foldl (\<lambda>s f. head_send f s) s fs) = pt_calls s"
  "pt_on_error (foldl (\<lambda>s f. head_send f s) s fs) = pt_on_error s"
  "map env_frame (pt_head (foldl (\<lambda>s f. head_send f s) s fs)) = map env_frame (pt_head s) @ fs"
  by (induction fs arbitrary: s) simp_all

lemma tap_frame_plain:
  assumes "\<not> is_terminal f"
  shows "pt_phase (tap_frame f s) = pt_phase s" "pt_on_error (tap_frame f s) = pt_on_error s"
    "pt_calls (tap_frame f s) = pt_calls s @ error_calls (pt_on_error s) [f]"
    "map env_frame (pt_head (tap_frame f s)) = map env_frame (pt_head s) @ replicate (fatal_errors [f]) (Cancel None)"
  using assms by (cases f; simp add: tap_frame_def Let_def error_calls_def fatal_errors_def)+

lemma pump_tap_run:
  assumes "pt_phase s = Pumping" and "\<not> pt_cancelled s" and "pt_queue s = []" and "pt_tap s = q @ t # rest"
    and "\<forall>f\<in>set q. \<not> is_terminal f" and "is_terminal t"
  shows "pt_phase (pump_loop s) = Draining (Some (task_terminal_reason t)) \<and> pt_tap (pump_loop s) = rest \<and>
    pt_queue (pump_loop s) = [] \<and> pt_calls (pump_loop s) = pt_calls s @ error_calls (pt_on_error s) q \<and>
    map env_frame (pt_head (pump_loop s)) = map env_frame (pt_head s) @ replicate (fatal_errors q) (Cancel None)"
  using assms
proof (induction q arbitrary: s)
  case Nil
  let ?s = "tap_frame t (s\<lparr>pt_tap := rest\<rparr>)"
  have "?s = s\<lparr>pt_tap := rest, pt_phase := Draining (Some (task_terminal_reason t))\<rparr>"
    using Nil.prems(6) by (cases t) (simp_all add: tap_frame_def is_terminal_def)
  moreover have "pump_loop s = pump_loop ?s"
    using Nil.prems by (subst pump_loop.simps) (simp add: pump_step_def)
  moreover have "pump_loop ?s = ?s"
    using calculation(1) by (subst pump_loop.simps) (simp add: pump_step_def)
  ultimately show ?case
    using Nil.prems(3) by (simp add: error_calls_def fatal_errors_def)
next
  case (Cons f q)
  let ?s = "tap_frame f (s\<lparr>pt_tap := q @ t # rest\<rparr>)"
  have f: "\<not> is_terminal f" using Cons.prems by simp
  have "pump_loop s = pump_loop ?s"
    using Cons.prems by (subst pump_loop.simps) (simp add: pump_step_def)
  moreover note Cons.IH [of ?s] tap_frame_plain [OF f, of "s\<lparr>pt_tap := q @ t # rest\<rparr>"]
  moreover have "error_calls cs (f # q) = error_calls cs [f] @ error_calls cs q" for cs
    by (simp add: error_calls_def)
  moreover have "fatal_errors (f # q) = fatal_errors [f] + fatal_errors q" by (simp add: fatal_errors_def)
  ultimately show ?case using Cons.prems by (simp add: replicate_add)
qed

section \<open>Runs\<close>

definition submitted :: "'j task_label list \<Rightarrow> 'j frame list" where
  "submitted tr = concat (map (\<lambda>a. case a of Submit f \<Rightarrow> [f] | _ \<Rightarrow> []) tr)"

definition forwarded :: "'j task_label list \<Rightarrow> 'j frame list" where
  "forwarded tr = concat (map (\<lambda>a. case a of Forward f \<Rightarrow> [f] | _ \<Rightarrow> []) tr)"

lemma trace_simps [simp]:
  "submitted [] = []" "forwarded [] = []"
  "submitted (tr @ [a]) = submitted tr @ (case a of Submit f \<Rightarrow> [f] | _ \<Rightarrow> [])"
  "forwarded (tr @ [a]) = forwarded tr @ (case a of Forward f \<Rightarrow> [f] | _ \<Rightarrow> [])"
  by (simp_all add: submitted_def forwarded_def)

lemma pump_step_queue:
  "pump_step s = Some s' \<Longrightarrow>
     pt_queue s' = (if pt_cancelled s \<or> pt_queue s = [] then pt_queue s else tl (pt_queue s))"
  by (auto simp: pump_step_def split: if_splits list.splits)

lemma step_queue:
  "task_step s a s' \<Longrightarrow>
     pt_queue s @ (case a of Submit f \<Rightarrow> [f] | _ \<Rightarrow> []) = (case a of Forward f \<Rightarrow> [f] | _ \<Rightarrow> []) @ pt_queue s'"
  by (induction rule: task_step.induct)
    (auto simp: after_wait_def queue_send_def heartbeat_tick_def join_tasks_def dest!: pump_step_queue)

lemma run_fifo:
  "task_run s tr s' \<Longrightarrow> pt_queue s @ submitted tr = forwarded tr @ pt_queue s'"
proof (induction rule: task_run.induct)
  case (task_run_step s tr s' a s'')
  then show ?case using step_queue [of s' a s''] by (metis append.assoc trace_simps(3,4))
qed simp

text \<open>What the head channel receives: the forwarded frames, and those the task sends on its own.\<close>

definition task_own :: "'j frame \<Rightarrow> bool" where
  "task_own f \<longleftrightarrow> kind f = KCancel \<or> kind f = KHeartbeat"

lemma task_own_simps [simp]: "task_own (Cancel r)" "task_own (Heartbeat t)"
  by (simp_all add: task_own_def)

lemma shuffles_snoc_Nil: "ys @ [a] \<in> shuffles [a] ys" "ys @ [a] \<in> shuffles ys [a]"
  by (induction ys) (auto intro: Cons_in_shuffles_leftI Cons_in_shuffles_rightI)

lemma shuffles_snoc:
  "zs \<in> shuffles xs ys \<Longrightarrow> zs @ [a] \<in> shuffles (xs @ [a]) ys"
  "zs \<in> shuffles xs ys \<Longrightarrow> zs @ [a] \<in> shuffles xs (ys @ [a])"
proof -
  show "zs @ [a] \<in> shuffles (xs @ [a]) ys" if "zs \<in> shuffles xs ys" for zs
    using that
    by (induction xs ys arbitrary: zs rule: shuffles.induct)
      (auto simp: Cons_in_shuffles_rightI shuffles_snoc_Nil intro: Cons_in_shuffles_leftI Cons_in_shuffles_rightI)
  show "zs @ [a] \<in> shuffles xs (ys @ [a])" if "zs \<in> shuffles xs ys" for zs
    using that
    by (induction xs ys arbitrary: zs rule: shuffles.induct)
      (auto simp: Cons_in_shuffles_rightI shuffles_snoc_Nil intro: Cons_in_shuffles_leftI Cons_in_shuffles_rightI)
qed

lemma head_send_head:
  "pt_head (head_send f s) = pt_head s @ [fst (envelope_new (pt_next_id s) f Downstream)]"
  by (simp add: head_send_def Let_def case_prod_unfold)

lemma envelope_new_fields:
  "env_frame (fst (envelope_new n f d)) = f" "env_direction (fst (envelope_new n f d)) = d"
  by (simp_all add: envelope_new_def Let_def case_prod_unfold)

lemma tap_frame_head:
  "pt_head (tap_frame f x) = pt_head x \<or>
   (\<exists>e. pt_head (tap_frame f x) = pt_head x @ [e] \<and> env_direction e = Downstream \<and> env_frame e = Cancel None)"
  by (cases f) (simp_all add: tap_frame_def Let_def head_send_head envelope_new_fields)

lemma step_head:
  assumes "task_step s a s'"
  shows "pt_head s' = pt_head s \<and> forwarded [a] = [] \<or>
    (\<exists>e. pt_head s' = pt_head s @ [e] \<and> env_direction e = Downstream \<and>
       (forwarded [a] = [env_frame e] \<or> forwarded [a] = [] \<and> task_own (env_frame e)))"
  using assms
proof cases
  case pump_other
  then consider "pt_head s' = pt_head s" | "s' = (head_send (Cancel None) s)\<lparr>pt_phase := Draining (Some Cancelled)\<rparr>"
    | f fs where "s' = tap_frame f (s\<lparr>pt_tap := fs\<rparr>)"
    by (auto simp: pump_step_def split: if_splits list.splits)
  then show ?thesis
  proof cases
    case (3 f fs)
    then show ?thesis using tap_frame_head [of f "s\<lparr>pt_tap := fs\<rparr>"] pump_other(1) by (auto simp: forwarded_def)
  qed (simp_all add: pump_other(1) forwarded_def head_send_head envelope_new_fields)
qed (auto simp: forwarded_def after_wait_def queue_send_def join_tasks_def idle_tick_def Let_def pump_step_def
      head_send_head envelope_new_fields heartbeat_tick_def split: if_splits option.splits)

lemma run_head:
  assumes "task_run s tr s'"
  shows "\<exists>es own. pt_head s' = pt_head s @ es \<and> list_all (\<lambda>e. env_direction e = Downstream) es \<and>
    map env_frame es \<in> shuffles (forwarded tr) own \<and> list_all task_own own"
  using assms
proof (induction rule: task_run.induct)
  case (task_run_refl s)
  show ?case by (rule exI [of _ "[]"], rule exI [of _ "[]"]) simp
next
  case (task_run_step s tr s' a s'')
  then obtain es own where h: "pt_head s' = pt_head s @ es" "list_all (\<lambda>e. env_direction e = Downstream) es"
    "map env_frame es \<in> shuffles (forwarded tr) own" "list_all task_own own" by blast
  have tr: "forwarded (tr @ [a]) = forwarded tr @ forwarded [a]" by (simp add: forwarded_def)
  from step_head [OF task_run_step.hyps(2)] show ?case
  proof (elim disjE exE conjE)
    assume "pt_head s'' = pt_head s'" "forwarded [a] = []"
    then show ?thesis using h tr by auto
  next
    fix e assume e: "pt_head s'' = pt_head s' @ [e]" "env_direction e = Downstream" "forwarded [a] = [env_frame e]"
    show ?thesis using h e tr shuffles_snoc(1) [OF h(3), of "env_frame e"]
      by (intro exI [of _ "es @ [e]"] exI [of _ own]) simp
  next
    fix e assume e: "pt_head s'' = pt_head s' @ [e]" "env_direction e = Downstream" "forwarded [a] = []" "task_own (env_frame e)"
    show ?thesis using h e tr shuffles_snoc(2) [OF h(3), of "env_frame e"]
      by (intro exI [of _ "es @ [e]"] exI [of _ "own @ [env_frame e]"]) simp
  qed
qed

definition start_inv :: "'j pipe_task \<Rightarrow> 'j task_label list \<Rightarrow> 'j pipe_task \<Rightarrow> bool" where
  "start_inv s0 tr s \<longleftrightarrow>
     (\<forall>f\<in>set (pt_tap s). Tapped f \<in> set tr) \<and> (\<not> pt_tap_open s \<longrightarrow> TapClosed \<in> set tr) \<and>
     (pt_phase s = AwaitStart \<longrightarrow> pt_head s = pt_head s0) \<and>
     (pt_phase s = Pumping \<and> \<not> pt_cancelled s \<longrightarrow> (\<exists>ps. Tapped (Start ps) \<in> set tr) \<or> TapClosed \<in> set tr)"

lemma pump_step_start:
  "pump_step s = Some s' \<Longrightarrow>
     set (pt_tap s') \<subseteq> set (pt_tap s) \<and> pt_tap_open s' = pt_tap_open s \<and> pt_phase s = Pumping \<and>
     pt_phase s' \<noteq> AwaitStart \<and> pt_cancelled s' = pt_cancelled s"
proof -
  have t: "pt_tap_open (tap_frame f x) = pt_tap_open x \<and> (pt_phase x = Pumping \<longrightarrow> pt_phase (tap_frame f x) \<noteq> AwaitStart)"
    for f and x :: "'a pipe_task"
    by (cases f) (simp_all add: tap_frame_def Let_def)
  assume "pump_step s = Some s'"
  then show ?thesis using t by (auto simp: pump_step_def split: if_splits list.splits)
qed

lemma idle_tick_fields [simp]:
  "pt_tap (idle_tick s) = pt_tap s" "pt_tap_open (idle_tick s) = pt_tap_open s" "pt_phase (idle_tick s) = pt_phase s"
  "pt_cancelled (idle_tick s) = pt_cancelled s" "pt_head (idle_tick s) = pt_head s" "pt_params (idle_tick s) = pt_params s"
  "pt_idle (idle_tick s) = pt_idle s"
  by (simp_all add: idle_tick_def queue_send_def Let_def split: option.split)

lemma start_inv_step: "task_step s a s' \<Longrightarrow> start_inv s0 tr s \<Longrightarrow> start_inv s0 (tr @ [a]) s'"
  by (induction rule: task_step.induct)
    (auto simp: start_inv_def after_wait_def queue_send_def heartbeat_tick_def join_tasks_def dest!: pump_step_start)

lemma start_inv_run:
  "task_run s tr s' \<Longrightarrow> pt_phase s = AwaitStart \<Longrightarrow> pt_tap s = [] \<Longrightarrow> pt_tap_open s \<Longrightarrow> start_inv s tr s'"
proof (induction rule: task_run.induct)
  case (task_run_refl s)
  then show ?case by (simp add: start_inv_def)
next
  case (task_run_step s tr s' a s'')
  then show ?case using start_inv_step [of s' a s''] by simp
qed

lemma task_run_trans: "task_run s' tr' s'' \<Longrightarrow> task_run s tr s' \<Longrightarrow> task_run s (tr @ tr') s''"
proof (induction rule: task_run.induct)
  case (task_run_step s1 tr1 s2 a s3)
  then show ?case using task_run.task_run_step by (metis append.assoc)
qed simp

lemma task_run_one: "task_step s a s' \<Longrightarrow> task_run s [a] s'"
  using task_run_step [OF task_run_refl, of s a s'] by simp

lemma task_run_snoc: "task_run s (tr @ [a]) s'' \<Longrightarrow> \<exists>s'. task_run s tr s' \<and> task_step s' a s''"
  by (erule task_run.cases) auto

lemma task_run_split:
  "task_run s (tr @ a # tr') s'' \<Longrightarrow> \<exists>s1 s2. task_run s tr s1 \<and> task_step s1 a s2 \<and> task_run s2 tr' s''"
proof (induction tr' arbitrary: s'' rule: rev_induct)
  case Nil
  then show ?case using task_run_snoc task_run_refl by blast
next
  case (snoc b tr')
  then obtain s3 where "task_run s (tr @ a # tr') s3" "task_step s3 b s''"
    using task_run_snoc [of s "tr @ a # tr'" b s''] by auto
  then show ?case using snoc.IH task_run.task_run_step by blast
qed

inductive_cases forward_stepE: "task_step s (Forward f) s'"

section \<open>The idle watcher\<close>

definition idle_quiet :: "'j pipe_task \<Rightarrow> bool" where
  "idle_quiet s \<longleftrightarrow> io_counter (pt_idle s) = 0 \<and> (\<forall>c. pt_idle_watch s = Some c \<longrightarrow> c = 0)"

lemma pump_step_idle:
  "pump_step s = Some s' \<Longrightarrow> pt_idle s' = pt_idle s \<and> pt_idle_watch s' = pt_idle_watch s \<and> pt_params s' = pt_params s"
proof -
  have t: "pt_idle (tap_frame f x) = pt_idle x \<and> pt_idle_watch (tap_frame f x) = pt_idle_watch x \<and>
      pt_params (tap_frame f x) = pt_params x" for f and x :: "'a pipe_task"
    by (cases f) (simp_all add: tap_frame_def Let_def)
  assume "pump_step s = Some s'"
  then show ?thesis using t by (auto simp: pump_step_def split: if_splits list.splits)
qed

lemma idle_quiet_step:
  "task_step s a s' \<Longrightarrow> idle_quiet s \<Longrightarrow> (\<And>f. a = Observed f \<Longrightarrow> kind f \<notin> set (io_activity (pt_idle s))) \<Longrightarrow>
     idle_quiet s' \<and> pt_params s' = pt_params s \<and> io_activity (pt_idle s') = io_activity (pt_idle s)"
proof (induction rule: task_step.induct)
  case (idle_other s)
  then show ?case by (auto simp: idle_quiet_def idle_tick_def queue_send_def Let_def split: option.splits)
next
  case (idle_fires s f)
  then show ?case by (auto simp: idle_quiet_def idle_tick_def queue_send_def Let_def split: option.splits)
qed (auto simp: idle_quiet_def after_wait_def queue_send_def heartbeat_tick_def join_tasks_def idle_on_process_def
    dest!: pump_step_idle split: if_splits)

lemma idle_quiet_run:
  "task_run s tr s' \<Longrightarrow> idle_quiet s \<Longrightarrow> (\<And>f. Observed f \<in> set tr \<Longrightarrow> kind f \<notin> set (io_activity (pt_idle s))) \<Longrightarrow>
     idle_quiet s' \<and> pt_params s' = pt_params s \<and> io_activity (pt_idle s') = io_activity (pt_idle s)"
proof (induction rule: task_run.induct)
  case (task_run_step s tr s' a s'')
  then have "idle_quiet s' \<and> pt_params s' = pt_params s \<and> io_activity (pt_idle s') = io_activity (pt_idle s)" by simp
  then show ?case using idle_quiet_step [OF task_run_step.hyps(2)] task_run_step.prems(2) by simp
qed simp

section \<open>Callbacks\<close>

definition finish_calls :: "callback_call list \<Rightarrow> callback_call list" where
  "finish_calls cs = filter (\<lambda>c. case c of CallFinished _ _ \<Rightarrow> True | _ \<Rightarrow> False) cs"

definition finish_inv :: "'j pipe_task \<Rightarrow> bool" where
  "finish_inv s \<longleftrightarrow>
     (if pt_phase s = Joined
      then pt_finished s \<and> (\<exists>r. finish_calls (pt_calls s) = map (\<lambda>c. CallFinished c r) (pt_on_finished s))
      else \<not> pt_finished s \<and> finish_calls (pt_calls s) = [])"

lemma finish_calls_simps [simp]:
  "finish_calls [] = []" "finish_calls (xs @ ys) = finish_calls xs @ finish_calls ys"
  "finish_calls (map CallStarted cs) = []" "finish_calls (map CallIdleTimeout cs) = []"
  "finish_calls (map (\<lambda>c. CallError c msg fatal) cs) = []"
  "finish_calls (map (\<lambda>c. CallFinished c r) cs) = map (\<lambda>c. CallFinished c r) cs"
  by (simp_all add: finish_calls_def filter_empty_conv filter_id_conv)

lemma finish_inv_step: "task_step s a s' \<Longrightarrow> finish_inv s \<Longrightarrow> finish_inv s'"
proof (induction rule: task_step.induct)
  case (pump_queue s s' f fs)
  then show ?case by (auto simp: finish_inv_def pump_step_def head_send_def Let_def case_prod_unfold split: if_splits)
next
  case (pump_other s s')
  have t: "pt_phase (tap_frame f x) \<noteq> Joined \<and> pt_finished (tap_frame f x) = pt_finished x \<and>
      finish_calls (pt_calls (tap_frame f x)) = finish_calls (pt_calls x)" if "pt_phase x = Pumping"
    for f and x :: "'a pipe_task"
    using that by (cases f) (simp_all add: tap_frame_def Let_def)
  from pump_other show ?case
    by (auto simp: finish_inv_def pump_step_def t split: if_splits list.splits)
next
  case (idle_other s)
  then show ?case by (auto simp: finish_inv_def idle_tick_def queue_send_def Let_def split: option.splits)
next
  case (idle_fires s f)
  then show ?case by (auto simp: finish_inv_def idle_tick_def queue_send_def Let_def split: option.splits)
qed (auto simp: finish_inv_def after_wait_def queue_send_def heartbeat_tick_def join_tasks_def)

lemma finish_inv_run: "task_run s tr s' \<Longrightarrow> finish_inv s \<Longrightarrow> finish_inv s'"
  by (induction rule: task_run.induct) (use finish_inv_step in blast)+

section \<open>Properties\<close>

text \<open>C13. Start before everything else: in any run of a fresh task, no queued frame is forwarded to
  the head before a \<open>Start\<close> has come out of the Sink (every processor has started), unless the tap
  was closed by the death of the processors.\<close>

theorem start_reaches_sink_first:
  assumes "pt_phase s0 = AwaitStart" and "pt_tap s0 = []" and "pt_tap_open s0"
    and "task_run (run_begin s0) (xs @ Forward f # ys) s"
  shows "(\<exists>ps. Tapped (Start ps) \<in> set xs) \<or> TapClosed \<in> set xs"
proof -
  obtain s1 s2 where r: "task_run (run_begin s0) xs s1" "task_step s1 (Forward f) s2"
    using task_run_split [OF assms(4)] by blast
  have "start_inv (run_begin s0) xs s1"
    using start_inv_run [OF r(1)] assms(1-3) by (simp add: run_begin_def)
  moreover have "pt_phase s1 = Pumping \<and> \<not> pt_cancelled s1"
    using r(2) by (rule forward_stepE) (auto dest: pump_step_start)
  ultimately show ?thesis by (simp add: start_inv_def)
qed

theorem start_reaches_sink_first_witness:
  "(\<exists>ps. Tapped (Start ps) \<in> set [Submit LlmRun, Tapped (Start start_params_default), Quiet_Step]) \<or>
   TapClosed \<in> set [Submit LlmRun, Tapped (Start start_params_default), Quiet_Step :: unit task_label]"
proof -
  let ?s0 = "pipe_task_new task_params_default 1 :: unit pipe_task"
  let ?s1 = "queue_send LlmRun (run_begin ?s0)"
  let ?s2 = "?s1\<lparr>pt_tap := pt_tap ?s1 @ [Start start_params_default]\<rparr>"
  let ?s3 = "after_wait True (?s2\<lparr>pt_tap := []\<rparr>)"
  let ?s4 = "the (pump_step ?s3)"
  have f: "pt_phase ?s0 = AwaitStart" "pt_tap ?s0 = []" "pt_tap_open ?s0" by (simp_all add: pipe_task_new_def)
  have fs: "pt_phase ?s2 = AwaitStart" "pt_tap ?s2 = [Start start_params_default]" "pt_tap_open ?s1"
    by (simp_all add: queue_send_def run_begin_def f)
  have p: "pump_step ?s3 = Some ?s4" "\<not> pt_cancelled ?s3" "pt_queue ?s3 = [LlmRun]"
    by (simp_all add: after_wait_def queue_send_def run_begin_def pump_step_def pipe_task_new_def)
  have "task_run (run_begin ?s0) [Submit LlmRun] ?s1" by (rule task_run_one [OF submit])
  then have "task_run (run_begin ?s0) ([Submit LlmRun] @ [Tapped (Start start_params_default)]) ?s2"
    by (rule task_run_step) (rule tapped [OF fs(3)])
  then have "task_run (run_begin ?s0) (([Submit LlmRun] @ [Tapped (Start start_params_default)]) @ [Quiet_Step]) ?s3"
    by (rule task_run_step) (rule wait_ready [OF fs(1) fs(2)])
  then have "task_run (run_begin ?s0) ((([Submit LlmRun] @ [Tapped (Start start_params_default)]) @ [Quiet_Step]) @ [Forward LlmRun]) ?s4"
    by (rule task_run_step) (rule pump_queue [OF p(1) p(2) p(3)])
  then show ?thesis
    using start_reaches_sink_first [OF f, of "[Submit LlmRun, Tapped (Start start_params_default), Quiet_Step]" LlmRun "[]" ?s4]
    by simp
qed

text \<open>C15. The head queue loses, duplicates and reorders nothing: at any moment of any run the
  frames queued so far, by producers and by the idle watcher, are those already forwarded followed by those still queued;
  and what the head channel has received since are exactly the forwarded frames, in that order and downstream, with
  only the \<open>Cancel\<close>s and \<open>Heartbeat\<close>s the task sends on its own in between.\<close>

theorem head_queue_fifo:
  assumes "task_run s tr s'" and "pt_queue s = []"
  shows "submitted tr = forwarded tr @ pt_queue s' \<and>
    (\<exists>es own. pt_head s' = pt_head s @ es \<and> list_all (\<lambda>e. env_direction e = Downstream) es \<and>
       map env_frame es \<in> shuffles (forwarded tr) own \<and> list_all task_own own)"
  using run_fifo [OF assms(1)] run_head [OF assms(1)] assms(2) by simp

theorem head_queue_fifo_witness:
  "\<exists>s. task_run (run_begin (pipe_task_new task_params_default 1 :: unit pipe_task))
      [Submit LlmRun, Submit Stop, Tapped (Start start_params_default), Quiet_Step, Forward LlmRun] s \<and>
     pt_queue s = [Stop] \<and> map env_frame (pt_head s) = [Start (task_start_params task_params_default), LlmRun]"
proof -
  let ?s0 = "run_begin (pipe_task_new task_params_default 1 :: unit pipe_task)"
  let ?s1 = "queue_send Stop (queue_send LlmRun ?s0)"
  let ?s2 = "?s1\<lparr>pt_tap := pt_tap ?s1 @ [Start start_params_default]\<rparr>"
  let ?s3 = "after_wait True (?s2\<lparr>pt_tap := []\<rparr>)"
  let ?s4 = "the (pump_step ?s3)"
  have "task_run ?s0 ([Submit LlmRun] @ [Submit Stop]) ?s1" by (rule task_run_step [OF task_run_one [OF submit] submit])
  then have "task_run ?s0 (([Submit LlmRun] @ [Submit Stop]) @ [Tapped (Start start_params_default)]) ?s2"
    by (rule task_run_step) (rule tapped, simp add: queue_send_def run_begin_def pipe_task_new_def)
  then have "task_run ?s0 ((([Submit LlmRun] @ [Submit Stop]) @ [Tapped (Start start_params_default)]) @ [Quiet_Step]) ?s3"
    by (rule task_run_step) (rule wait_ready, simp_all add: queue_send_def run_begin_def pipe_task_new_def)
  then have "task_run ?s0 (((([Submit LlmRun] @ [Submit Stop]) @ [Tapped (Start start_params_default)]) @ [Quiet_Step]) @ [Forward LlmRun]) ?s4"
    by (rule task_run_step) (rule pump_queue, simp_all add: after_wait_def queue_send_def run_begin_def pump_step_def pipe_task_new_def)
  then have r: "task_run ?s0 [Submit LlmRun, Submit Stop, Tapped (Start start_params_default), Quiet_Step, Forward LlmRun] ?s4"
    by simp
  have h: "map env_frame (pt_head ?s4) = [Start (task_start_params task_params_default), LlmRun]"
    by (simp add: after_wait_def queue_send_def run_begin_def pump_step_def pipe_task_new_def)
  have "pt_queue ?s0 = []" by (simp add: run_begin_def pipe_task_new_def)
  from head_queue_fifo [OF r this] have "pt_queue ?s4 = [Stop]" by (simp add: submitted_def forwarded_def)
  then show ?thesis using r h by (intro exI [of _ ?s4]) (rule conjI, rule r, rule conjI)
qed

text \<open>C14. When a terminal frame is waiting on the Sink tap of a task that is not cancelled, the main
  loop ends, with the reason of the first terminal frame. By then every queued frame went to the
  head in order, every error before the terminal frame was reported to every error callback in
  order, and each fatal one sent a \<open>Cancel\<close> to the head.\<close>

theorem pump_loop_ends_on_terminal:
  assumes "pt_phase s = Pumping" and "\<not> pt_cancelled s" and "pt_tap s = q @ t # rest"
    and "\<forall>f\<in>set q. \<not> is_terminal f" and "is_terminal t"
  shows "pt_phase (pump_loop s) = Draining (Some (task_terminal_reason t)) \<and>
    pt_tap (pump_loop s) = rest \<and> pt_queue (pump_loop s) = [] \<and>
    pt_calls (pump_loop s) = pt_calls s @ error_calls (pt_on_error s) q \<and>
    map env_frame (pt_head (pump_loop s)) =
      map env_frame (pt_head s) @ pt_queue s @ replicate (fatal_errors q) (Cancel None)"
  using pump_queue_run [OF assms(1,2) refl]
    pump_tap_run [of "foldl (\<lambda>s f. head_send f s) (s\<lparr>pt_queue := []\<rparr>) (pt_queue s)" q t rest] assms
  by simp

theorem pump_loop_ends_on_terminal_witness:
  "pt_phase (pump_loop ((pipe_task_new task_params_default 1 :: unit pipe_task)\<lparr>pt_phase := Pumping,
     pt_queue := [LlmRun], pt_on_error := [4], pt_tap := [Error [98] True None, End None, Stop]\<rparr>)) =
     Draining (Some EndOfTask)"
  using pump_loop_ends_on_terminal [of "(pipe_task_new task_params_default 1 :: unit pipe_task)\<lparr>pt_phase := Pumping,
     pt_queue := [LlmRun], pt_on_error := [4], pt_tap := [Error [98] True None, End None, Stop]\<rparr>"
     "[Error [98] True None]" "End None" "[Stop]"]
  by (simp add: pipe_task_new_def is_terminal_def task_terminal_reason_def)

text \<open>Each finish callback is called exactly once, with one reason, and only when the task is
  over; \<open>has_finished\<close> holds from then on.\<close>

lemma finish_callbacks_once:
  assumes "task_run (run_begin s0) tr s" and "pt_phase s0 = AwaitStart" and "\<not> pt_finished s0" and "pt_calls s0 = []"
  shows "if pt_finished s
    then pt_phase s = Joined \<and> (\<exists>r. finish_calls (pt_calls s) = map (\<lambda>c. CallFinished c r) (pt_on_finished s))
    else pt_phase s \<noteq> Joined \<and> finish_calls (pt_calls s) = []"
proof -
  have "finish_inv (run_begin s0)" using assms(2-) by (simp add: finish_inv_def run_begin_def)
  from finish_inv_run [OF assms(1) this] show ?thesis by (auto simp: finish_inv_def split: if_splits)
qed

text \<open>The default idle configuration ends a busy call. The activity it waits for is
  \<open>BotSpeaking\<close> and \<open>UserSpeaking\<close>; in a run in which neither is observed, whatever else flows, the
  watcher's first tick queues a \<open>Cancel\<close>.\<close>

lemma default_idle_cancels:
  assumes "task_run (run_begin (pipe_task_new task_params_default n)) tr s"
    and "\<forall>f. Observed f \<in> set tr \<longrightarrow> kind f \<noteq> KBotSpeaking \<and> kind f \<noteq> KUserSpeaking"
    and "pt_idle_watch s \<noteq> None"
  shows "pt_queue (idle_tick s) = pt_queue s @ [Cancel (Some (lit ''idle timeout''))] \<and> pt_idle_fired (idle_tick s)"
proof -
  let ?s0 = "run_begin (pipe_task_new task_params_default n)"
  have "idle_quiet ?s0" by (simp add: idle_quiet_def run_begin_def pipe_task_new_def idle_observer_new_def)
  moreover have "set (io_activity (pt_idle ?s0)) = {KBotSpeaking, KUserSpeaking}" "pt_params ?s0 = task_params_default"
    by (simp_all add: run_begin_def pipe_task_new_def idle_observer_new_def task_params_default_def)
  ultimately have "idle_quiet s \<and> pt_params s = task_params_default"
    using idle_quiet_run [OF assms(1)] assms(2) by (metis insert_iff singletonD)
  then show ?thesis
    using assms(3) by (auto simp: idle_quiet_def idle_tick_def queue_send_def Let_def task_params_default_def)
qed

end
