(* ===== verification/Rtp.thy ===== *)
theory Rtp
  imports Flowcat_Prelude "HOL-Library.Monad_Syntax" "HOL-Library.Multiset"
begin

text \<open>
  RTP for G.711 telephony, \<^verbatim>\<open>flowcat-core/src/sip/rtp.rs\<close>: the packet
  builder \<open>packetize\<close>, the parser \<open>depacketize\<close> and the reorder window
  \<open>JitterBuffer\<close>. Sequence numbers and timestamps are words of their width; a panic
  (an index out of range, \<open>unwrap\<close> of \<open>None\<close>) is the outer \<open>None\<close>.

  The jitter buffer works on 16-bit sequence numbers that wrap. Its specification works on
  extended sequence numbers (integers that do not wrap); the refinement lemma holds as long as
  no packet is 32768 or more away from the packets it is compared with.
\<close>

section \<open>Packets\<close>

definition rtp_version :: u8 where "rtp_version = 2"
definition rtp_header_len :: nat where "rtp_header_len = 12"
definition pt_pcmu :: u8 where "pt_pcmu = 0"
definition pt_pcma :: u8 where "pt_pcma = 8"

record rtp_packet =
  payload_type :: u8
  seq :: u16
  timestamp :: u32
  ssrc :: u32
  marker :: bool
  payload :: "u8 list"

datatype rtp_parse_error = TooShort | BadVersion u8 | Truncated

record rtp_sender =
  s_ssrc :: u32
  s_payload_type :: u8
  s_seq :: u16
  s_timestamp :: u32

definition with_seeds :: "u8 \<Rightarrow> u32 \<Rightarrow> u16 \<Rightarrow> u32 \<Rightarrow> rtp_sender" where
  "with_seeds pt ss sq ts = \<lparr>s_ssrc = ss, s_payload_type = pt, s_seq = sq, s_timestamp = ts\<rparr>"

definition packetize :: "rtp_sender \<Rightarrow> u8 list \<Rightarrow> rtp_sender \<times> u8 list" where
  "packetize s pl =
     (s\<lparr>s_seq := s_seq s + 1, s_timestamp := s_timestamp s + of_nat (length pl)\<rparr>,
      [push_bit 6 rtp_version, s_payload_type s AND 0x7f] @ u16_to_be (s_seq s) @
      u32_to_be (s_timestamp s) @ u32_to_be (s_ssrc s) @ pl)"

text \<open>The parser, byte accesses in source order.\<close>

definition skip_extension :: "u8 list \<Rightarrow> nat \<Rightarrow> (rtp_parse_error + nat) option" where
  "skip_extension buf offset =
     (if length buf < offset + 4 then Some (Err Truncated)
      else do {
        e2 \<leftarrow> index buf (offset + 2);
        e3 \<leftarrow> index buf (offset + 3);
        let ext_words = unat (u16_from_be e2 e3);
        let offset' = offset + (4 + ext_words * 4);
        Some (if length buf < offset' then Err Truncated else Ok offset')
      })"

definition depacketize :: "u8 list \<Rightarrow> (rtp_parse_error + rtp_packet) option" where
  "depacketize buf =
     (if length buf < rtp_header_len then Some (Err TooShort)
      else do {
        b0 \<leftarrow> index buf 0;
        let version = drop_bit 6 b0;
        if version \<noteq> rtp_version then Some (Err (BadVersion version))
        else do {
          let has_extension = (b0 AND 0x10 \<noteq> 0);
          let csrc_count = unat (b0 AND 0x0f);
          b1 \<leftarrow> index buf 1;
          let mk = (b1 AND 0x80 \<noteq> 0);
          let pt = b1 AND 0x7f;
          b2 \<leftarrow> index buf 2; b3 \<leftarrow> index buf 3;
          b4 \<leftarrow> index buf 4; b5 \<leftarrow> index buf 5; b6 \<leftarrow> index buf 6; b7 \<leftarrow> index buf 7;
          b8 \<leftarrow> index buf 8; b9 \<leftarrow> index buf 9; b10 \<leftarrow> index buf 10; b11 \<leftarrow> index buf 11;
          let offset = rtp_header_len + csrc_count * 4;
          if length buf < offset then Some (Err Truncated)
          else do {
            r \<leftarrow> (if has_extension then skip_extension buf offset else Some (Ok offset));
            (case r of
               Inl e \<Rightarrow> Some (Err e)
             | Inr off \<Rightarrow>
                 if off \<le> length buf then
                   Some (Ok \<lparr>payload_type = pt, seq = u16_from_be b2 b3,
                     timestamp = u32_from_be b4 b5 b6 b7, ssrc = u32_from_be b8 b9 b10 b11,
                     marker = mk, payload = drop off buf\<rparr>)
                 else None)
          }
        }
      })"

section \<open>The jitter buffer\<close>

definition jitter_depth :: nat where "jitter_depth = 2"

record jitter_buffer =
  jb_buf :: "rtp_packet list"
  jb_depth :: nat
  last_released :: "u16 option"
  primed :: bool

definition jitter_with_depth :: "nat \<Rightarrow> jitter_buffer" where
  "jitter_with_depth d = \<lparr>jb_buf = [], jb_depth = max d 1, last_released = None, primed = False\<rparr>"

definition jitter_new :: jitter_buffer where
  "jitter_new = jitter_with_depth jitter_depth"

definition jitter_reset :: "jitter_buffer \<Rightarrow> jitter_buffer" where
  "jitter_reset j = j\<lparr>jb_buf := [], last_released := None, primed := False\<rparr>"

definition seq_lt :: "u16 \<Rightarrow> u16 \<Rightarrow> bool" where
  "seq_lt s reference \<longleftrightarrow> s \<noteq> reference \<and> s - reference > 0x8000"

text \<open>Insertion before the first element that satisfies a predicate.\<close>

fun insert_before :: "('a \<Rightarrow> bool) \<Rightarrow> 'a \<Rightarrow> 'a list \<Rightarrow> 'a list" where
  "insert_before P x [] = [x]"
| "insert_before P x (y # ys) = (if P y then x # y # ys else y # insert_before P x ys)"

lemma length_insert_before [simp]: "length (insert_before P x ys) = Suc (length ys)"
  by (induction ys) simp_all

text \<open>The release loop \<open>while buf.len() > depth\<close>.\<close>

function release_over :: "jitter_buffer \<Rightarrow> jitter_buffer \<times> rtp_packet list" where
  "release_over j =
     (if jb_depth j < length (jb_buf j) then
        let p = hd (jb_buf j);
            (j', out) = release_over (j\<lparr>jb_buf := tl (jb_buf j), last_released := Some (seq p), primed := True\<rparr>)
        in (j', p # out)
      else (j, []))"
  by pat_completeness auto
termination
  by (relation "measure (\<lambda>j. length (jb_buf j))") auto

declare release_over.simps [simp del]

definition jitter_push :: "jitter_buffer \<Rightarrow> rtp_packet \<Rightarrow> (jitter_buffer \<times> rtp_packet list) option" where
  "jitter_push j pkt = do {
     late \<leftarrow> (if primed j then do {
                last \<leftarrow> last_released j;
                Some (seq pkt = last \<or> seq_lt (seq pkt) last)
              } else Some False);
     if late then Some (j, [])
     else if list_ex (\<lambda>p. seq p = seq pkt) (jb_buf j) then Some (j, [])
     else Some (release_over
            (j\<lparr>jb_buf := insert_before (\<lambda>p. seq_lt (seq pkt) (seq p)) pkt (jb_buf j)\<rparr>))
   }"

definition jitter_drain :: "jitter_buffer \<Rightarrow> jitter_buffer \<times> rtp_packet list" where
  "jitter_drain j =
     (let out = jb_buf j; j' = j\<lparr>jb_buf := []\<rparr>
      in (if out = [] then j' else j'\<lparr>last_released := Some (seq (last out)), primed := True\<rparr>, out))"

text \<open>A stream of packets and the final flush.\<close>

fun jitter_run :: "jitter_buffer \<Rightarrow> rtp_packet list \<Rightarrow> (jitter_buffer \<times> rtp_packet list) option" where
  "jitter_run j [] = Some (j, [])"
| "jitter_run j (p # ps) = do {
     (j1, out) \<leftarrow> jitter_push j p;
     (j2, out') \<leftarrow> jitter_run j1 ps;
     Some (j2, out @ out')
   }"

section \<open>Round trip and totality of the parser\<close>

lemma skip_extension_total: "\<exists>r. skip_extension buf off = Some r \<and> (\<forall>o'. r = Ok o' \<longrightarrow> o' \<le> length buf)"
  by (auto simp: skip_extension_def Let_def)

lemma header_bits:
  "drop_bit 6 (push_bit 6 rtp_version) = rtp_version"
  "push_bit 6 rtp_version AND 0x10 = 0" "push_bit 6 rtp_version AND 0x0f = 0"
  by (simp_all add: rtp_version_def)

lemma drop_length_append: "drop (length xs) (xs @ ys) = ys"
  by simp

text \<open>Any packet RFC 3550 allows without padding, as bytes: up to 15 contributing sources
  and an optional header extension of 32-bit words.\<close>

definition wire_b0 :: "bool \<Rightarrow> nat \<Rightarrow> u8" where
  "wire_b0 ext n = push_bit 6 rtp_version OR (if ext then 0x10 else 0) OR of_nat n"

definition wire_ext :: "(u16 \<times> u32 list) option \<Rightarrow> u8 list" where
  "wire_ext ext =
     (case ext of
        None \<Rightarrow> []
      | Some (profile, ws) \<Rightarrow> u16_to_be profile @ u16_to_be (of_nat (length ws)) @ concat (map u32_to_be ws))"

definition wire :: "rtp_packet \<Rightarrow> u32 list \<Rightarrow> (u16 \<times> u32 list) option \<Rightarrow> u8 list" where
  "wire p csrcs ext =
     [wire_b0 (ext \<noteq> None) (length csrcs),
      (if marker p then 0x80 else 0) OR (payload_type p AND 0x7f)] @
     u16_to_be (seq p) @ u32_to_be (timestamp p) @ u32_to_be (ssrc p) @
     concat (map u32_to_be csrcs) @ wire_ext ext @ payload p"

lemma wire_b0_bits:
  assumes "n < 16"
  shows "drop_bit 6 (wire_b0 ext n) = rtp_version"
    and "(wire_b0 ext n AND 0x10 \<noteq> 0) = ext"
    and "unat (wire_b0 ext n AND 0x0f) = n"
proof -
  have "\<forall>n \<in> set [0..<16]. drop_bit 6 (wire_b0 ext n) = rtp_version \<and>
      (wire_b0 ext n AND 0x10 \<noteq> 0) = ext \<and> unat (wire_b0 ext n AND 0x0f) = n"
    by (cases ext) (simp_all add: wire_b0_def rtp_version_def upt_rec)
  with assms show "drop_bit 6 (wire_b0 ext n) = rtp_version"
    and "(wire_b0 ext n AND 0x10 \<noteq> 0) = ext" and "unat (wire_b0 ext n AND 0x0f) = n"
    by auto
qed

lemma wire_b1_bits:
  "((if mk then 0x80 else 0) OR (pt AND 0x7f) :: u8) AND 0x7f = pt AND 0x7f"
  "(((if mk then 0x80 else 0) OR (pt AND 0x7f) :: u8) AND 0x80 \<noteq> 0) = mk"
proof -
  have "(0x80 :: u8) AND 0x7f = 0" "(pt AND 0x7f) AND 0x80 = (0 :: u8)"
    by (simp_all add: and.assoc)
  then show "((if mk then 0x80 else 0) OR (pt AND 0x7f) :: u8) AND 0x7f = pt AND 0x7f"
    and "(((if mk then 0x80 else 0) OR (pt AND 0x7f) :: u8) AND 0x80 \<noteq> 0) = mk"
    by (simp_all add: bit.conj_disj_distrib2 and.assoc)
qed

lemma length_concat_u32 [simp]: "length (concat (map u32_to_be ws)) = 4 * length ws"
  by (induction ws) simp_all

text \<open>What the parser does once the fixed header is there.\<close>

definition parse_tail :: "u8 list \<Rightarrow> (rtp_parse_error + nat) option" where
  "parse_tail buf =
     (let offset = 12 + unat (buf ! 0 AND 0x0f) * 4
      in if length buf < offset then Some (Err Truncated)
         else if buf ! 0 AND 0x10 \<noteq> 0 then skip_extension buf offset else Some (Ok offset))"

definition header_packet :: "u8 list \<Rightarrow> nat \<Rightarrow> rtp_packet" where
  "header_packet buf off =
     \<lparr>payload_type = buf ! 1 AND 0x7f, seq = u16_from_be (buf ! 2) (buf ! 3),
      timestamp = u32_from_be (buf ! 4) (buf ! 5) (buf ! 6) (buf ! 7),
      ssrc = u32_from_be (buf ! 8) (buf ! 9) (buf ! 10) (buf ! 11),
      marker = (buf ! 1 AND 0x80 \<noteq> 0), payload = drop off buf\<rparr>"

lemma header_indices:
  fixes b0 b1 :: u8 and sq :: u16 and ts ss :: u32
  defines "h \<equiv> [b0, b1] @ u16_to_be sq @ u32_to_be ts @ u32_to_be ss"
  shows "length h = 12"
    and "(h @ rest) ! 0 = b0" "(h @ rest) ! 1 = b1"
    and "header_packet (h @ rest) off =
      \<lparr>payload_type = b1 AND 0x7f, seq = sq, timestamp = ts, ssrc = ss,
       marker = (b1 AND 0x80 \<noteq> 0), payload = drop off (h @ rest)\<rparr>"
  by (simp_all add: h_def header_packet_def u16_to_be_def u32_to_be_def u16_be_round u32_be_round)

lemma parse_tail_total: "\<exists>r. parse_tail buf = Some r \<and> (\<forall>o'. r = Ok o' \<longrightarrow> o' \<le> length buf)"
  using skip_extension_total [of buf] by (auto simp: parse_tail_def Let_def)

lemma depacketize_header:
  assumes "12 \<le> length buf"
  shows "depacketize buf =
    (if drop_bit 6 (buf ! 0) \<noteq> rtp_version then Some (Err (BadVersion (drop_bit 6 (buf ! 0))))
     else map_option (map_sum id (header_packet buf)) (parse_tail buf))"
proof -
  have ix: "i < 12 \<Longrightarrow> index buf i = Some (buf ! i)" for i using assms by simp
  obtain r where r: "parse_tail buf = Some r" "\<forall>o'. r = Ok o' \<longrightarrow> o' \<le> length buf"
    using parse_tail_total by blast
  then show ?thesis
    using assms
    by (cases r) (auto simp: depacketize_def rtp_header_len_def ix Let_def parse_tail_def
        header_packet_def not_less split: if_splits)
qed

lemma depacketize_short: "length buf < 12 \<Longrightarrow> depacketize buf = Some (Err TooShort)"
  by (simp add: depacketize_def rtp_header_len_def)

lemma skip_extension_wire:
  assumes "length ws < 65536" and "length pre = off"
  shows "skip_extension (pre @ wire_ext (Some (profile, ws)) @ pl) off = Some (Ok (off + 4 + 4 * length ws))"
proof -
  let ?buf = "pre @ wire_ext (Some (profile, ws)) @ pl"
  let ?n = "of_nat (length ws) :: u16"
  have n: "unat ?n = length ws"
    using assms(1) by (simp add: unat_of_nat take_bit_nat_eq_self)
  have "index ?buf (off + 2) = Some (ucast (drop_bit 8 ?n))" "index ?buf (off + 3) = Some (ucast ?n)"
    using assms(2) by (simp_all add: index_def wire_ext_def u16_to_be_def nth_append)
  then show ?thesis
    using assms(2) by (simp add: skip_extension_def u16_be_round n) (simp add: wire_ext_def)
qed

text \<open>The length of the header a datagram claims to have.\<close>

definition claimed_header_len :: "u8 list \<Rightarrow> nat" where
  "claimed_header_len buf =
     (let offset = 12 + unat (buf ! 0 AND 0x0f) * 4
      in if buf ! 0 AND 0x10 = 0 then offset
         else if length buf < offset + 4 then offset + 4
         else offset + 4 + unat (u16_from_be (buf ! (offset + 2)) (buf ! (offset + 3))) * 4)"

lemma parse_tail_claimed:
  "parse_tail buf =
     Some (if length buf < claimed_header_len buf then Err Truncated else Ok (claimed_header_len buf))"
  by (auto simp: parse_tail_def claimed_header_len_def skip_extension_def Let_def)

lemma depacketize_of_wire:
  assumes "length csrcs < 16" and "\<forall>profile ws. ext = Some (profile, ws) \<longrightarrow> length ws < 65536"
    and "payload_type p < 128"
  shows "depacketize (wire p csrcs ext) = Some (Ok p)"
proof -
  let ?b0 = "wire_b0 (ext \<noteq> None) (length csrcs)"
  let ?b1 = "(if marker p then 0x80 else 0) OR (payload_type p AND 0x7f)"
  let ?h = "[?b0, ?b1] @ u16_to_be (seq p) @ u32_to_be (timestamp p) @ u32_to_be (ssrc p)"
  let ?pre = "?h @ concat (map u32_to_be csrcs)"
  let ?off = "12 + length csrcs * 4"
  have w: "wire p csrcs ext = ?h @ concat (map u32_to_be csrcs) @ wire_ext ext @ payload p"
    by (simp add: wire_def)
  have pt: "payload_type p AND 0x7f = payload_type p"
    using assms(3) less_mask_eq [of "payload_type p" 7] by (simp add: mask_eq_exp_minus_1)
  note h = header_indices [of ?b0 ?b1 "seq p" "timestamp p" "ssrc p"]
  have tail: "parse_tail (wire p csrcs ext) = Some (Ok (length (?pre @ wire_ext ext)))"
  proof (cases ext)
    case None
    then show ?thesis
      using wire_b0_bits [OF assms(1), of False]
      unfolding w parse_tail_def h(2) by (simp add: wire_ext_def)
  next
    case (Some e)
    then obtain profile ws where e: "ext = Some (profile, ws)" by (cases e) auto
    have "skip_extension (?pre @ wire_ext ext @ payload p) ?off = Some (Ok (?off + 4 + 4 * length ws))"
      unfolding e using assms(2) e by (intro skip_extension_wire) simp_all
    then show ?thesis
      using wire_b0_bits [OF assms(1), of True] e
      unfolding w parse_tail_def h(2) by (simp add: wire_ext_def algebra_simps split del: if_split)
  qed
  have dr: "drop (length (?pre @ wire_ext ext)) (?h @ concat (map u32_to_be csrcs) @ wire_ext ext @ payload p) =
      payload p"
    using drop_length_append [of "?pre @ wire_ext ext" "payload p"] by (simp only: append_assoc)
  have "header_packet (wire p csrcs ext) (length (?pre @ wire_ext ext)) = p"
    unfolding w h(4) wire_b1_bits dr unfolding pt by simp
  moreover have "12 \<le> length (wire p csrcs ext)" by (simp add: w)
  moreover have "drop_bit 6 (wire p csrcs ext ! 0) = rtp_version"
    unfolding w h(2) by (rule wire_b0_bits [OF assms(1)])
  ultimately show ?thesis using tail by (simp add: depacketize_header)
qed

section \<open>Properties of the packet format\<close>

text \<open>The parser returns the real payload of every RTP packet: whatever contributing
  sources (up to 15) and header extension a peer adds, \<open>depacketize\<close> recovers the header
  fields and the payload.\<close>

lemma depacketize_wire:
  assumes "length csrcs < 16" and "\<forall>profile ws. ext = Some (profile, ws) \<longrightarrow> length ws < 65536"
    and "payload_type p < 128"
  shows "depacketize (wire p csrcs ext) = Some (Ok p)"
  using assms by (rule depacketize_of_wire)

text \<open>Parsing never panics: every datagram gives a packet or an error. It is too short
  below 12 bytes, has a bad version if the top two bits are not 2, is truncated if the header it
  claims is longer than the datagram, and otherwise the payload is what follows that header.\<close>

lemma depacketize_total:
  "depacketize buf = Some
     (if length buf < 12 then Err TooShort
      else if drop_bit 6 (buf ! 0) \<noteq> 2 then Err (BadVersion (drop_bit 6 (buf ! 0)))
      else if length buf < claimed_header_len buf then Err Truncated
      else Ok (header_packet buf (claimed_header_len buf)))"
proof (cases "length buf < 12")
  case True
  then show ?thesis by (simp add: depacketize_short)
next
  case False
  then show ?thesis
    by (simp add: depacketize_header parse_tail_claimed rtp_version_def)
qed

section \<open>The jitter buffer on extended sequence numbers\<close>

definition near :: "int \<Rightarrow> int \<Rightarrow> bool" where
  "near a b \<longleftrightarrow> \<bar>a - b\<bar> < 32768"

lemma uint_of_int16: "uint (word_of_int k :: u16) = k mod 65536"
  by (simp add: uint_word_of_int)

lemma near_mod:
  assumes "near a b"
  shows "(a - b) mod 65536 = (if a < b then a - b + 65536 else a - b)"
proof (cases "a < b")
  case True
  have "(a - b) mod 65536 = (a - b + 65536) mod 65536" by simp
  also have "\<dots> = a - b + 65536" using True assms by (intro mod_pos_pos_trivial) (auto simp: near_def)
  finally show ?thesis using True by simp
next
  case False
  then show ?thesis using assms by (simp add: near_def)
qed

lemma near_seq:
  assumes "near a b"
  shows "word_of_int a = (word_of_int b :: u16) \<longleftrightarrow> a = b"
    and "seq_lt (word_of_int a) (word_of_int b) \<longleftrightarrow> a < b"
proof -
  have d: "word_of_int a - word_of_int b = (word_of_int (a - b) :: u16)" by simp
  have "word_of_int a = (word_of_int b :: u16) \<longleftrightarrow> uint (word_of_int (a - b) :: u16) = 0"
    by (simp add: uint_0_iff del: uint_word_of_int)
  then show eq: "word_of_int a = (word_of_int b :: u16) \<longleftrightarrow> a = b"
    unfolding uint_of_int16 near_mod [OF assms] using assms by (auto simp: near_def)
  have "(word_of_int (a - b) :: u16) > 0x8000 \<longleftrightarrow> uint (0x8000 :: u16) < uint (word_of_int (a - b) :: u16)"
    by (rule word_less_def)
  then have "(word_of_int (a - b) :: u16) > 0x8000 \<longleftrightarrow> 32768 < (if a < b then a - b + 65536 else a - b)"
    unfolding uint_of_int16 near_mod [OF assms] by simp
  then show "seq_lt (word_of_int a) (word_of_int b) \<longleftrightarrow> a < b"
    unfolding seq_lt_def d eq using assms by (auto simp: near_def)
qed

lemma release_over_eq:
  "release_over j =
     (let k = length (jb_buf j) - jb_depth j
      in (if k = 0 then j
          else j\<lparr>jb_buf := drop k (jb_buf j), last_released := Some (seq (jb_buf j ! (k - 1))), primed := True\<rparr>,
          take k (jb_buf j)))"
proof (induction j rule: release_over.induct)
  case (1 j)
  show ?case
  proof (cases "jb_depth j < length (jb_buf j)")
    case True
    then obtain p b where b: "jb_buf j = p # b" by (cases "jb_buf j") auto
    obtain k where k: "length b = jb_depth j + k" using True b by (auto intro: that [of "length b - jb_depth j"])
    then show ?thesis
      using "1.IH" [OF True refl] True b
      by (subst release_over.simps) (cases k, auto simp: Let_def Suc_diff_le)
  next
    case False
    then show ?thesis by (subst release_over.simps) simp
  qed
qed

text \<open>The specification: a buffer of packets with extended numbers, sorted, and the number
  of the last packet released.\<close>

type_synonym ext = "int \<times> rtp_packet"

definition spec_drops :: "int option \<Rightarrow> ext list \<Rightarrow> int \<Rightarrow> bool" where
  "spec_drops l b x \<longleftrightarrow> (case l of None \<Rightarrow> False | Some m \<Rightarrow> x \<le> m) \<or> x \<in> fst ` set b"

definition spec_push :: "nat \<Rightarrow> int option \<times> ext list \<Rightarrow> ext \<Rightarrow> (int option \<times> ext list) \<times> ext list" where
  "spec_push d st e =
     (let (l, b) = st
      in if spec_drops l b (fst e) then (st, [])
         else let b' = insort_key fst e b; k = length b' - d
              in ((if k = 0 then l else Some (fst (b' ! (k - 1))), drop k b'), take k b'))"

text \<open>What it means for a jitter buffer to represent a specification state.\<close>

definition jitter_abs :: "nat \<Rightarrow> jitter_buffer \<Rightarrow> int option \<times> ext list \<Rightarrow> bool" where
  "jitter_abs d j st \<longleftrightarrow>
     jb_depth j = d \<and> jb_buf j = map snd (snd st) \<and>
     last_released j = map_option word_of_int (fst st) \<and> primed j = (fst st \<noteq> None) \<and>
     (\<forall>(x, p) \<in> set (snd st). seq p = word_of_int x)"

lemma insert_before_insort:
  assumes "\<forall>(y, q) \<in> set b. near x y \<and> seq q = word_of_int y" and "x \<notin> fst ` set b"
    and "seq p = word_of_int x"
  shows "insert_before (\<lambda>q. seq_lt (seq p) (seq q)) p (map snd b) = map snd (insort_key fst (x, p) b)"
  using assms
proof (induction b)
  case (Cons a b)
  obtain y q where a: "a = (y, q)" by (cases a)
  have "near x y" "seq q = word_of_int y" "x \<noteq> y" using Cons.prems a by auto
  then have "seq_lt (seq p) (seq q) \<longleftrightarrow> x \<le> y" using near_seq(2) Cons.prems(3) by fastforce
  moreover have "insert_before (\<lambda>q. seq_lt (seq p) (seq q)) p (map snd b) = map snd (insort_key fst (x, p) b)"
    using Cons by auto
  ultimately show ?case by (simp add: a)
qed simp

text \<open>The refinement: on a packet near everything it is compared with, the 16-bit buffer does
  what the specification does on extended numbers.\<close>

lemma jitter_push_refines:
  assumes abs: "jitter_abs d j (l, b)" and sq: "seq p = word_of_int x"
    and nb: "\<forall>(y, q) \<in> set b. near x y" and nl: "\<forall>m. l = Some m \<longrightarrow> near x m"
    and sp: "spec_push d (l, b) (x, p) = (st', out)"
  shows "\<exists>j'. jitter_push j p = Some (j', map snd out) \<and> jitter_abs d j' st'"
proof -
  have j: "jb_depth j = d" "jb_buf j = map snd b" "last_released j = map_option word_of_int l"
    "primed j = (l \<noteq> None)" and wf: "\<forall>(y, q) \<in> set b. seq q = word_of_int y"
    using abs by (auto simp: jitter_abs_def)
  have late: "(case l of None \<Rightarrow> False | Some m \<Rightarrow> seq p = word_of_int m \<or> seq_lt (seq p) (word_of_int m)) =
      (case l of None \<Rightarrow> False | Some m \<Rightarrow> x \<le> m)"
    using nl near_seq [of x] by (auto simp: sq split: option.splits)
  have dup: "list_ex (\<lambda>q. seq q = seq p) (map snd b) \<longleftrightarrow> x \<in> fst ` set b"
  proof -
    have "seq (snd e) = seq p \<longleftrightarrow> fst e = x" if "e \<in> set b" for e
    proof -
      have "near x (fst e)" "seq (snd e) = word_of_int (fst e)"
        using bspec [OF wf that] bspec [OF nb that] by (simp_all add: case_prod_unfold)
      then show ?thesis using near_seq(1) [of x "fst e"] sq by simp metis
    qed
    then show ?thesis by (auto simp: list_ex_iff image_iff)
  qed
  have push: "jitter_push j p =
     (if spec_drops l b x then Some (j, [])
      else Some (release_over (j\<lparr>jb_buf := insert_before (\<lambda>q. seq_lt (seq p) (seq q)) p (map snd b)\<rparr>)))"
    unfolding spec_drops_def late [symmetric] dup [symmetric]
    by (cases l) (auto simp: jitter_push_def j split: option.splits)
  show ?thesis
  proof (cases "spec_drops l b x")
    case True
    then show ?thesis using push sp abs by (auto simp: spec_push_def)
  next
    case False
    have ins: "insert_before (\<lambda>q. seq_lt (seq p) (seq q)) p (map snd b) = map snd (insort_key fst (x, p) b)"
      using False nb wf sq by (intro insert_before_insort) (auto simp: spec_drops_def)
    let ?b' = "insort_key fst (x, p) b"
    let ?k = "length ?b' - d"
    have wf': "\<forall>(y, q) \<in> set ?b'. seq q = word_of_int y" using wf sq by (auto simp: set_insort_key)
    have nth: "seq (snd (?b' ! i)) = word_of_int (fst (?b' ! i))" if "i < length ?b'" for i
      using bspec [OF wf' nth_mem [OF that]] by (simp add: case_prod_unfold)
    have eq: "st' = (if ?k = 0 then l else Some (fst (?b' ! (?k - 1))), drop ?k ?b')" "out = take ?k ?b'"
      using sp False by (auto simp: spec_push_def Let_def)
    have wfd: "\<forall>(y, q) \<in> set (drop ?k ?b'). seq q = word_of_int y"
      using wf' by (meson in_set_dropD)
    have idx: "?k \<noteq> 0 \<Longrightarrow> ?k - 1 < length ?b'" by simp
    show ?thesis
      using push False nth idx wfd
      by (auto simp: ins release_over_eq Let_def j jitter_abs_def eq take_map drop_map)
  qed
qed

section \<open>Streams with bounded reordering\<close>

text \<open>How many of the numbers seen so far lie above one of them.\<close>

definition above :: "int list \<Rightarrow> int \<Rightarrow> nat" where
  "above ys x = length (filter (\<lambda>z. x < z) (remdups ys))"

lemma above_card: "above ys x = card {z \<in> set ys. x < z}"
proof -
  have "set (filter (\<lambda>z. x < z) (remdups ys)) = {z \<in> set ys. x < z}" by auto
  then show ?thesis unfolding above_def by (metis distinct_card distinct_filter distinct_remdups)
qed

text \<open>A stream a buffer of depth \<open>d\<close> can put in order: each packet carries the low 16
  bits of its extended number, is a repetition or overtaken by at most \<open>d\<close> packets, and is
  less than 32768 away from the \<open>d + 1\<close> highest numbers seen so far.\<close>

fun ok_stream :: "nat \<Rightarrow> int list \<Rightarrow> ext list \<Rightarrow> bool" where
  "ok_stream d ys [] = True"
| "ok_stream d ys ((x, p) # es) =
     (seq p = word_of_int x \<and> (\<forall>y \<in> set ys. above ys y \<le> d \<longrightarrow> near x y) \<and>
      (x \<in> set ys \<or> above ys x \<le> d) \<and> ok_stream d (ys @ [x]) es)"

definition spec_inv :: "nat \<Rightarrow> int list \<Rightarrow> int option \<times> ext list \<Rightarrow> ext list \<Rightarrow> bool" where
  "spec_inv d ys st es \<longleftrightarrow>
     sorted_wrt (<) (map fst (es @ snd st)) \<and> fst ` set (es @ snd st) = set ys \<and>
     fst st = (if es = [] then None else Some (fst (last es))) \<and>
     length (snd st) \<le> d \<and> (es \<noteq> [] \<longrightarrow> length (snd st) = d)"

lemma spec_invD:
  assumes "spec_inv d ys (l, b) es"
  shows "fst ` set es \<union> fst ` set b = set ys"
    and "y \<in> fst ` set es \<Longrightarrow> z \<in> fst ` set b \<Longrightarrow> y < z"
    and "es = es' @ [e] \<Longrightarrow> y \<in> fst ` set es \<Longrightarrow> y \<le> fst e"
    and "length b \<le> d"
  using assms by (auto simp: spec_inv_def image_Un sorted_wrt_append)

lemma spec_inv_above:
  assumes "spec_inv d ys (l, b) es"
  shows "y \<in> fst ` set b \<Longrightarrow> y \<in> set ys \<and> above ys y \<le> d"
    and "l = Some m \<Longrightarrow> m \<in> set ys \<and> above ys m \<le> d"
proof -
  note sets = spec_invD(1) [OF assms]
  have card: "card (fst ` set b) \<le> d"
    using spec_invD(4) [OF assms] card_image_le [of "set b" fst] card_length [of b] by simp
  have bound: "above ys y \<le> d" if "\<And>z. z \<in> fst ` set es \<Longrightarrow> \<not> y < z" for y
  proof -
    have "{z \<in> set ys. y < z} \<subseteq> fst ` set b" using that sets by blast
    then show ?thesis unfolding above_card using card by (meson List.finite_set card_mono finite_imageI le_trans)
  qed
  show "y \<in> set ys \<and> above ys y \<le> d" if y: "y \<in> fst ` set b"
  proof (rule conjI)
    show "y \<in> set ys" using y sets by blast
    show "above ys y \<le> d" using spec_invD(2) [OF assms _ y] by (intro bound) (meson less_asym)
  qed
  show "m \<in> set ys \<and> above ys m \<le> d" if "l = Some m"
  proof -
    have m: "es \<noteq> []" "m = fst (last es)" using assms that by (auto simp: spec_inv_def split: if_splits)
    then have es: "es = butlast es @ [last es]" by simp
    have "m \<in> fst ` set es" using m by simp
    then show ?thesis
      using sets spec_invD(3) [OF assms es] m(2) by (intro conjI bound) (blast, simp add: not_less)
  qed
qed

lemma spec_inv_drops:
  assumes inv: "spec_inv d ys (l, b) es" and x: "x \<in> set ys \<or> above ys x \<le> d"
  shows "spec_drops l b x \<longleftrightarrow> x \<in> set ys"
proof
  assume "x \<in> set ys"
  moreover have "fst ` set es \<union> fst ` set b = set ys" using inv by (simp add: spec_inv_def image_Un)
  ultimately consider "x \<in> fst ` set es" | "x \<in> fst ` set b" by blast
  then show "spec_drops l b x"
  proof cases
    case 1
    then have "es \<noteq> []" by auto
    moreover obtain es' e where es: "es = es' @ [e]" using 1 by (metis append_butlast_last_id empty_iff empty_set image_is_empty)
    moreover have "x \<le> fst e"
      using 1 inv by (fastforce simp: spec_inv_def es sorted_wrt_append)
    ultimately show ?thesis using inv by (auto simp: spec_drops_def spec_inv_def)
  qed (simp add: spec_drops_def)
next
  assume drop: "spec_drops l b x"
  show "x \<in> set ys"
  proof (rule ccontr)
    assume nx: "x \<notin> set ys"
    with x have ab: "above ys x \<le> d" by simp
    have "x \<notin> fst ` set b" using nx inv by (auto simp: spec_inv_def)
    with drop obtain m where m: "l = Some m" "x \<le> m" by (auto simp: spec_drops_def split: option.splits)
    then have ne: "es \<noteq> []" "m = fst (last es)" using inv by (auto simp: spec_inv_def split: if_splits)
    have "m \<in> set ys" using spec_inv_above(2) [OF inv m(1)] by simp
    then have "x < m" using m(2) nx by (cases "x = m") auto
    have gt: "\<And>z. z \<in> fst ` set b \<Longrightarrow> m < z"
      using spec_invD(2) [OF inv, of m] ne by simp
    have "insert m (fst ` set b) \<subseteq> {z \<in> set ys. x < z}"
      using \<open>x < m\<close> \<open>m \<in> set ys\<close> gt spec_invD(1) [OF inv] order_less_trans by blast
    then have "card (insert m (fst ` set b)) \<le> above ys x"
      unfolding above_card by (intro card_mono) auto
    moreover have "m \<notin> fst ` set b" using gt by blast
    moreover have "card (fst ` set b) = d"
    proof -
      have "distinct (map fst b)" using inv by (auto simp: spec_inv_def sorted_wrt_append strict_sorted_iff)
      then show ?thesis using inv ne(1) distinct_card [of "map fst b"] by (simp add: spec_inv_def)
    qed
    ultimately show False using ab by simp
  qed
qed

lemma sorted_insort_fst:
  assumes "sorted_wrt (<) (map fst b)" and "x \<notin> fst ` set b"
  shows "sorted_wrt (<) (map fst (insort_key fst (x, p) b))"
  using assms by (induction b) (auto simp: set_insort_key)

lemma spec_inv_step:
  assumes inv: "spec_inv d ys (l, b) es" and x: "x \<in> set ys \<or> above ys x \<le> d" and d: "0 < d"
    and push: "spec_push d (l, b) (x, p) = (st', out)"
  shows "spec_inv d (ys @ [x]) st' (es @ out) \<and> set (out @ snd st') \<subseteq> insert (x, p) (set b)"
proof (cases "x \<in> set ys")
  case True
  then have "spec_drops l b x" using spec_inv_drops [OF inv x] by simp
  then have "st' = (l, b)" "out = []" using push by (auto simp: spec_push_def)
  then show ?thesis using inv True by (auto simp: spec_inv_def insert_absorb)
next
  case False
  then have nd: "\<not> spec_drops l b x" using spec_inv_drops [OF inv x] by simp
  let ?b' = "insort_key fst (x, p) b"
  let ?k = "length ?b' - d"
  have eq: "st' = (if ?k = 0 then l else Some (fst (?b' ! (?k - 1))), drop ?k ?b')" "out = take ?k ?b'"
    using push nd by (auto simp: spec_push_def Let_def)
  have srt: "sorted_wrt (<) (map fst es @ map fst b)" "x \<notin> fst ` set b"
    using inv False by (auto simp: spec_inv_def)
  have big: "\<And>z. z \<in> fst ` set es \<Longrightarrow> z < x"
  proof -
    fix z assume z: "z \<in> fst ` set es"
    then obtain es' e where es: "es = es' @ [e]" by (metis append_butlast_last_id empty_iff empty_set image_is_empty)
    then have "l = Some (fst e)" using inv by (simp add: spec_inv_def)
    then have "fst e < x" using nd by (auto simp: spec_drops_def)
    moreover have "z \<le> fst e" using z srt(1) by (fastforce simp: es sorted_wrt_append)
    ultimately show "z < x" by simp
  qed
  have sb: "sorted_wrt (<) (map fst b)" using srt(1) by (simp add: sorted_wrt_append)
  have "sorted_wrt (<) (map fst (es @ ?b'))"
    using srt big sorted_insort_fst [OF sb srt(2), of p]
    by (fastforce simp: sorted_wrt_append set_insort_key)
  moreover have "fst ` set (es @ ?b') = set (ys @ [x])"
    using inv by (auto simp: spec_inv_def set_insort_key)
  moreover have len: "length ?b' = Suc (length b)" by simp
  have k: "?k = 0 \<or> (?k = 1 \<and> length b = d)" using inv len by (auto simp: spec_inv_def)
  have last: "?k \<noteq> 0 \<Longrightarrow> last (es @ take ?k ?b') = ?b' ! (?k - 1)"
  proof -
    assume k0: "?k \<noteq> 0"
    then have ne: "take ?k ?b' \<noteq> []" by simp
    then have "last (es @ take ?k ?b') = last (take ?k ?b')" by (rule last_appendR)
    also have "\<dots> = ?b' ! (?k - 1)"
      using ne k0 d by (subst last_conv_nth) (auto simp: min_def)
    finally show "last (es @ take ?k ?b') = ?b' ! (?k - 1)" .
  qed
  ultimately show ?thesis
    using inv k last d len
    by (auto simp: spec_inv_def eq set_insort_key dest: in_set_takeD in_set_dropD)
qed

text \<open>Running the buffer over an orderable stream keeps it in step with the
  specification.\<close>

lemma jitter_run_inv:
  assumes "jitter_abs d j (l, b)" and "spec_inv d ys (l, b) es" and "ok_stream d ys xs" and "0 < d"
  shows "\<exists>j' st' out. jitter_run j (map snd xs) = Some (j', map snd out) \<and> jitter_abs d j' st' \<and>
     spec_inv d (ys @ map fst xs) st' (es @ out) \<and> set (out @ snd st') \<subseteq> set b \<union> set xs"
  using assms
proof (induction xs arbitrary: j l b ys es)
  case Nil
  then show ?case by (intro exI [of _ j] exI [of _ "(l, b)"] exI [of _ "[]"]) auto
next
  case (Cons e xs)
  obtain x p where e: "e = (x, p)" by (cases e)
  have ok: "seq p = word_of_int x" "x \<in> set ys \<or> above ys x \<le> d" "ok_stream d (ys @ [x]) xs"
    and nr: "\<And>y. y \<in> set ys \<Longrightarrow> above ys y \<le> d \<Longrightarrow> near x y"
    using Cons.prems(3) by (auto simp: e)
  have nb: "\<forall>(y, q) \<in> set b. near x y" and nl: "\<forall>m. l = Some m \<longrightarrow> near x m"
    using spec_inv_above [OF Cons.prems(2)] nr by force+
  obtain l1 b1 out1 where sp: "spec_push d (l, b) (x, p) = ((l1, b1), out1)"
    by (cases "spec_push d (l, b) (x, p)") auto
  from jitter_push_refines [OF Cons.prems(1) ok(1) nb nl sp] obtain j1 where
    j1: "jitter_push j p = Some (j1, map snd out1)" "jitter_abs d j1 (l1, b1)" by blast
  have inv1: "spec_inv d (ys @ [x]) (l1, b1) (es @ out1)" "set (out1 @ b1) \<subseteq> insert (x, p) (set b)"
    using spec_inv_step [OF Cons.prems(2) ok(2) Cons.prems(4) sp] by simp_all
  from Cons.IH [OF j1(2) inv1(1) ok(3) Cons.prems(4)] obtain j' st' out where
    "jitter_run j1 (map snd xs) = Some (j', map snd out)" "jitter_abs d j' st'"
    "spec_inv d (ys @ map fst (e # xs)) st' (es @ out1 @ out)" "set (out @ snd st') \<subseteq> set b1 \<union> set xs"
    by (auto simp: e)
  then show ?case
    using j1(1) inv1(2) by (intro exI [of _ j'] exI [of _ st'] exI [of _ "out1 @ out"]) (auto simp: e)
qed

lemma jitter_push_bound:
  assumes "primed j = (last_released j \<noteq> None)" and "length (jb_buf j) \<le> jb_depth j"
  shows "\<exists>j' out. jitter_push j p = Some (j', out) \<and> jb_depth j' = jb_depth j \<and>
    primed j' = (last_released j' \<noteq> None) \<and> length (jb_buf j') \<le> jb_depth j \<and> length out \<le> 1"
  using assms
  by (cases "last_released j") (auto simp: jitter_push_def release_over_eq Let_def)

section \<open>Properties of the jitter buffer\<close>

text \<open>Bounded and panic-free: from any number of packets, in any order, a fresh jitter
  buffer never panics, never holds more than its depth, and releases at most one packet per
  packet received.\<close>

lemma jitter_run_bounded:
  "\<exists>j out. jitter_run (jitter_with_depth d) ps = Some (j, out) \<and>
     length (jb_buf j) \<le> max d 1 \<and> length out + length (jb_buf j) \<le> length ps"
proof -
  have gen: "\<exists>j' out. jitter_run j ps = Some (j', out) \<and> length (jb_buf j') \<le> jb_depth j \<and>
      length out + length (jb_buf j') \<le> length ps + length (jb_buf j)"
    if "primed j = (last_released j \<noteq> None)" "length (jb_buf j) \<le> jb_depth j" for j
    using that
  proof (induction ps arbitrary: j)
    case (Cons p ps)
    from jitter_push_bound [OF Cons.prems, of p] obtain j1 out1 where
      j1: "jitter_push j p = Some (j1, out1)" "jb_depth j1 = jb_depth j"
      "primed j1 = (last_released j1 \<noteq> None)" "length (jb_buf j1) \<le> jb_depth j" by blast
    have "length out1 + length (jb_buf j1) \<le> Suc (length (jb_buf j))"
      using j1(1) Cons.prems
      by (cases "last_released j") (auto simp: jitter_push_def release_over_eq Let_def split: if_splits)
    moreover from Cons.IH [of j1] j1 obtain j' out where
      "jitter_run j1 ps = Some (j', out)" "length (jb_buf j') \<le> jb_depth j"
      "length out + length (jb_buf j') \<le> length ps + length (jb_buf j1)" by auto
    ultimately show ?case using j1(1) by auto
  qed simp
  show ?thesis using gen [of "jitter_with_depth d"] by (simp add: jitter_with_depth_def)
qed

text \<open>A stream within the reach of the buffer comes out complete and in order.\<close>

lemma jitter_ordered:
  assumes "ok_stream (max d 1) [] xs"
  shows "\<exists>j out es. jitter_run (jitter_with_depth d) (map snd xs) = Some (j, out) \<and>
    out @ snd (jitter_drain j) = map snd es \<and> set es \<subseteq> set xs \<and>
    map fst es = sorted_list_of_set (fst ` set xs)"
proof -
  let ?d = "max d 1"
  have "jitter_abs ?d (jitter_with_depth d) (None, [])" "spec_inv ?d [] (None, []) []"
    by (simp_all add: jitter_abs_def jitter_with_depth_def spec_inv_def)
  from jitter_run_inv [OF this assms, OF max.strict_coboundedI2 [OF zero_less_one]] obtain j' st' out where
    r: "jitter_run (jitter_with_depth d) (map snd xs) = Some (j', map snd out)" and
    a: "jitter_abs ?d j' st'" and i: "spec_inv ?d (map fst xs) st' out" and
    sub: "set (out @ snd st') \<subseteq> set xs" by auto
  have "snd (jitter_drain j') = map snd (snd st')"
    using a by (simp add: jitter_drain_def Let_def jitter_abs_def)
  moreover have "map fst (out @ snd st') = sorted_list_of_set (fst ` set xs)"
  proof (rule sorted_distinct_set_unique)
    have "sorted_wrt (<) (map fst (out @ snd st'))" using i by (simp add: spec_inv_def)
    then show "sorted (map fst (out @ snd st'))" "distinct (map fst (out @ snd st'))"
      by (simp_all only: strict_sorted_iff)
    show "set (map fst (out @ snd st')) = set (sorted_list_of_set (fst ` set xs))"
      using i by (simp add: spec_inv_def image_Un)
  qed simp_all
  ultimately show ?thesis
    using r sub by (intro exI [of _ j'] exI [of _ "map snd out"] exI [of _ "out @ snd st'"]) auto
qed

definition ex_rtp :: "int \<Rightarrow> ext" where
  "ex_rtp x = (x, \<lparr>payload_type = 0, seq = word_of_int x, timestamp = 0, ssrc = 7, marker = False, payload = []\<rparr>)"

text \<open>C8. The jitter buffer restores the order: if every packet is overtaken by at most as many
  packets as the buffer is deep, then what it releases, followed by the final drain, is one packet
  for each sequence number received, in increasing order of the extended sequence number,
  across any number of 16-bit wrap-arounds.\<close>

theorem jitter_restores_order:
  assumes "ok_stream (max d 1) [] xs"
  shows "\<exists>j out es. jitter_run (jitter_with_depth d) (map snd xs) = Some (j, out) \<and>
    out @ snd (jitter_drain j) = map snd es \<and> set es \<subseteq> set xs \<and>
    map fst es = sorted_list_of_set (fst ` set xs)"
  using assms by (rule jitter_ordered)

theorem jitter_restores_order_witness:
  "\<exists>j out es. jitter_run (jitter_with_depth 2)
       (map snd [ex_rtp 65534, ex_rtp 65536, ex_rtp 65535, ex_rtp 65537, ex_rtp 65536, ex_rtp 65538]) = Some (j, out) \<and>
     out @ snd (jitter_drain j) = map snd (es :: ext list) \<and>
     map fst es = [65534, 65535, 65536, 65537, 65538]"
proof -
  let ?xs = "[ex_rtp 65534, ex_rtp 65536, ex_rtp 65535, ex_rtp 65537, ex_rtp 65536, ex_rtp 65538]"
  have ok: "ok_stream (max 2 1) [] ?xs" by (simp add: ex_rtp_def above_def near_def)
  have srt: "sorted_list_of_set (fst ` set ?xs) = [65534, 65535, 65536, 65537, 65538]"
    by (simp only: set_map [symmetric] sorted_list_of_set_sort_remdups) (simp add: ex_rtp_def)
  from jitter_restores_order [OF ok, unfolded srt] show ?thesis by (elim exE conjE) (intro exI conjI)
qed

fun packetize_all :: "rtp_sender \<Rightarrow> u8 list list \<Rightarrow> u8 list list" where
  "packetize_all s [] = []"
| "packetize_all s (pl # pls) = (let (s', b) = packetize s pl in b # packetize_all s' pls)"

lemma packetize_wire:
  "snd (packetize s pl) = wire \<lparr>payload_type = s_payload_type s AND 0x7f, seq = s_seq s,
     timestamp = s_timestamp s, ssrc = s_ssrc s, marker = False, payload = pl\<rparr> [] None"
  by (simp add: packetize_def wire_def wire_b0_def wire_ext_def and.assoc)

text \<open>What a sender emits, a receiver in the same call reads back: the packets of
  consecutive frames carry consecutive sequence numbers and timestamps advanced by the payload
  length, both modulo their width.\<close>

lemma packetize_round_trip:
  "map depacketize (packetize_all s pls) =
     map (\<lambda>i. Some (Ok \<lparr>payload_type = s_payload_type s AND 0x7f,
       seq = s_seq s + of_nat i,
       timestamp = s_timestamp s + of_nat (length (concat (take i pls))),
       ssrc = s_ssrc s, marker = False, payload = pls ! i\<rparr>)) [0..<length pls]"
proof (induction pls arbitrary: s)
  case (Cons pl pls)
  have "s_payload_type s AND 0x7f < 128"
    using word_and_le1 [of "s_payload_type s" "0x7f"] by (rule le_less_trans) simp
  then have hd: "depacketize (snd (packetize s pl)) = Some (Ok \<lparr>payload_type = s_payload_type s AND 0x7f,
      seq = s_seq s, timestamp = s_timestamp s, ssrc = s_ssrc s, marker = False, payload = pl\<rparr>)"
    unfolding packetize_wire by (intro depacketize_of_wire) simp_all
  show ?case
    using hd
    by (simp add: Cons.IH Let_def case_prod_unfold upt_conv_Cons map_Suc_upt [symmetric] packetize_def
        comp_def ac_simps del: upt_Suc)
qed simp

end
