(* ===== verification/Dtmf.thy ===== *)
theory Dtmf
  imports Frames
begin

text \<open>
  Telephone keypad events: the RFC 4733 payload codec of
  \<^verbatim>\<open>flowcat-telephony/src/dtmf/rfc2833.rs\<close> and the receiver and sender state
  machines of \<^verbatim>\<open>dtmf/mod.rs\<close>. The in-band detector is modelled around its tone
  classifier, which is an argument.
\<close>

section \<open>Symbols\<close>

datatype dtmf_symbol = Digit u8 | Star_sym | Pound_sym | Letter uchar

definition event_code :: "dtmf_symbol \<Rightarrow> u8" where
  "event_code s =
     (case s of
        Digit d \<Rightarrow> d
      | Star_sym \<Rightarrow> 10
      | Pound_sym \<Rightarrow> 11
      | Letter c \<Rightarrow> if c = 65 then 12 else if c = 66 then 13 else if c = 67 then 14
                   else if c = 68 then 15 else 12)"

definition from_event_code :: "u8 \<Rightarrow> dtmf_symbol option" where
  "from_event_code code =
     (if code \<le> 9 then Some (Digit code)
      else if code = 10 then Some Star_sym
      else if code = 11 then Some Pound_sym
      else if code = 12 then Some (Letter 65)
      else if code = 13 then Some (Letter 66)
      else if code = 14 then Some (Letter 67)
      else if code = 15 then Some (Letter 68)
      else None)"

text \<open>\<open>b'0' + d\<close> is checked arithmetic on \<open>u8\<close>: \<open>None\<close> is the overflow
  panic.\<close>

definition to_char :: "dtmf_symbol \<Rightarrow> uchar option" where
  "to_char s =
     (case s of
        Digit d \<Rightarrow> if unat d + 48 < 256 then Some (unat d + 48) else None
      | Star_sym \<Rightarrow> Some 42
      | Pound_sym \<Rightarrow> Some 35
      | Letter c \<Rightarrow> Some c)"

definition from_char :: "uchar \<Rightarrow> dtmf_symbol option" where
  "from_char c =
     (if 48 \<le> c \<and> c \<le> 57 then Some (Digit (of_nat c - 48))
      else if c = 42 then Some Star_sym
      else if c = 35 then Some Pound_sym
      else if 65 \<le> c \<and> c \<le> 68 then Some (Letter c)
      else if 97 \<le> c \<and> c \<le> 100 then Some (Letter (c - 32))
      else None)"

definition to_keypad_entry :: "dtmf_symbol \<Rightarrow> keypad_entry option" where
  "to_keypad_entry s =
     (case s of
        Digit d \<Rightarrow>
          if d = 0 then Some Zero else if d = 1 then Some One else if d = 2 then Some Two
          else if d = 3 then Some Three else if d = 4 then Some Four else if d = 5 then Some Five
          else if d = 6 then Some Six else if d = 7 then Some Seven else if d = 8 then Some Eight
          else if d = 9 then Some Nine else None
      | Star_sym \<Rightarrow> Some Star
      | Pound_sym \<Rightarrow> Some Pound
      | Letter _ \<Rightarrow> None)"

definition from_keypad_entry :: "keypad_entry \<Rightarrow> dtmf_symbol" where
  "from_keypad_entry k =
     (case k of
        Zero \<Rightarrow> Digit 0 | One \<Rightarrow> Digit 1 | Two \<Rightarrow> Digit 2 | Three \<Rightarrow> Digit 3 | Four \<Rightarrow> Digit 4
      | Five \<Rightarrow> Digit 5 | Six \<Rightarrow> Digit 6 | Seven \<Rightarrow> Digit 7 | Eight \<Rightarrow> Digit 8 | Nine \<Rightarrow> Digit 9
      | Star \<Rightarrow> Star_sym | Pound \<Rightarrow> Pound_sym)"

section \<open>The payload codec\<close>

record telephone_event =
  te_symbol :: dtmf_symbol
  te_end :: bool
  te_volume :: u8
  te_duration :: u16

definition encode_event :: "dtmf_symbol \<Rightarrow> bool \<Rightarrow> u8 \<Rightarrow> u16 \<Rightarrow> u8 list" where
  "encode_event sy fin vol dur =
     [event_code sy, (if fin then (vol AND 0x3f) OR 0x80 else vol AND 0x3f)] @ u16_to_be dur"

definition decode_event :: "u8 list \<Rightarrow> telephone_event option" where
  "decode_event pl =
     (if length pl \<noteq> 4 then None
      else case from_event_code (pl ! 0) of
        None \<Rightarrow> None
      | Some sy \<Rightarrow>
          Some \<lparr>te_symbol = sy, te_end = (pl ! 1 AND 0x80 \<noteq> 0), te_volume = pl ! 1 AND 0x3f,
                te_duration = u16_from_be (pl ! 2) (pl ! 3)\<rparr>)"

section \<open>The receiver\<close>

record rfc2833_receiver =
  active :: "u8 option"
  fired_end :: bool
  last_symbol :: "dtmf_symbol option"

definition receiver_new :: rfc2833_receiver where
  "receiver_new = \<lparr>active = None, fired_end = False, last_symbol = None\<rparr>"

definition on_payload :: "rfc2833_receiver \<Rightarrow> u8 list \<Rightarrow> rfc2833_receiver \<times> 'j frame option" where
  "on_payload r pl =
     (case decode_event pl of
        None \<Rightarrow> (r, None)
      | Some ev \<Rightarrow>
          let code = event_code (te_symbol ev);
              r1 = (if active r \<noteq> Some code then r\<lparr>active := Some code, fired_end := False\<rparr> else r)
          in if \<not> te_end ev then (r1, None)
             else if fired_end r1 then (r1, None)
             else (r1\<lparr>fired_end := True, last_symbol := Some (te_symbol ev)\<rparr>,
                   map_option InputDtmf (to_keypad_entry (te_symbol ev))))"

definition receiver_reset :: "rfc2833_receiver \<Rightarrow> rfc2833_receiver" where
  "receiver_reset r = receiver_new"

text \<open>Feeding a stream of payloads; the frames emitted, in order.\<close>

fun receive_all :: "rfc2833_receiver \<Rightarrow> u8 list list \<Rightarrow> rfc2833_receiver \<times> 'j frame list" where
  "receive_all r [] = (r, [])"
| "receive_all r (pl # pls) =
     (let (r1, f) = on_payload r pl; (r2, fs) = receive_all r1 pls
      in (r2, (case f of None \<Rightarrow> fs | Some x \<Rightarrow> x # fs)))"

section \<open>The sender\<close>

record rfc2833_sender =
  tone_packets :: u16
  tick_step :: u16
  snd_volume :: u8

definition sender_default :: rfc2833_sender where
  "sender_default = \<lparr>tone_packets = 3, tick_step = 160, snd_volume = 10\<rparr>"

fun tone_run :: "rfc2833_sender \<Rightarrow> dtmf_symbol \<Rightarrow> nat \<Rightarrow> u16 \<Rightarrow> u8 list list \<times> u16" where
  "tone_run s sy 0 dur = ([], dur)"
| "tone_run s sy (Suc n) dur =
     (let dur' = saturating_add dur (tick_step s);
          (out, d) = tone_run s sy n dur'
      in (encode_event sy False (snd_volume s) dur' # out, d))"

definition encode_symbol :: "rfc2833_sender \<Rightarrow> dtmf_symbol \<Rightarrow> u8 list list" where
  "encode_symbol s sy =
     (let (out, dur) = tone_run s sy (unat (tone_packets s)) 0
      in out @ [encode_event sy True (snd_volume s) (saturating_add dur (tick_step s))])"

definition encode_key :: "rfc2833_sender \<Rightarrow> keypad_entry \<Rightarrow> u8 list list" where
  "encode_key s k = encode_symbol s (from_keypad_entry k)"

definition encode_frame :: "rfc2833_sender \<Rightarrow> 'j frame \<Rightarrow> u8 list list" where
  "encode_frame s f = (case f of OutputDtmf keys \<Rightarrow> concat (map (encode_key s) keys) | _ \<Rightarrow> [])"

section \<open>The in-band detector\<close>

record inband_detector =
  held :: "dtmf_symbol option"
  ib_last_symbol :: "dtmf_symbol option"

text \<open>\<open>detect\<close> is the tone classifier applied to one block of samples.\<close>

definition on_audio ::
  "('pcm \<Rightarrow> dtmf_symbol option) \<Rightarrow> inband_detector \<Rightarrow> 'pcm \<Rightarrow> inband_detector \<times> 'j frame option" where
  "on_audio detect d blk =
     (case detect blk of
        Some sy \<Rightarrow>
          if held d = Some sy then (d, None)
          else (d\<lparr>held := Some sy, ib_last_symbol := Some sy\<rparr>, map_option InputDtmf (to_keypad_entry sy))
      | None \<Rightarrow> (d\<lparr>held := None\<rparr>, None))"

section \<open>Lemmas on the codec\<close>

definition valid_symbol :: "dtmf_symbol \<Rightarrow> bool" where
  "valid_symbol s \<longleftrightarrow> (case s of Digit d \<Rightarrow> d \<le> 9 | Letter c \<Rightarrow> c \<in> {65, 66, 67, 68} | _ \<Rightarrow> True)"

lemma from_event_code_code: "from_event_code (event_code s) = Some s \<longleftrightarrow> valid_symbol s"
proof (cases s)
  case (Digit d)
  then show ?thesis by (auto simp: event_code_def from_event_code_def valid_symbol_def)
qed (auto simp: event_code_def from_event_code_def valid_symbol_def)

lemma event_code_from_event_code:
  "from_event_code c = Some s \<Longrightarrow> event_code s = c \<and> valid_symbol s"
  by (auto simp: event_code_def from_event_code_def valid_symbol_def split: if_splits)

lemma event_code_inj: "valid_symbol s \<Longrightarrow> valid_symbol t \<Longrightarrow> event_code s = event_code t \<longleftrightarrow> s = t"
  by (metis from_event_code_code option.inject)

lemma decode_encode:
  "valid_symbol s \<Longrightarrow> decode_event (encode_event s fin vol dur) =
     Some \<lparr>te_symbol = s, te_end = fin, te_volume = vol AND 0x3f, te_duration = dur\<rparr>"
  using from_event_code_code [of s]
  by (simp add: decode_event_def encode_event_def u16_to_be_def u16_be_round and.assoc
      bit.conj_disj_distrib2)

lemma keypad_round: "to_keypad_entry (from_keypad_entry k) = Some k"
  by (cases k) (simp_all add: to_keypad_entry_def from_keypad_entry_def)

lemma valid_keypad: "valid_symbol (from_keypad_entry k)"
  by (cases k) (simp_all add: valid_symbol_def from_keypad_entry_def)

lemma from_keypad_inj: "from_keypad_entry k = from_keypad_entry k' \<longleftrightarrow> k = k'"
  by (metis keypad_round option.inject)

section \<open>Key presses\<close>

text \<open>A key press on the wire: payloads that all decode to the same symbol, at least one with
  the end bit.\<close>

definition press_of :: "dtmf_symbol \<Rightarrow> u8 list list \<Rightarrow> bool" where
  "press_of s pls \<longleftrightarrow>
     list_all (\<lambda>pl. map_option te_symbol (decode_event pl) = Some s) pls \<and>
     list_ex (\<lambda>pl. map_option te_end (decode_event pl) = Some True) pls"

lemma decode_symbol_code:
  "decode_event pl = Some ev \<Longrightarrow> valid_symbol (te_symbol ev)"
  by (auto simp: decode_event_def event_code_from_event_code split: if_splits option.splits)

lemma receive_held:
  assumes "active r = Some (event_code s)" and "fired_end r"
    and "list_all (\<lambda>pl. map_option te_symbol (decode_event pl) = Some s) pls"
  shows "receive_all r pls = (r, [] :: 'j frame list)"
  using assms(3)
proof (induction pls)
  case (Cons pl pls)
  then obtain ev where "decode_event pl = Some ev" "te_symbol ev = s" by auto
  then have "on_payload r pl = (r, None :: 'j frame option)" using assms(1,2) by (simp add: on_payload_def Let_def)
  then show ?case using Cons by simp
qed simp

lemma receive_press_fresh:
  assumes "active r = Some (event_code s)" and "\<not> fired_end r" and "press_of s pls"
  shows "receive_all r pls =
    (r\<lparr>fired_end := True, last_symbol := Some s\<rparr>,
     case to_keypad_entry s of None \<Rightarrow> [] | Some k \<Rightarrow> [InputDtmf k :: 'j frame])"
  using assms(3)
proof (induction pls)
  case (Cons pl pls)
  from Cons.prems obtain ev where ev: "decode_event pl = Some ev" "te_symbol ev = s"
    by (auto simp: press_of_def)
  show ?case
  proof (cases "te_end ev")
    case True
    let ?r = "r\<lparr>fired_end := True, last_symbol := Some s\<rparr>"
    have "on_payload r pl = (?r, map_option InputDtmf (to_keypad_entry s) :: 'j frame option)"
      using ev True assms(1,2) by (simp add: on_payload_def Let_def)
    moreover have "receive_all ?r pls = (?r, [] :: 'j frame list)"
      using Cons.prems assms(1) by (intro receive_held [of _ s]) (auto simp: press_of_def)
    ultimately show ?thesis by (simp split: option.split)
  next
    case False
    then have "on_payload r pl = (r, None :: 'j frame option)" using ev assms(1,2) by (simp add: on_payload_def Let_def)
    moreover have "press_of s pls" using Cons.prems False ev by (auto simp: press_of_def)
    ultimately show ?thesis using Cons.IH by simp
  qed
qed (simp add: press_of_def)

lemma on_payload_switch:
  assumes "decode_event pl = Some ev" and "active r \<noteq> Some (event_code (te_symbol ev))"
  shows "on_payload r pl =
    on_payload (r\<lparr>active := Some (event_code (te_symbol ev)), fired_end := False\<rparr>) pl"
  using assms by (simp add: on_payload_def Let_def)

lemma receive_press:
  assumes "press_of s pls"
  shows "receive_all r pls =
    (if active r = Some (event_code s) \<and> fired_end r then (r, [])
     else (r\<lparr>active := Some (event_code s), fired_end := True, last_symbol := Some s\<rparr>,
           case to_keypad_entry s of None \<Rightarrow> [] | Some k \<Rightarrow> [InputDtmf k :: 'j frame]))"
proof (cases "active r = Some (event_code s)")
  case True
  then have r: "r = r\<lparr>active := Some (event_code s)\<rparr>" by simp
  show ?thesis
  proof (cases "fired_end r")
    case fired: True
    then show ?thesis using assms True by (simp add: press_of_def receive_held [OF True fired])
  next
    case fresh: False
    have "receive_all r pls = (r\<lparr>active := Some (event_code s)\<rparr>\<lparr>fired_end := True, last_symbol := Some s\<rparr>,
        case to_keypad_entry s of None \<Rightarrow> [] | Some k \<Rightarrow> [InputDtmf k :: 'j frame])"
      using receive_press_fresh [OF True fresh assms] r by simp
    then show ?thesis using True fresh by simp
  qed
next
  case False
  let ?r = "r\<lparr>active := Some (event_code s), fired_end := False\<rparr>"
  obtain pl pls' where pls: "pls = pl # pls'" using assms by (cases pls) (auto simp: press_of_def)
  obtain ev where ev: "decode_event pl = Some ev" "te_symbol ev = s"
    using assms by (auto simp: press_of_def pls)
  have "receive_all r pls = (receive_all ?r pls :: _ \<times> 'j frame list)"
    using False ev by (simp add: pls on_payload_switch [of pl ev r])
  then show ?thesis using receive_press_fresh [of ?r s pls] False assms by simp
qed

lemma receive_all_append:
  "receive_all r xs = (r1, fs :: 'j frame list) \<Longrightarrow>
     snd (receive_all r (xs @ ys)) = fs @ (snd (receive_all r1 ys) :: 'j frame list)"
  by (induction xs arbitrary: r fs)
     (auto simp: Let_def split: prod.splits option.splits, (metis snd_conv)+)

text \<open>The frames a sequence of pressed symbols stands for.\<close>

definition key_frames :: "dtmf_symbol list \<Rightarrow> 'j frame list" where
  "key_frames ss = List.map_filter (\<lambda>s. map_option InputDtmf (to_keypad_entry s)) ss"

abbreviation key_frame :: "dtmf_symbol \<Rightarrow> 'j frame list" where
  "key_frame s \<equiv> (case to_keypad_entry s of None \<Rightarrow> [] | Some k \<Rightarrow> [InputDtmf k])"

lemma key_frames_simps [simp]:
  "key_frames [] = []" "key_frames (s # ss) = key_frame s @ key_frames ss"
  by (simp_all add: key_frames_def List.map_filter_def split: option.split)

lemma key_frames_remdups:
  "key_frame s @ key_frames (tl (remdups_adj (s # ss))) = (key_frames (remdups_adj (s # ss)) :: 'j frame list)"
proof -
  have "remdups_adj (s # ss) = s # tl (remdups_adj (s # ss))"
    by (metis hd_remdups_adj list.collapse list.distinct(1) list.sel(1) remdups_adj_Nil_iff)
  then have "key_frames (remdups_adj (s # ss)) = (key_frames (s # tl (remdups_adj (s # ss))) :: 'j frame list)"
    by (rule arg_cong)
  then show ?thesis by (simp only: key_frames_simps)
qed

lemma press_valid: "press_of s pls \<Longrightarrow> valid_symbol s"
  using decode_symbol_code by (cases pls) (auto simp: press_of_def)

lemma receive_presses_from:
  assumes "list_all2 press_of ss presses" and "valid_symbol s0"
  shows "snd (receive_all (\<lparr>active = Some (event_code s0), fired_end = True, last_symbol = ls\<rparr>)
      (concat presses)) = (key_frames (tl (remdups_adj (s0 # ss))) :: 'j frame list)"
  using assms
proof (induction ss arbitrary: presses s0 ls)
  case Nil
  then show ?case by simp
next
  case (Cons s ss)
  then obtain p ps where p: "presses = p # ps" "press_of s p" "list_all2 press_of ss ps"
    by (auto simp: list_all2_Cons1)
  note v = press_valid [OF p(2)]
  let ?r = "\<lambda>c. \<lparr>active = Some (event_code c), fired_end = True, last_symbol = ls\<rparr>"
  show ?case
  proof (cases "s = s0")
    case True
    then have "receive_all (?r s0) p = (?r s0, [] :: 'j frame list)"
      by (simp add: receive_press [OF p(2)])
    then show ?thesis
      using Cons.IH [OF p(3) Cons.prems(2), of ls] True
      by (simp add: p(1) receive_all_append)
  next
    case False
    then have "event_code s0 \<noteq> event_code s" using event_code_inj v Cons.prems(2) by blast
    then have "receive_all (?r s0) p = (\<lparr>active = Some (event_code s), fired_end = True, last_symbol = Some s\<rparr>,
        case to_keypad_entry s of None \<Rightarrow> [] | Some k \<Rightarrow> [InputDtmf k :: 'j frame])"
      by (simp add: receive_press [OF p(2)])
    moreover have "tl (remdups_adj (s0 # s # ss)) = s # tl (remdups_adj (s # ss))"
      using False by (simp add: remdups_adj_Cons split: list.split)
    ultimately show ?thesis
      using Cons.IH [OF p(3) v, of "Some s"]
      by (simp add: p(1) receive_all_append key_frames_remdups)
  qed
qed

lemma receiver_debounces_aux:
  assumes "list_all2 press_of ss presses"
  shows "snd (receive_all receiver_new (concat presses)) = (key_frames (remdups_adj ss) :: 'j frame list)"
proof (cases ss)
  case Nil
  then show ?thesis using assms by simp
next
  case (Cons s ss')
  then obtain p ps where p: "presses = p # ps" "press_of s p" "list_all2 press_of ss' ps"
    using assms by (auto simp: list_all2_Cons1)
  let ?r = "\<lparr>active = Some (event_code s), fired_end = True, last_symbol = Some s\<rparr>"
  have "receive_all receiver_new p =
      (?r, case to_keypad_entry s of None \<Rightarrow> [] | Some k \<Rightarrow> [InputDtmf k :: 'j frame])"
    by (simp add: receive_press [OF p(2)] receiver_new_def)
  then have "snd (receive_all receiver_new (concat presses)) =
      key_frame s @ (snd (receive_all ?r (concat ps)) :: 'j frame list)"
    by (simp add: p(1) receive_all_append)
  also have "\<dots> = key_frames (remdups_adj (s # ss'))"
    by (simp only: receive_presses_from [OF p(3) press_valid [OF p(2)]] key_frames_remdups)
  finally show ?thesis by (simp add: Cons)
qed

section \<open>Properties\<close>

text \<open>The event codec loses nothing but the two top bits of the volume: every symbol of the
  16-key grid, end bit and duration survive encoding and decoding.\<close>

lemma dtmf_event_round_trip:
  assumes "valid_symbol s"
  shows "decode_event (encode_event s fin vol dur) =
     Some \<lparr>te_symbol = s, te_end = fin, te_volume = vol AND 0x3f, te_duration = dur\<rparr>"
  using assms by (rule decode_encode)

text \<open>The receiver reports each key press once, however many tone and end packets carry it,
  except that consecutive presses of the same key count as one.\<close>

lemma receiver_debounces:
  assumes "list_all2 press_of ss presses"
  shows "snd (receive_all receiver_new (concat presses)) = (key_frames (remdups_adj ss) :: 'j frame list)"
  using assms by (rule receiver_debounces_aux)

lemma tone_run_decode:
  "valid_symbol sy \<Longrightarrow> tone_run s sy n dur = (out, d) \<Longrightarrow>
     list_all (\<lambda>pl. map_option te_symbol (decode_event pl) = Some sy) out"
  by (induction n arbitrary: dur out) (auto simp: Let_def decode_encode split: prod.splits)

lemma encode_symbol_press: "valid_symbol sy \<Longrightarrow> press_of sy (encode_symbol s sy)"
  using tone_run_decode [of sy s]
  by (auto simp: press_of_def encode_symbol_def Let_def decode_encode split: prod.splits)

lemma remdups_adj_keypad:
  "remdups_adj (map from_keypad_entry ks) = map from_keypad_entry (remdups_adj ks)"
  by (induction ks rule: remdups_adj.induct) (auto simp: from_keypad_inj)

lemma key_frames_keypad: "key_frames (map from_keypad_entry ks) = map InputDtmf ks"
  by (induction ks) (simp_all add: keypad_round)

text \<open>End to end: the keys of an \<open>OutputDtmf\<close> frame, encoded by the sender and fed to a
  fresh receiver, come back as one \<open>InputDtmf\<close> per key, runs of the same key collapsed.\<close>

lemma dtmf_send_receive:
  "snd (receive_all receiver_new (encode_frame s (OutputDtmf keys :: 'j frame))) =
     (map InputDtmf (remdups_adj keys) :: 'j frame list)"
proof -
  have "list_all2 press_of (map from_keypad_entry keys) (map (encode_key s) keys)"
    by (simp add: list_all2_conv_all_nth encode_key_def encode_symbol_press valid_keypad)
  from receiver_debounces_aux [OF this] show ?thesis
    by (simp add: encode_frame_def remdups_adj_keypad key_frames_keypad)
qed

end
