(* ===== verification/Text_Aggregation.thy ===== *)
theory Text_Aggregation
  imports Proc_Runtime "HOL-Library.Monad_Syntax" "HOL-Library.Multiset" "HOL-Library.Code_Target_Nat"
begin

text \<open>
  The streaming text aggregators and text filters of
  \<^verbatim>\<open>flowcat-core/src/agent/text_filter.rs\<close>, and the two processors that run
  them in a pipeline.

  Strings are lists of scalar values; a byte offset that is not a character boundary makes a
  slice panic, which is the outer \<open>None\<close> here. The locale \<open>text_aggregator\<close> is the
  contract of the trait \<open>TextAggregator\<close>; it is interpreted on the simple, the skip-tags
  and the pattern-pair aggregator.
\<close>

section \<open>Sentence boundaries\<close>

definition sentence_ending_punctuation :: "uchar list" where
  "sentence_ending_punctuation = [46, 63, 33, 59, 12290, 65311, 65281, 65307]"

abbreviation ends_sentence :: "uchar \<Rightarrow> bool" where
  "ends_sentence c \<equiv> c \<in> set sentence_ending_punctuation"

text \<open>The loop body of \<open>match_endofsentence\<close>: position \<open>i\<close> is terminal punctuation and
  not a decimal point between digits.\<close>

definition is_boundary :: "ustr \<Rightarrow> nat \<Rightarrow> bool" where
  "is_boundary chars i \<longleftrightarrow>
     ends_sentence (chars ! i) \<and>
     \<not> (chars ! i = 46 \<and> 0 < i \<and> is_ascii_digit (chars ! (i - 1)) \<and>
        i + 1 < length chars \<and> is_ascii_digit (chars ! (i + 1)))"

definition last_boundary :: "ustr \<Rightarrow> nat option" where
  "last_boundary chars =
     foldl (\<lambda>idx i. if is_boundary chars i then Some i else idx) None [0..<length chars]"

function extend_run :: "ustr \<Rightarrow> nat \<Rightarrow> nat" where
  "extend_run chars e =
     (if e + 1 < length chars \<and> ends_sentence (chars ! (e + 1)) then extend_run chars (e + 1) else e)"
  by pat_completeness auto
termination
  by (relation "measure (\<lambda>(chars, e). length chars - e)") auto

declare extend_run.simps [simp del]

definition match_endofsentence :: "ustr \<Rightarrow> nat option" where
  "match_endofsentence t =
     map_option (\<lambda>last. sum_list (map len_utf8 (take (Suc (extend_run t last)) t))) (last_boundary t)"

section \<open>The simple aggregator\<close>

record simple_agg =
  sa_text :: ustr
  needs_lookahead :: bool

definition simple_new :: simple_agg where
  "simple_new = \<lparr>sa_text = [], needs_lookahead = False\<rparr>"

definition check_sentence_with_lookahead :: "simple_agg \<Rightarrow> uchar \<Rightarrow> (simple_agg \<times> ustr option) option" where
  "check_sentence_with_lookahead a ch =
     (if needs_lookahead a then
        if \<not> is_whitespace ch then
          let a1 = a\<lparr>needs_lookahead := False\<rparr>
          in case match_endofsentence (sa_text a1) of
               Some marker \<Rightarrow> do {
                 (result, rest) \<leftarrow> split_at_byte marker (sa_text a1);
                 Some (a1\<lparr>sa_text := rest\<rparr>, Some (trim_spaces result))
               }
             | None \<Rightarrow> Some (a1, None)
        else Some (a, None)
      else if sa_text a \<noteq> [] \<and> ends_sentence (last (sa_text a))
      then Some (a\<lparr>needs_lookahead := True\<rparr>, None)
      else Some (a, None))"

abbreviation opt_list :: "'a option \<Rightarrow> 'a list" where
  "opt_list x \<equiv> (case x of None \<Rightarrow> [] | Some y \<Rightarrow> [y])"

text \<open>The character loop the three aggregators share.\<close>

fun char_loop :: "('s \<Rightarrow> uchar \<Rightarrow> ('s \<times> 'o option) option) \<Rightarrow> 's \<Rightarrow> ustr \<Rightarrow> ('s \<times> 'o list) option" where
  "char_loop f s [] = Some (s, [])"
| "char_loop f s (c # cs) = do {
     (s1, x) \<leftarrow> f s c;
     (s2, xs) \<leftarrow> char_loop f s1 cs;
     Some (s2, opt_list x @ xs)
   }"

definition simple_char :: "simple_agg \<Rightarrow> uchar \<Rightarrow> (simple_agg \<times> ustr option) option" where
  "simple_char a ch = check_sentence_with_lookahead (a\<lparr>sa_text := sa_text a @ [ch]\<rparr>) ch"

definition simple_aggregate :: "simple_agg \<Rightarrow> ustr \<Rightarrow> (simple_agg \<times> ustr list) option" where
  "simple_aggregate = char_loop simple_char"

definition simple_flush :: "simple_agg \<Rightarrow> simple_agg \<times> ustr option" where
  "simple_flush a =
     (if sa_text a = [] then (a, None)
      else (a\<lparr>sa_text := [], needs_lookahead := False\<rparr>, Some (trim_spaces (sa_text a))))"

definition simple_reset :: "simple_agg \<Rightarrow> simple_agg" where
  "simple_reset a = a\<lparr>sa_text := [], needs_lookahead := False\<rparr>"

section \<open>The skip-tags aggregator\<close>

record start_end_tags =
  tag_start :: ustr
  tag_end :: ustr

record skip_agg =
  sk_inner :: simple_agg
  sk_tags :: "start_end_tags list"
  inside :: bool

definition skip_new :: "start_end_tags list \<Rightarrow> skip_agg" where
  "skip_new tags = \<lparr>sk_inner = simple_new, sk_tags = tags, inside = False\<rparr>"

definition update_tag_state :: "skip_agg \<Rightarrow> skip_agg" where
  "update_tag_state a =
     a\<lparr>inside := list_ex (\<lambda>tag. count_matches (tag_start tag) (sa_text (sk_inner a)) >
                                 count_matches (tag_end tag) (sa_text (sk_inner a))) (sk_tags a)\<rparr>"

definition skip_char :: "skip_agg \<Rightarrow> uchar \<Rightarrow> (skip_agg \<times> ustr option) option" where
  "skip_char a ch =
     (let a1 = a\<lparr>sk_inner := (sk_inner a)\<lparr>sa_text := sa_text (sk_inner a) @ [ch]\<rparr>\<rparr>;
          a2 = update_tag_state a1
      in if inside a2 then Some (a2, None)
         else do {
           (i, x) \<leftarrow> check_sentence_with_lookahead (sk_inner a2) ch;
           Some (a2\<lparr>sk_inner := i\<rparr>, x)
         })"

definition skip_aggregate :: "skip_agg \<Rightarrow> ustr \<Rightarrow> (skip_agg \<times> ustr list) option" where
  "skip_aggregate = char_loop skip_char"

definition skip_flush :: "skip_agg \<Rightarrow> skip_agg \<times> ustr option" where
  "skip_flush a = (let (i, x) = simple_flush (sk_inner a) in (a\<lparr>inside := False, sk_inner := i\<rparr>, x))"

definition skip_reset :: "skip_agg \<Rightarrow> skip_agg" where
  "skip_reset a = a\<lparr>sk_inner := simple_reset (sk_inner a), inside := False\<rparr>"

section \<open>The pattern-pair aggregator\<close>

datatype match_action = Remove | Keep | Aggregate

record pattern =
  pat_id :: ustr
  pat_start :: ustr
  pat_end :: ustr
  pat_action :: match_action

record pattern_match =
  pm_id :: ustr
  pm_content :: ustr

record pair_agg =
  pp_inner :: simple_agg
  patterns :: "pattern list"

definition pair_new :: pair_agg where
  "pair_new = \<lparr>pp_inner = simple_new, patterns = []\<rparr>"

definition add_pattern :: "pair_agg \<Rightarrow> ustr \<Rightarrow> ustr \<Rightarrow> ustr \<Rightarrow> match_action \<Rightarrow> pair_agg" where
  "add_pattern a i s e act =
     a\<lparr>patterns := patterns a @ [\<lparr>pat_id = i, pat_start = s, pat_end = e, pat_action = act\<rparr>]\<rparr>"

definition incomplete_pattern :: "pair_agg \<Rightarrow> bool" where
  "incomplete_pattern a =
     list_ex (\<lambda>p. count_matches (pat_start p) (sa_text (pp_inner a)) >
                  count_matches (pat_end p) (sa_text (pp_inner a))) (patterns a)"

text \<open>The first registered pattern that is complete in the buffer, with the text before it,
  between its delimiters and after it.\<close>

definition complete_at :: "pattern \<Rightarrow> ustr \<Rightarrow> (ustr \<times> ustr \<times> ustr) option" where
  "complete_at p t = do {
     (before, after_start) \<leftarrow> find_split (pat_start p) t;
     (content, rest) \<leftarrow> find_split (pat_end p) after_start;
     Some (before, content, rest)
   }"

fun first_complete :: "pattern list \<Rightarrow> ustr \<Rightarrow> (pattern \<times> ustr \<times> ustr \<times> ustr) option" where
  "first_complete [] t = None"
| "first_complete (p # ps) t =
     (case complete_at p t of Some x \<Rightarrow> Some (p, x) | None \<Rightarrow> first_complete ps t)"

lemma complete_at_Some:
  "complete_at p t = Some (b, c, r) \<Longrightarrow> t = b @ pat_start p @ c @ pat_end p @ r"
  by (auto simp: complete_at_def bind_eq_Some_conv dest!: find_split_Some)

lemma first_complete_Some:
  "first_complete ps t = Some (p, b, c, r) \<Longrightarrow> p \<in> set ps \<and> t = b @ pat_start p @ c @ pat_end p @ r"
  by (induction ps) (auto dest: complete_at_Some split: option.splits)

text \<open>A removed pattern with two empty delimiters matches again at once: the recursion of the
  source does not end, which is \<open>None\<close> here.\<close>

function process_complete_patterns :: "pattern list \<Rightarrow> ustr \<Rightarrow> (ustr \<times> pattern_match option) option" where
  "process_complete_patterns ps t =
     (case first_complete ps t of
        None \<Rightarrow> Some (t, None)
      | Some (p, before, content, rest) \<Rightarrow>
          (case pat_action p of
             Remove \<Rightarrow>
               if pat_start p = [] \<and> pat_end p = [] then None
               else process_complete_patterns ps (before @ rest)
           | Keep \<Rightarrow> Some (before @ trim content @ rest, None)
           | Aggregate \<Rightarrow> Some (before @ rest, Some \<lparr>pm_id = pat_id p, pm_content = trim content\<rparr>)))"
  by pat_completeness auto
termination
  by (relation "measure (\<lambda>(ps, t). length t)") (auto dest!: first_complete_Some)

declare process_complete_patterns.simps [simp del]

definition pair_char :: "pair_agg \<Rightarrow> uchar \<Rightarrow> (pair_agg \<times> pattern_match option) option" where
  "pair_char a ch = do {
     (t, m) \<leftarrow> process_complete_patterns (patterns a) (sa_text (pp_inner a) @ [ch]);
     let a1 = a\<lparr>pp_inner := (pp_inner a)\<lparr>sa_text := t\<rparr>\<rparr>;
     (case m of
        Some pm \<Rightarrow> Some (a1, Some pm)
      | None \<Rightarrow>
          if incomplete_pattern a1 then Some (a1, None)
          else do {
            (i, x) \<leftarrow> check_sentence_with_lookahead (pp_inner a1) ch;
            Some (a1\<lparr>pp_inner := i\<rparr>, map_option (\<lambda>s. \<lparr>pm_id = lit ''sentence'', pm_content = s\<rparr>) x)
          })
   }"

definition aggregate_matches :: "pair_agg \<Rightarrow> ustr \<Rightarrow> (pair_agg \<times> pattern_match list) option" where
  "aggregate_matches = char_loop pair_char"

definition pair_aggregate :: "pair_agg \<Rightarrow> ustr \<Rightarrow> (pair_agg \<times> ustr list) option" where
  "pair_aggregate a t = map_option (apsnd (map pm_content)) (aggregate_matches a t)"

definition pair_flush :: "pair_agg \<Rightarrow> pair_agg \<times> ustr option" where
  "pair_flush a = (let (i, x) = simple_flush (pp_inner a) in (a\<lparr>pp_inner := i\<rparr>, x))"

definition pair_reset :: "pair_agg \<Rightarrow> pair_agg" where
  "pair_reset a = a\<lparr>pp_inner := simple_reset (pp_inner a)\<rparr>"

section \<open>The Markdown filter\<close>

text \<open>\<open>s.replace(pat, "")\<close>.\<close>

function remove_all_matches :: "ustr \<Rightarrow> ustr \<Rightarrow> ustr" where
  "remove_all_matches pat s =
     (if pat = [] then s
      else case find_split pat s of
        None \<Rightarrow> s
      | Some (pre, post) \<Rightarrow> pre @ remove_all_matches pat post)"
  by pat_completeness auto
termination
  by (relation "measure (length \<circ> snd)") (auto dest!: find_split_Some)

declare remove_all_matches.simps [simp del]

definition link_at :: "ustr \<Rightarrow> (ustr \<times> ustr) option" where
  "link_at cs = do {
     (txt, rest) \<leftarrow> find_split [93] cs;
     if rest \<noteq> [] \<and> hd rest = 40 then do {
       (_, rest') \<leftarrow> find_split [41] rest;
       Some (txt, rest')
     } else None
   }"

lemma link_at_Some: "link_at cs = Some (txt, rest) \<Longrightarrow> \<exists>mid. cs = txt @ mid @ rest"
proof -
  assume "link_at cs = Some (txt, rest)"
  then obtain r u where "find_split [93] cs = Some (txt, r)" "find_split [41] r = Some (u, rest)"
    by (auto simp: link_at_def bind_eq_Some_conv split: if_splits)
  then have "cs = txt @ ([93] @ u @ [41]) @ rest" by (auto dest!: find_split_Some)
  then show ?thesis by blast
qed

function collapse_links :: "ustr \<Rightarrow> ustr" where
  "collapse_links [] = []"
| "collapse_links (c # cs) =
     (if c = 91 then
        case link_at cs of
          Some (txt, rest) \<Rightarrow> txt @ collapse_links rest
        | None \<Rightarrow> c # collapse_links cs
      else c # collapse_links cs)"
  by pat_completeness auto
termination
  by (relation "measure length") (auto dest!: link_at_Some)

declare collapse_links.simps [simp del]

definition strip_inline_markdown :: "ustr \<Rightarrow> ustr" where
  "strip_inline_markdown s =
     (let s1 = collapse_links s;
          s2 = remove_all_matches (lit ''**'') s1;
          s3 = remove_all_matches (lit ''__'') s2;
          s4 = remove_all_matches [96] s3;
          s5 = remove_all_matches (lit ''http://'') (remove_all_matches (lit ''https://'') s4)
      in filter (\<lambda>c. c \<noteq> 42 \<and> c \<noteq> 95) s5)"

text \<open>\<open>split_inclusive('\\n')\<close>: the lines, each with its newline flag.\<close>

fun split_lines :: "ustr \<Rightarrow> (ustr \<times> bool) list" where
  "split_lines [] = []"
| "split_lines (c # cs) =
     (if c = 10 then ([], True) # split_lines cs
      else case split_lines cs of
        [] \<Rightarrow> [([c], False)]
      | (l, nl) # ls \<Rightarrow> (c # l, nl) # ls)"

definition trim_start :: "ustr \<Rightarrow> ustr" where
  "trim_start s = dropWhile is_whitespace s"

definition strip_bullet :: "ustr \<Rightarrow> ustr" where
  "strip_bullet s =
     (case strip_prefix (lit ''- '') s of
        Some r \<Rightarrow> r
      | None \<Rightarrow>
         (case strip_prefix (lit ''* '') s of
            Some r \<Rightarrow> r
          | None \<Rightarrow> (case strip_prefix (lit ''+ '') s of Some r \<Rightarrow> r | None \<Rightarrow> s)))"

definition markdown_line :: "ustr \<Rightarrow> ustr" where
  "markdown_line body =
     (let trimmed = trim_start body;
          lead_ws = takeWhile is_whitespace body;
          c1 = trim_start (dropWhile (\<lambda>c. c = 35) trimmed);
          c2 = trim_start (dropWhile (\<lambda>c. c = 62) c1)
      in lead_ws @ strip_inline_markdown (strip_bullet c2))"

definition markdown_filter :: "bool \<Rightarrow> ustr \<Rightarrow> ustr" where
  "markdown_filter enabled t =
     (if \<not> enabled then t
      else concat (map (\<lambda>(body, nl). markdown_line body @ (if nl then [10] else [])) (split_lines t)))"

section \<open>The processors\<close>

text \<open>Pushing the sentences of one text frame.\<close>

fun push_texts :: "link \<Rightarrow> direction \<Rightarrow> ustr list \<Rightarrow> u64 \<Rightarrow> 'j eff list \<times> u64" where
  "push_texts l d [] n = ([], n)"
| "push_texts l d (t # ts) n =
     (if t = [] then push_texts l d ts n
      else let (m, n1) = frame_meta_new n (Text t :: 'j frame);
               (es, n2) = push_texts l d ts n1
           in (push l m (Text t) d @ es, n2))"

definition text_agg_process ::
  "('s \<Rightarrow> ustr \<Rightarrow> ('s \<times> ustr list) option) \<Rightarrow> ('s \<Rightarrow> 's \<times> ustr option) \<Rightarrow>
     link \<Rightarrow> 's \<Rightarrow> 'j envelope \<Rightarrow> u64 \<Rightarrow> ('s \<times> 'j eff list \<times> u64) option" where
  "text_agg_process aggregate flush l s env n =
     (let on_text = (\<lambda>t. do {
            (s', out) \<leftarrow> aggregate s t;
            let (es, n') = push_texts l (env_direction env) out n;
            Some (s', es, n')
          })
      in case env_frame env of
           LlmText t \<Rightarrow> on_text t
         | Text t \<Rightarrow> on_text t
         | LlmResponseEnd \<Rightarrow>
             (let (s', tail) = flush s;
                  (es, n') = (case tail of
                                Some t \<Rightarrow> if t \<noteq> [] then push_down l n (Text t) else ([], n)
                              | None \<Rightarrow> ([], n))
              in Some (s', es @ push_env l env, n'))
         | _ \<Rightarrow> Some (s, push_env l env, n))"

definition text_filter_process ::
  "('s \<Rightarrow> ustr \<Rightarrow> 's \<times> ustr) \<Rightarrow> link \<Rightarrow> 's \<Rightarrow> 'j envelope \<Rightarrow> u64 \<Rightarrow>
     's \<times> 'j eff list \<times> u64 \<times> ustr option" where
  "text_filter_process filt l s env n =
     (case env_frame env of
        LlmText t \<Rightarrow>
          (let (s', c) = filt s t
           in (s', if c = [] then [] else push l (env_meta env) (LlmText c) (env_direction env), n, None))
      | Text t \<Rightarrow>
          (let (s', c) = filt s t
           in (s', if c = [] then [] else push l (env_meta env) (Text c) (env_direction env), n, None))
      | _ \<Rightarrow> (s, push_env l env, n, None))"

text \<open>The aggregating processor over a sequence of frames, and the texts it pushed.\<close>

fun text_agg_run ::
  "('s \<Rightarrow> ustr \<Rightarrow> ('s \<times> ustr list) option) \<Rightarrow> ('s \<Rightarrow> 's \<times> ustr option) \<Rightarrow>
     link \<Rightarrow> 's \<Rightarrow> 'j envelope list \<Rightarrow> u64 \<Rightarrow> ('s \<times> 'j eff list \<times> u64) option" where
  "text_agg_run aggregate flush l s [] n = Some (s, [], n)"
| "text_agg_run aggregate flush l s (e # es) n = do {
     (s1, e1, n1) \<leftarrow> text_agg_process aggregate flush l s e n;
     (s2, e2, n2) \<leftarrow> text_agg_run aggregate flush l s1 es n1;
     Some (s2, e1 @ e2, n2)
   }"

definition text_of_frame :: "'j frame \<Rightarrow> ustr list" where
  "text_of_frame f = (case f of Text t \<Rightarrow> [t] | _ \<Rightarrow> [])"

fun pushed_texts :: "'j eff list \<Rightarrow> ustr list" where
  "pushed_texts [] = []"
| "pushed_texts (Send tx e # es) = text_of_frame (env_frame e) @ pushed_texts es"
| "pushed_texts (_ # es) = pushed_texts es"

lemma pushed_texts_append [simp]: "pushed_texts (xs @ ys) = pushed_texts xs @ pushed_texts ys"
  by (induction xs rule: pushed_texts.induct) simp_all

lemma pushed_texts_push [simp]:
  "pushed_texts (push l m (Text t) Downstream) = (if l_next l = None then [] else [t])"
  by (simp add: push_def Let_def text_of_frame_def split: option.split)

lemma pushed_texts_push_texts:
  "l_next l \<noteq> None \<Longrightarrow> pushed_texts (fst (push_texts l Downstream ts n)) = filter (\<lambda>t. t \<noteq> []) ts"
  by (induction ts arbitrary: n) (auto simp: Let_def split: prod.splits, (metis fst_conv)+)

text \<open>A downstream text frame.\<close>

definition text_env :: "'j envelope \<Rightarrow> ustr \<Rightarrow> bool" where
  "text_env e t \<longleftrightarrow> env_direction e = Downstream \<and> (env_frame e = LlmText t \<or> env_frame e = Text t)"

lemma concat_filter_nonempty: "concat (filter (\<lambda>t. t \<noteq> []) ts) = concat ts"
  by (induction ts) simp_all

section \<open>Where a sentence ends\<close>

lemma last_boundary_Some:
  "last_boundary t = Some i \<Longrightarrow> i < length t \<and> is_boundary t i"
proof -
  have "foldl (\<lambda>idx i. if is_boundary t i then Some i else idx) None [0..<n] = Some i \<Longrightarrow>
      i < n \<and> is_boundary t i" for n
    by (induction n) (auto split: if_splits)
  then show "last_boundary t = Some i \<Longrightarrow> i < length t \<and> is_boundary t i"
    by (simp add: last_boundary_def)
qed

lemma extend_run_bounds:
  "e < length t \<Longrightarrow> ends_sentence (t ! e) \<Longrightarrow>
     extend_run t e < length t \<and> e \<le> extend_run t e \<and> ends_sentence (t ! extend_run t e)"
proof (induction t e rule: extend_run.induct)
  case (1 t e)
  then show ?case
    by (subst (1 2 3) extend_run.simps) (auto split: if_splits)
qed

lemma match_endofsentence_Some:
  assumes "match_endofsentence t = Some m"
  obtains k where "k < length t" "ends_sentence (t ! k)" "split_at_byte m t = Some (take (Suc k) t, drop (Suc k) t)"
proof -
  from assms obtain i where i: "last_boundary t = Some i"
    and m: "m = byte_len (take (Suc (extend_run t i)) t)"
    by (auto simp: match_endofsentence_def byte_len_def)
  have "i < length t" "ends_sentence (t ! i)"
    using last_boundary_Some [OF i] by (auto simp: is_boundary_def)
  from extend_run_bounds [OF this] have "extend_run t i < length t" "ends_sentence (t ! extend_run t i)"
    by auto
  moreover have "split_at_byte m t = Some (take (Suc (extend_run t i)) t, drop (Suc (extend_run t i)) t)"
    using split_at_byte_append [of "take (Suc (extend_run t i)) t" "drop (Suc (extend_run t i)) t"]
    by (simp add: m)
  ultimately show ?thesis by (rule that)
qed

text \<open>A piece of text cut off as a sentence.\<close>

definition sentence :: "ustr \<Rightarrow> bool" where
  "sentence r \<longleftrightarrow> r \<noteq> [] \<and> ends_sentence (last r)"

lemma check_sentence_total:
  "\<exists>a' x raw. check_sentence_with_lookahead a ch = Some (a', x) \<and> sa_text a = raw @ sa_text a' \<and>
     (case x of None \<Rightarrow> raw = [] | Some r \<Rightarrow> sentence raw \<and> r = trim_spaces raw)"
proof (cases "needs_lookahead a \<and> \<not> is_whitespace ch")
  case True
  show ?thesis
  proof (cases "match_endofsentence (sa_text a)")
    case None
    then show ?thesis using True by (auto simp: check_sentence_with_lookahead_def)
  next
    case (Some m)
    then obtain k where k: "k < length (sa_text a)" "ends_sentence (sa_text a ! k)"
      "split_at_byte m (sa_text a) = Some (take (Suc k) (sa_text a), drop (Suc k) (sa_text a))"
      by (rule match_endofsentence_Some)
    then have "sentence (take (Suc k) (sa_text a))" by (auto simp: sentence_def take_Suc_conv_app_nth)
    then show ?thesis
      using True Some k(3) by (auto simp: check_sentence_with_lookahead_def intro!: exI [of _ "take (Suc k) (sa_text a)"])
  qed
next
  case False
  then show ?thesis by (auto simp: check_sentence_with_lookahead_def)
qed

lemma check_sentenceD:
  assumes "check_sentence_with_lookahead a ch = Some (a', x)"
  shows "\<exists>raw. sa_text a = raw @ sa_text a' \<and>
     (case x of None \<Rightarrow> raw = [] | Some r \<Rightarrow> sentence raw \<and> r = trim_spaces raw)"
  using check_sentence_total [of a ch] assms by auto

lemma trim_sentence:
  assumes "sentence raw"
  shows "trim_spaces raw \<noteq> [] \<and> ends_sentence (last (trim_spaces raw))"
proof -
  obtain ys y where raw: "raw = ys @ [y]" and y: "ends_sentence y"
    using assms by (cases raw rule: rev_cases) (auto simp: sentence_def)
  have "y \<noteq> 32" using y by (auto simp: sentence_ending_punctuation_def)
  then have "\<exists>zs. trim_spaces raw = zs @ [y]"
    unfolding raw trim_by_def by (simp add: dropWhile_append)
  then show ?thesis using y by auto
qed

section \<open>The contract of an aggregator\<close>

abbreviation no_spaces :: "ustr \<Rightarrow> ustr" where
  "no_spaces \<equiv> filter (\<lambda>c. \<not> c = 32)"

abbreviation no_ws :: "ustr \<Rightarrow> ustr" where
  "no_ws \<equiv> filter (\<lambda>c. \<not> is_whitespace c)"

lemma no_ws_no_spaces: "no_spaces s = no_spaces t \<Longrightarrow> no_ws s = no_ws t"
proof -
  have "no_ws u = no_ws (no_spaces u)" for u by (auto simp: is_whitespace_def intro!: filter_cong)
  then show "no_spaces s = no_spaces t \<Longrightarrow> no_ws s = no_ws t" by metis
qed

text \<open>The characters of a text that are not whitespace, as a multiset.\<close>

definition letters :: "ustr \<Rightarrow> uchar multiset" where
  "letters s = mset (no_ws s)"

lemma letters_simps [simp]:
  "letters [] = {#}" "letters (s @ t) = letters s + letters t" "letters (trim s) = letters s"
  by (simp_all add: letters_def)

lemma letters_no_spaces: "no_spaces s = no_spaces t \<Longrightarrow> letters s = letters t"
  using no_ws_no_spaces [of s t] by (simp add: letters_def)

lemma letters_trim_spaces [simp]: "letters (trim_spaces s) = letters s"
  by (rule letters_no_spaces) simp

lemma char_loop_append:
  "char_loop f s (t @ u) = do {
     (s1, o1) \<leftarrow> char_loop f s t;
     (s2, o2) \<leftarrow> char_loop f s1 u;
     Some (s2, o1 @ o2)
   }"
proof (induction t arbitrary: s)
  case (Cons c t)
  then show ?case
    by (cases "f s c") (auto simp: bind_eq_Some_conv bind_eq_None_conv split: Option.bind_splits)
qed (auto split: Option.bind_splits)

locale text_aggregator =
  fixes aggregate :: "'s \<Rightarrow> ustr \<Rightarrow> ('s \<times> ustr list) option"
    and flush :: "'s \<Rightarrow> 's \<times> ustr option"
    and reset :: "'s \<Rightarrow> 's"
    and inv :: "'s \<Rightarrow> bool"
    and buf :: "'s \<Rightarrow> ustr"
  assumes total: "inv s \<Longrightarrow> \<exists>s' out. aggregate s t = Some (s', out)"
    and keeps: "inv s \<Longrightarrow> aggregate s t = Some (s', out) \<Longrightarrow> inv s'"
    and chunks: "aggregate s (t @ u) = do {
        (s1, o1) \<leftarrow> aggregate s t; (s2, o2) \<leftarrow> aggregate s1 u; Some (s2, o1 @ o2) }"
    and nil: "aggregate s [] = Some (s, [])"
    and no_invention: "inv s \<Longrightarrow> aggregate s t = Some (s', out) \<Longrightarrow>
        letters (concat out @ buf s') \<subseteq># letters (buf s @ t)"
    and flush: "inv s \<Longrightarrow> flush s = (s', x) \<Longrightarrow>
        inv s' \<and> buf s' = [] \<and> concat (opt_list x) = trim_spaces (buf s)"
    and reset: "inv s \<Longrightarrow> inv (reset s) \<and> buf (reset s) = []"
begin

fun feed :: "'s \<Rightarrow> ustr list \<Rightarrow> ('s \<times> ustr list) option" where
  "feed s [] = Some (s, [])"
| "feed s (t # ts) = do { (s1, o1) \<leftarrow> aggregate s t; (s2, o2) \<leftarrow> feed s1 ts; Some (s2, o1 @ o2) }"

text \<open>How the stream is cut into chunks does not matter.\<close>

lemma feed_concat: "feed s ts = aggregate s (concat ts)"
  by (induction ts arbitrary: s) (auto simp: nil chunks)

lemma feed_total: "inv s \<Longrightarrow> \<exists>s' out. feed s ts = Some (s', out) \<and> inv s'"
  using total [of s "concat ts"] keeps by (auto simp: feed_concat)

lemma response_no_invention:
  assumes "inv s" "buf s = []" "feed s ts = Some (s1, out)" "flush s1 = (s2, x)"
  shows "letters (concat (out @ opt_list x)) \<subseteq># letters (concat ts)"
proof -
  have a: "aggregate s (concat ts) = Some (s1, out)" using assms(3) by (simp add: feed_concat)
  have "letters (concat (opt_list x)) = letters (buf s1)"
    using flush [OF keeps [OF assms(1) a] assms(4)] by simp
  then show ?thesis using no_invention [OF assms(1) a] assms(2) by simp
qed

end

locale lossless_aggregator = text_aggregator +
  assumes lossless: "inv s \<Longrightarrow> aggregate s t = Some (s', out) \<Longrightarrow>
      no_spaces (concat out @ buf s') = no_spaces (buf s @ t)"
begin

lemma response_lossless:
  assumes "inv s" "buf s = []" "feed s ts = Some (s1, out)" "flush s1 = (s2, x)"
  shows "no_spaces (concat (out @ opt_list x)) = no_spaces (concat ts)"
proof -
  have a: "aggregate s (concat ts) = Some (s1, out)" using assms(3) by (simp add: feed_concat)
  have "no_spaces (concat (opt_list x)) = no_spaces (buf s1)"
    using flush [OF keeps [OF assms(1) a] assms(4)] by (metis filter_trim_by)
  then show ?thesis using lossless [OF assms(1) a] assms(2) by (simp del: filter_concat)
qed

lemma run_texts:
  assumes "inv s" and "list_all2 text_env envs ts" and "l_next l \<noteq> None" and "feed s ts = Some (s1, out)"
  shows "\<exists>es n'. text_agg_run aggregate flush l s envs n = Some (s1, es :: 'j eff list, n') \<and>
    pushed_texts es = filter (\<lambda>t. t \<noteq> []) out"
  using assms
proof (induction envs arbitrary: s ts out n)
  case Nil
  then show ?case by simp
next
  case (Cons e envs)
  then obtain t ts' where ts: "ts = t # ts'" "text_env e t" "list_all2 text_env envs ts'"
    by (auto simp: list_all2_Cons1)
  from Cons.prems(4) obtain s' o1 o2 where a: "aggregate s t = Some (s', o1)"
    and f: "feed s' ts' = Some (s1, o2)" and out: "out = o1 @ o2"
    by (auto simp: ts(1) bind_eq_Some_conv)
  obtain es1 n1 where p: "push_texts l Downstream o1 n = (es1 :: 'j eff list, n1)"
    by (cases "push_texts l Downstream o1 n :: 'j eff list \<times> u64")
  from Cons.IH [OF keeps [OF Cons.prems(1) a] ts(3) Cons.prems(3) f, of n1] obtain es2 n2 where
    r: "text_agg_run aggregate flush l s' envs n1 = Some (s1, es2 :: 'j eff list, n2)"
    "pushed_texts es2 = filter (\<lambda>t. t \<noteq> []) o2" by blast
  have "text_agg_process aggregate flush l s e n = Some (s', es1, n1)"
    using ts(2) a p by (auto simp: text_agg_process_def text_env_def)
  moreover have "pushed_texts es1 = filter (\<lambda>t. t \<noteq> []) o1"
    using pushed_texts_push_texts [OF Cons.prems(3), where ?'a = 'j, of o1 n] p by simp
  ultimately show ?case using r by (simp add: out)
qed

lemma run_response:
  fixes e :: "'j envelope"
  assumes "inv s" and "buf s = []" and "list_all2 text_env envs ts" and "l_next l \<noteq> None"
    and e: "env_frame e = LlmResponseEnd"
  shows "\<exists>s' es n'. text_agg_run aggregate flush l s (envs @ [e]) n = Some (s', es @ push_env l e, n') \<and>
    [] \<notin> set (pushed_texts es) \<and> no_spaces (concat (pushed_texts es)) = no_spaces (concat ts) \<and>
    inv s' \<and> buf s' = []"
proof -
  obtain s1 out where f: "feed s ts = Some (s1, out)" "inv s1" using feed_total [OF assms(1)] by blast
  obtain s2 x where fl: "flush s1 = (s2, x)" by (cases "flush s1")
  from run_texts [OF assms(1,3,4) f(1), of n] obtain es n1 where
    r: "text_agg_run aggregate flush l s envs n = Some (s1, es, n1)"
    "pushed_texts es = filter (\<lambda>t. t \<noteq> []) out" by blast
  define tl where "tl = (case x of
      Some t \<Rightarrow> if t \<noteq> [] then push_down l n1 (Text t) else ([], n1) | None \<Rightarrow> ([] :: 'j eff list, n1))"
  obtain es2 n2 where tl: "tl = (es2, n2)" by (cases tl)
  have p: "text_agg_process aggregate flush l s1 e n1 = Some (s2, es2 @ push_env l e, n2)"
    using fl tl by (simp add: text_agg_process_def e tl_def [symmetric])
  have t2: "pushed_texts es2 = filter (\<lambda>t. t \<noteq> []) (opt_list x)"
    using assms(4) tl
    by (auto simp: tl_def push_down_def Let_def split: option.splits prod.splits if_splits)
  have app: "text_agg_run aggregate flush l s (envs @ es') n = do {
      (s1, e1, n1) \<leftarrow> text_agg_run aggregate flush l s envs n;
      (s2, e2, n2) \<leftarrow> text_agg_run aggregate flush l s1 es' n1;
      Some (s2, e1 @ e2, n2) }" for es' s n
    by (induction envs arbitrary: s n) (auto split: Option.bind_splits)
  have "no_spaces (concat (pushed_texts (es @ es2))) = no_spaces (concat ts)"
    using response_lossless [OF assms(1,2) f(1) fl]
    by (simp add: r(2) t2 concat_filter_nonempty del: filter_concat)
  then show ?thesis
    using r p flush [OF f(2) fl] t2
    by (intro exI [of _ s2] exI [of _ "es @ es2"] exI [of _ n2]) (simp add: app)
qed

end

section \<open>The aggregators keep the contract\<close>

lemma char_loop_total:
  assumes "\<And>s c. ok s \<Longrightarrow> \<exists>s' x. f s c = Some (s', x) \<and> ok s'" and "ok s"
  shows "\<exists>s' out. char_loop f s t = Some (s', out)"
  using assms(2)
proof (induction t arbitrary: s)
  case (Cons c t)
  from assms(1) [OF Cons.prems] obtain s1 x where f: "f s c = Some (s1, x)" "ok s1" by blast
  from Cons.IH [OF f(2)] f(1) show ?case by auto
qed simp

lemma char_loop_lossless:
  assumes step: "\<And>s c s' x. ok s \<Longrightarrow> f s c = Some (s', x) \<Longrightarrow>
      ok s' \<and> no_spaces (concat (opt_list x) @ buf s') = no_spaces (buf s @ [c])"
    and "ok s" and "char_loop f s t = Some (s', out)"
  shows "ok s' \<and> no_spaces (concat out @ buf s') = no_spaces (buf s @ t)"
  using assms(2,3)
proof (induction t arbitrary: s out)
  case (Cons c t)
  from Cons.prems(2) obtain s1 x o2 where f: "f s c = Some (s1, x)"
    and r: "char_loop f s1 t = Some (s', o2)" and out: "out = opt_list x @ o2"
    by (auto simp: bind_eq_Some_conv)
  from step [OF Cons.prems(1) f] Cons.IH [OF _ r] have
    "ok s'" "no_spaces (concat (opt_list x) @ buf s1) = no_spaces (buf s @ [c])"
    "no_spaces (concat o2 @ buf s') = no_spaces (buf s1 @ t)" by auto
  then show ?case by (simp add: out del: filter_concat)
qed simp

lemma lossless_no_invention:
  "no_spaces s = no_spaces t \<Longrightarrow> letters s \<subseteq># letters t"
  by (drule letters_no_spaces) simp

lemma check_sentence_step:
  assumes "check_sentence_with_lookahead a ch = Some (a', x)"
  shows "no_spaces (concat (opt_list x) @ sa_text a') = no_spaces (sa_text a)"
proof -
  from check_sentenceD [OF assms] obtain raw where raw: "sa_text a = raw @ sa_text a'"
    "case x of None \<Rightarrow> raw = [] | Some r \<Rightarrow> sentence raw \<and> r = trim_spaces raw" by blast
  then show ?thesis by (cases x) simp_all
qed

lemma simple_char_step:
  "simple_char a c = Some (a', x) \<Longrightarrow>
     no_spaces (concat (opt_list x) @ sa_text a') = no_spaces (sa_text a @ [c])"
  unfolding simple_char_def by (drule check_sentence_step) (simp del: filter_concat)

lemma simple_char_total: "\<exists>a' x. simple_char a c = Some (a', x)"
  using check_sentence_total [of "a\<lparr>sa_text := sa_text a @ [c]\<rparr>" c] by (auto simp: simple_char_def)

lemma simple_flush_facts:
  "simple_flush a = (a', x) \<Longrightarrow> sa_text a' = [] \<and> concat (opt_list x) = trim_spaces (sa_text a)"
  by (auto simp: simple_flush_def split: if_splits)

interpretation simple: lossless_aggregator simple_aggregate simple_flush simple_reset "\<lambda>_. True" sa_text
proof (unfold_locales, goal_cases)
  case (1 s t)
  then show ?case
    unfolding simple_aggregate_def using char_loop_total [of "\<lambda>_. True" simple_char] simple_char_total by auto
next
  case (3 s t u)
  then show ?case unfolding simple_aggregate_def by (rule char_loop_append)
next
  case (5 s t s' out)
  then show ?case
    unfolding simple_aggregate_def
    using char_loop_lossless [of "\<lambda>_. True" simple_char sa_text] simple_char_step lossless_no_invention
    by blast
next
  case (8 s t s' out)
  then show ?case
    unfolding simple_aggregate_def
    using char_loop_lossless [of "\<lambda>_. True" simple_char sa_text] simple_char_step by blast
qed (auto simp: simple_aggregate_def simple_reset_def dest: simple_flush_facts)

abbreviation skip_text :: "skip_agg \<Rightarrow> ustr" where
  "skip_text a \<equiv> sa_text (sk_inner a)"

lemma update_tag_state_inner [simp]: "sk_inner (update_tag_state a) = sk_inner a"
  by (simp add: update_tag_state_def)

lemma skip_char_total: "\<exists>a' x. skip_char a c = Some (a', x)"
  using check_sentence_total [of "(sk_inner a)\<lparr>sa_text := skip_text a @ [c]\<rparr>" c]
  by (auto simp: skip_char_def Let_def)

lemma skip_char_step:
  "skip_char a c = Some (a', x) \<Longrightarrow>
     no_spaces (concat (opt_list x) @ skip_text a') = no_spaces (skip_text a @ [c])"
  by (auto simp: skip_char_def Let_def bind_eq_Some_conv simp del: filter_concat filter_append
      dest!: check_sentence_step split: if_splits)

interpretation skip: lossless_aggregator skip_aggregate skip_flush skip_reset "\<lambda>_. True" skip_text
proof (unfold_locales, goal_cases)
  case (1 s t)
  then show ?case
    unfolding skip_aggregate_def using char_loop_total [of "\<lambda>_. True" skip_char] skip_char_total by auto
next
  case (3 s t u)
  then show ?case unfolding skip_aggregate_def by (rule char_loop_append)
next
  case (5 s t s' out)
  then show ?case
    unfolding skip_aggregate_def
    using char_loop_lossless [of "\<lambda>_. True" skip_char skip_text] skip_char_step lossless_no_invention
    by blast
next
  case (8 s t s' out)
  then show ?case
    unfolding skip_aggregate_def
    using char_loop_lossless [of "\<lambda>_. True" skip_char skip_text] skip_char_step by blast
qed (auto simp: skip_aggregate_def skip_reset_def simple_reset_def skip_flush_def
      dest: simple_flush_facts split: prod.splits)

abbreviation pair_text :: "pair_agg \<Rightarrow> ustr" where
  "pair_text a \<equiv> sa_text (pp_inner a)"

definition pattern_ok :: "pattern \<Rightarrow> bool" where
  "pattern_ok p \<longleftrightarrow> \<not> (pat_action p = Remove \<and> pat_start p = [] \<and> pat_end p = [])"

abbreviation pair_ok :: "pair_agg \<Rightarrow> bool" where
  "pair_ok a \<equiv> list_all pattern_ok (patterns a)"

lemma process_complete_patterns_total:
  assumes "list_all pattern_ok ps"
  shows "\<exists>t' m. process_complete_patterns ps t = Some (t', m) \<and>
    letters (concat (map pm_content (opt_list m)) @ t') \<subseteq># letters t"
  using assms
proof (induction ps t rule: process_complete_patterns.induct)
  case (1 ps t)
  show ?case
  proof (cases "first_complete ps t")
    case None
    then show ?thesis by (subst process_complete_patterns.simps) simp
  next
    case (Some x)
    then obtain p b c r where x: "first_complete ps t = Some (p, b, c, r)" by (cases x) auto
    have t: "t = b @ pat_start p @ c @ pat_end p @ r" and p: "p \<in> set ps"
      using first_complete_Some [OF x] by auto
    have br: "letters (b @ r) \<subseteq># letters t" "letters (c @ b @ r) \<subseteq># letters t"
      unfolding t by (simp_all add: mset_subset_eq_exists_conv)
    show ?thesis
    proof (cases "pat_action p")
      case Remove
      then have ne: "\<not> (pat_start p = [] \<and> pat_end p = [])"
        using "1.prems" p by (auto simp: list_all_iff pattern_ok_def)
      from "1.IH" [OF x refl refl refl Remove ne "1.prems"] obtain t' m where
        r: "process_complete_patterns ps (b @ r) = Some (t', m)"
        "letters (concat (map pm_content (opt_list m)) @ t') \<subseteq># letters (b @ r)" by blast
      show ?thesis
        using x Remove ne r br(1) by (subst process_complete_patterns.simps) (auto intro: subset_mset.order_trans)
    next
      case Keep
      have "letters (b @ trim c @ r) \<subseteq># letters t"
        using br(2) by (simp add: add.left_commute)
      then show ?thesis using x Keep by (subst process_complete_patterns.simps) simp
    next
      case Aggregate
      then show ?thesis using x br(2) by (subst process_complete_patterns.simps) simp
    qed
  qed
qed

lemma pair_char_step:
  assumes "pair_ok a"
  shows "\<exists>a' x. pair_char a c = Some (a', x) \<and> patterns a' = patterns a \<and>
    letters (concat (map pm_content (opt_list x)) @ pair_text a') \<subseteq># letters (pair_text a @ [c])"
proof -
  from process_complete_patterns_total [OF assms, of "pair_text a @ [c]"] obtain t m where
    p: "process_complete_patterns (patterns a) (pair_text a @ [c]) = Some (t, m)"
    "letters (concat (map pm_content (opt_list m)) @ t) \<subseteq># letters (pair_text a @ [c])" by blast
  let ?a1 = "a\<lparr>pp_inner := (pp_inner a)\<lparr>sa_text := t\<rparr>\<rparr>"
  show ?thesis
  proof (cases "m \<noteq> None \<or> incomplete_pattern ?a1")
    case True
    then show ?thesis using p by (auto simp: pair_char_def Let_def split: option.splits)
  next
    case False
    from check_sentence_total [of "pp_inner ?a1" c] obtain i x where
      ch: "check_sentence_with_lookahead (pp_inner ?a1) c = Some (i, x)" by blast
    let ?x = "map_option (\<lambda>s. \<lparr>pm_id = lit ''sentence'', pm_content = s\<rparr>) x"
    have "pair_char a c = Some (?a1\<lparr>pp_inner := i\<rparr>, ?x)"
      using p(1) False ch by (simp add: pair_char_def)
    moreover have "concat (map pm_content (opt_list ?x)) = concat (opt_list x)"
      by (cases x) simp_all
    moreover have "letters (concat (opt_list x) @ sa_text i) = letters t"
      using letters_no_spaces [OF check_sentence_step [OF ch]] by simp
    ultimately show ?thesis
      using p(2) False by (intro exI [of _ "?a1\<lparr>pp_inner := i\<rparr>"] exI [of _ ?x]) simp
  qed
qed

lemma pair_loop:
  assumes "pair_ok a"
  shows "\<exists>a' out. char_loop pair_char a t = Some (a', out) \<and> patterns a' = patterns a \<and>
    letters (concat (map pm_content out) @ pair_text a') \<subseteq># letters (pair_text a @ t)"
  using assms
proof (induction t arbitrary: a)
  case (Cons c t)
  from pair_char_step [OF Cons.prems, of c] obtain a1 x where
    1: "pair_char a c = Some (a1, x)" "patterns a1 = patterns a"
    "letters (concat (map pm_content (opt_list x)) @ pair_text a1) \<subseteq># letters (pair_text a @ [c])"
    by blast
  from Cons.IH [of a1] Cons.prems 1(2) obtain a2 out where
    2: "char_loop pair_char a1 t = Some (a2, out)" "patterns a2 = patterns a"
    "letters (concat (map pm_content out) @ pair_text a2) \<subseteq># letters (pair_text a1 @ t)" by auto
  have "letters (concat (map pm_content (opt_list x @ out)) @ pair_text a2) \<subseteq>#
      letters (pair_text a @ c # t)"
  proof -
    have "letters (concat (map pm_content (opt_list x))) + letters (concat (map pm_content out) @ pair_text a2) \<subseteq>#
        letters (concat (map pm_content (opt_list x))) + letters (pair_text a1 @ t)"
      using 2(3) by (rule subset_mset.add_left_mono)
    also have "\<dots> = letters (concat (map pm_content (opt_list x)) @ pair_text a1) + letters t" by simp
    also have "\<dots> \<subseteq># letters (pair_text a @ [c]) + letters t"
      using 1(3) by (rule subset_mset.add_right_mono)
    also have "\<dots> = letters ((pair_text a @ [c]) @ t)" by (simp only: letters_simps(2))
    finally show ?thesis by (simp add: ac_simps)
  qed
  with 1 2 show ?case by (auto simp: add.assoc)
qed simp

interpretation pair: text_aggregator pair_aggregate pair_flush pair_reset pair_ok pair_text
proof (unfold_locales, goal_cases)
  case (1 s t)
  then show ?case using pair_loop [of s t] by (auto simp: pair_aggregate_def aggregate_matches_def)
next
  case (2 s t s' out)
  then show ?case using pair_loop [of s t] by (auto simp: pair_aggregate_def aggregate_matches_def)
next
  case (3 s t u)
  then show ?case
    by (auto simp: pair_aggregate_def aggregate_matches_def char_loop_append split: Option.bind_splits)
next
  case (5 s t s' out)
  then show ?case using pair_loop [of s t]
    by (auto simp: pair_aggregate_def aggregate_matches_def)
qed (auto simp: pair_aggregate_def aggregate_matches_def pair_reset_def simple_reset_def pair_flush_def
      dest: simple_flush_facts split: prod.splits)

lemma char_loop_outputs:
  assumes "\<And>s c s' x. f s c = Some (s', Some x) \<Longrightarrow> Q x" and "char_loop f s t = Some (s', out)" and "x \<in> set out"
  shows "Q x"
  using assms(2,3)
proof (induction t arbitrary: s out)
  case (Cons c t)
  then obtain s1 y o2 where f: "f s c = Some (s1, y)" "char_loop f s1 t = Some (s', o2)"
    and out: "out = opt_list y @ o2"
    by (auto simp: bind_eq_Some_conv)
  with Cons.prems(2) Cons.IH [OF f(2)] assms(1) [of s c s1] show ?case by (cases y) auto
qed simp

section \<open>The Markdown filter removes and never adds\<close>

lemma remove_all_matches_subset: "set (remove_all_matches pat s) \<subseteq> set s"
proof (induction pat s rule: remove_all_matches.induct)
  case (1 pat s)
  show ?case
  proof (cases "pat = [] \<or> find_split pat s = None")
    case True
    then show ?thesis by (subst remove_all_matches.simps) auto
  next
    case False
    then obtain pre post where f: "find_split pat s = Some (pre, post)" "pat \<noteq> []" by auto
    have "set (remove_all_matches pat post) \<subseteq> set post" using "1.IH" f by auto
    then show ?thesis using f find_split_Some [OF f(1)] by (subst remove_all_matches.simps) auto
  qed
qed

lemma find_split_single_None: "find_split [c] s = None \<longleftrightarrow> c \<notin> set s"
  by (induction s) auto

lemma find_split_single_Some: "find_split [c] s = Some (pre, post) \<Longrightarrow> c \<notin> set pre"
  by (induction s arbitrary: pre) (auto split: if_splits)

lemma remove_all_matches_single: "c \<notin> set (remove_all_matches [c] s)"
proof (induction "[c]" s rule: remove_all_matches.induct)
  case (1 s)
  show ?case
  proof (cases "find_split [c] s")
    case None
    then show ?thesis by (subst remove_all_matches.simps) (simp, simp add: find_split_single_None)
  next
    case (Some x)
    then obtain pre post where f: "find_split [c] s = Some (pre, post)" by (cases x) auto
    have "c \<notin> set (remove_all_matches [c] post)" using "1" f by auto
    then show ?thesis
      using f find_split_single_Some [OF f] by (subst remove_all_matches.simps) auto
  qed
qed

lemma collapse_links_subset: "set (collapse_links s) \<subseteq> set s"
proof (induction s rule: collapse_links.induct)
  case 1
  then show ?case by (simp add: collapse_links.simps)
next
  case (2 c cs)
  show ?case
  proof (cases "c = 91 \<and> link_at cs \<noteq> None")
    case True
    then obtain lt rest where l: "c = 91" "link_at cs = Some (lt, rest)" by auto
    then have "set (collapse_links rest) \<subseteq> set rest" using "2.IH" by auto
    then show ?thesis using l link_at_Some [OF l(2)] by (auto simp: collapse_links.simps)
  next
    case False
    then have "set (collapse_links cs) \<subseteq> set cs" using "2.IH" by (cases "c = 91"; cases "link_at cs") auto
    then show ?thesis using False by (cases "link_at cs") (auto simp: collapse_links.simps)
  qed
qed

lemma strip_inline_subset:
  "set (strip_inline_markdown s) \<subseteq> set s - {42, 95, 96}"
proof -
  let ?s3 = "remove_all_matches (lit ''__'') (remove_all_matches (lit ''**'') (collapse_links s))"
  let ?s4 = "remove_all_matches [96] ?s3"
  let ?s5 = "remove_all_matches (lit ''http://'') (remove_all_matches (lit ''https://'') ?s4)"
  have "set ?s3 \<subseteq> set s"
    using remove_all_matches_subset collapse_links_subset by (meson subset_trans)
  then have "set ?s4 \<subseteq> set s - {96}"
    using remove_all_matches_subset [of "[96]" ?s3] remove_all_matches_single [of 96 ?s3] by blast
  then have "set ?s5 \<subseteq> set s - {96}"
    using remove_all_matches_subset by (meson subset_trans)
  moreover have "set (strip_inline_markdown s) \<subseteq> set ?s5 - {42, 95}"
    unfolding strip_inline_markdown_def Let_def by auto
  ultimately show ?thesis by blast
qed

lemma strip_bullet_subset: "set (strip_bullet s) \<subseteq> set s"
  by (auto simp: strip_bullet_def strip_prefix_Some split: option.splits)

lemma markdown_line_subset: "set (markdown_line b) \<subseteq> set b - {42, 95, 96}"
proof -
  let ?c = "strip_bullet (trim_start (dropWhile (\<lambda>c. c = 62) (trim_start (dropWhile (\<lambda>c. c = 35) (trim_start b)))))"
  have "set ?c \<subseteq> set b"
    using strip_bullet_subset by (fastforce simp: trim_start_def dest: set_dropWhileD)
  moreover have "set (takeWhile is_whitespace b) \<subseteq> set b - {42, 95, 96}"
    by (auto dest: set_takeWhileD simp: is_whitespace_def)
  ultimately show ?thesis
    using strip_inline_subset [of ?c] by (auto simp: markdown_line_def Let_def)
qed

lemma split_lines_join:
  "concat (map (\<lambda>(b, nl). b @ (if nl then [10] else [])) (split_lines t)) = t"
  by (induction t) (auto split: list.splits)

lemma split_lines_nl: "(b, True) \<in> set (split_lines t) \<Longrightarrow> 10 \<in> set t"
  by (induction t arbitrary: b) (auto split: list.splits if_splits)

lemma split_lines_body: "(b, nl) \<in> set (split_lines t) \<Longrightarrow> set b \<subseteq> set t"
proof -
  assume "(b, nl) \<in> set (split_lines t)"
  then have "set b \<subseteq> set (concat (map (\<lambda>(b, nl). b @ (if nl then [10] else [])) (split_lines t)))"
    by force
  then show "set b \<subseteq> set t" by (simp only: split_lines_join)
qed

section \<open>Properties\<close>

text \<open>C9. The sentence aggregator in the pipeline loses nothing and invents nothing: fed the text
  frames of a response, in whatever chunks, and the end of the response, the processor pushes
  non-empty texts whose concatenation is the response text up to spaces, all before the end
  marker, and is left with an empty buffer.\<close>

theorem simple_response_lossless:
  assumes "sa_text s = []" and "list_all2 text_env envs ts" and "l_next l \<noteq> None"
    and "env_frame e = LlmResponseEnd"
  shows "\<exists>s' es n'. text_agg_run simple_aggregate simple_flush l s (envs @ [e]) n =
      Some (s', es @ push_env l e, n') \<and> [] \<notin> set (pushed_texts es) \<and>
    no_spaces (concat (pushed_texts es)) = no_spaces (concat ts) \<and> sa_text s' = []"
  using simple.run_response [OF TrueI assms] by blast

theorem simple_response_lossless_witness:
  "\<exists>s' es n'. text_agg_run simple_aggregate simple_flush ex_link simple_new
      ([ex_env (LlmText (lit ''Hi. I'')) Downstream, ex_env (LlmText (lit '' am'')) Downstream] @
       [ex_env LlmResponseEnd Downstream]) 9 = Some (s', es @ push_env ex_link (ex_env LlmResponseEnd Downstream), n') \<and>
    no_spaces (concat (pushed_texts es)) = lit ''Hi.Iam''"
proof -
  have 1: "sa_text simple_new = []" by (simp add: simple_new_def)
  have 2: "list_all2 text_env [ex_env (LlmText (lit ''Hi. I'')) Downstream, ex_env (LlmText (lit '' am'')) Downstream]
      [lit ''Hi. I'', lit '' am'']" by (simp add: text_env_def)
  have 3: "l_next ex_link \<noteq> None" by (simp add: ex_link_def)
  have 4: "env_frame (ex_env LlmResponseEnd Downstream) = LlmResponseEnd" by simp
  from simple_response_lossless [OF 1 2 3 4, of 9] show ?thesis by auto
qed

text \<open>Tag-aware aggregation is lossless in the same sense: text inside and outside the tags
  reaches the pipeline, in order, whatever the tag pairs are.\<close>

lemma skip_response_lossless:
  assumes "skip_text s = []" and "list_all2 text_env envs ts" and "l_next l \<noteq> None"
    and "env_frame e = LlmResponseEnd"
  shows "\<exists>s' es n'. text_agg_run skip_aggregate skip_flush l s (envs @ [e]) n =
      Some (s', es @ push_env l e, n') \<and> [] \<notin> set (pushed_texts es) \<and>
    no_spaces (concat (pushed_texts es)) = no_spaces (concat ts) \<and> skip_text s' = []"
  using skip.run_response [OF TrueI assms] by blast

text \<open>Every sentence the simple aggregator releases before the flush is non-empty and ends
  with terminal punctuation.\<close>

lemma simple_sentences_complete:
  assumes "simple_aggregate a t = Some (a', out)" and "r \<in> set out"
  shows "r \<noteq> [] \<and> ends_sentence (last r)"
proof (rule char_loop_outputs [of simple_char "\<lambda>r. r \<noteq> [] \<and> ends_sentence (last r)"])
  show "char_loop simple_char a t = Some (a', out)" using assms(1) by (simp add: simple_aggregate_def)
  show "r \<in> set out" by fact
  fix s c s' x assume "simple_char s c = Some (s', Some x)"
  then obtain raw where "sentence raw" "x = trim_spaces raw"
    using check_sentenceD [of "s\<lparr>sa_text := sa_text s @ [c]\<rparr>" c s' "Some x"] by (auto simp: simple_char_def)
  then show "x \<noteq> [] \<and> ends_sentence (last x)" using trim_sentence by simp
qed

text \<open>C10. The pattern aggregator never invents text: with delimiters that are not both empty,
  it terminates on every input, and the non-blank characters it has emitted or still buffers are
  among those it received.\<close>

theorem pattern_pair_no_invention:
  assumes "list_all pattern_ok (patterns a)"
  shows "\<exists>a' out. aggregate_matches a t = Some (a', out) \<and> patterns a' = patterns a \<and>
    letters (concat (map pm_content out) @ pair_text a') \<subseteq># letters (pair_text a @ t)"
  using pair_loop [OF assms] by (simp add: aggregate_matches_def)

theorem pattern_pair_no_invention_witness:
  "\<exists>a' out. aggregate_matches (add_pattern pair_new (lit ''d'') (lit ''<d>'') (lit ''</d>'') Aggregate)
       (lit ''Press <d> 1 </d>'') = Some (a', out) \<and>
     letters (concat (map pm_content out) @ pair_text a') \<subseteq># letters (lit ''Press <d> 1 </d>'')"
proof -
  let ?a = "add_pattern pair_new (lit ''d'') (lit ''<d>'') (lit ''</d>'') Aggregate"
  have "list_all pattern_ok (patterns ?a)" "pair_text ?a = []"
    by (simp_all add: add_pattern_def pair_new_def simple_new_def pattern_ok_def)
  then show ?thesis using pattern_pair_no_invention [of ?a "lit ''Press <d> 1 </d>''"] by auto
qed

text \<open>The Markdown filter only removes: what it outputs contains no emphasis or code marker
  (\<open>*\<close>, \<open>_\<close>, backquote) and no character that was not in the input.\<close>

lemma markdown_filter_clean: "set (markdown_filter True t) \<subseteq> set t - {42, 95, 96}"
proof
  fix c assume "c \<in> set (markdown_filter True t)"
  then obtain b nl where b: "(b, nl) \<in> set (split_lines t)" and "c \<in> set (markdown_line b) \<or> (nl \<and> c = 10)"
    by (auto simp: markdown_filter_def split: if_splits)
  then show "c \<in> set t - {42, 95, 96}"
    using markdown_line_subset [of b] split_lines_body [OF b] split_lines_nl [of b t] by auto
qed

text \<open>A decimal point makes the tag-aware aggregator cut inside a tag pair: the last sentence
  boundary of the buffer is then the one inside the tags.\<close>

lemma skip_cuts_inside_tag:
  "map_option snd (skip_aggregate (skip_new [\<lparr>tag_start = lit ''<a>'', tag_end = lit ''</a>''\<rparr>])
     (lit ''<a>x. y</a> 3.5'')) = Some [lit ''<a>x.'']"
  by code_simp

lemma simple_cuts_abbreviation:
  "map_option snd (simple_aggregate simple_new (lit ''Mr. Smith.'')) = Some [lit ''Mr.'']"
  by code_simp

end
