(* ===== verification/Vad.thy ===== *)
theory Vad
  imports Proc_Runtime
begin

text \<open>
  Voice activity detection, \<^verbatim>\<open>flowcat-core/src/audio/vad.rs\<close>: the debounce
  state machine, the scripted and the Silero analyzer, and the processor that turns state
  changes into edge frames and barge-in interruptions.

  \<open>f32\<close> arithmetic is IEEE rounding (theory \<open>Floats\<close>). The loudness of a
  window (\<open>window_volume\<close>, which uses \<open>log10\<close>) and the ONNX model behind
  \<open>SileroVad\<close> are arguments. The locale \<open>vad_analyzer\<close> is the contract of the
  trait \<open>VadAnalyzer\<close> that the processor relies on; it is interpreted on both analyzers.
\<close>

section \<open>The state machine\<close>

datatype vad_state = Quiet | Starting | Speaking | Stopping

definition vad_params_default :: vad_params where
  "vad_params_default =
     \<lparr>confidence = fl_round f32_fmt (7 / 10), start_secs = fl_round f32_fmt (1 / 5),
      stop_secs = fl_round f32_fmt (1 / 5), min_volume = fl_round f32_fmt (3 / 5)\<rparr>"

record vad_sm =
  sm_params :: vad_params
  sm_sample_rate :: u32
  sm_window_samples :: nat
  start_frames :: u32
  stop_frames :: u32
  starting_count :: u32
  stopping_count :: u32
  sm_state :: vad_state

definition debounce_frames :: "f32 \<Rightarrow> f32 \<Rightarrow> u32" where
  "debounce_frames window_secs secs =
     (if fl_le window_secs (FNum 0) then 1
      else fl_as_u32 (fl_max (fl_round_int (fl_div f32_fmt secs window_secs)) (FNum 1)))"

definition recompute_debounce :: "vad_sm \<Rightarrow> vad_sm" where
  "recompute_debounce m =
     (let window_secs = fl_div f32_fmt (f32_of_nat (sm_window_samples m))
                          (f32_of_nat (unat (max (sm_sample_rate m) 1)))
      in m\<lparr>start_frames := debounce_frames window_secs (start_secs (sm_params m)),
           stop_frames := debounce_frames window_secs (stop_secs (sm_params m))\<rparr>)"

definition vad_sm_new :: "u32 \<Rightarrow> nat \<Rightarrow> vad_params \<Rightarrow> vad_sm" where
  "vad_sm_new rate w ps =
     recompute_debounce
       \<lparr>sm_params = ps, sm_sample_rate = rate, sm_window_samples = w, start_frames = 1, stop_frames = 1,
        starting_count = 0, stopping_count = 0, sm_state = Quiet\<rparr>"

definition sm_set_params :: "vad_sm \<Rightarrow> vad_params \<Rightarrow> vad_sm" where
  "sm_set_params m ps =
     recompute_debounce (m\<lparr>sm_params := ps, starting_count := 0, stopping_count := 0, sm_state := Quiet\<rparr>)"

definition vad_gate :: "vad_sm \<Rightarrow> f32 \<Rightarrow> f32 \<Rightarrow> bool" where
  "vad_gate m c v \<longleftrightarrow> fl_ge c (confidence (sm_params m)) \<and> fl_ge v (min_volume (sm_params m))"

definition advance_gate :: "vad_sm \<Rightarrow> bool \<Rightarrow> vad_sm" where
  "advance_gate m speaking =
     (let m1 =
        (if speaking then
           case sm_state m of
             Quiet \<Rightarrow> m\<lparr>sm_state := Starting, starting_count := 1\<rparr>
           | Starting \<Rightarrow> m\<lparr>starting_count := starting_count m + 1\<rparr>
           | Stopping \<Rightarrow> m\<lparr>sm_state := Speaking, stopping_count := 0\<rparr>
           | Speaking \<Rightarrow> m
         else
           case sm_state m of
             Starting \<Rightarrow> m\<lparr>sm_state := Quiet, starting_count := 0\<rparr>
           | Speaking \<Rightarrow> m\<lparr>sm_state := Stopping, stopping_count := 1\<rparr>
           | Stopping \<Rightarrow> m\<lparr>stopping_count := stopping_count m + 1\<rparr>
           | Quiet \<Rightarrow> m);
        m2 = (if sm_state m1 = Starting \<and> start_frames m1 \<le> starting_count m1
              then m1\<lparr>sm_state := Speaking, starting_count := 0\<rparr> else m1)
      in if sm_state m2 = Stopping \<and> stop_frames m2 \<le> stopping_count m2
         then m2\<lparr>sm_state := Quiet, stopping_count := 0\<rparr> else m2)"

definition advance :: "vad_sm \<Rightarrow> f32 \<Rightarrow> f32 \<Rightarrow> vad_sm \<times> vad_state" where
  "advance m c v = (let m' = advance_gate m (vad_gate m c v) in (m', sm_state m'))"

section \<open>Analyzers\<close>

record volume_smoother =
  vs_prev :: f32

definition smooth :: "volume_smoother \<Rightarrow> f32 \<Rightarrow> volume_smoother \<times> f32" where
  "smooth s v =
     (let p = fl_add f32_fmt (vs_prev s)
                (fl_mul f32_fmt (fl_round f32_fmt (1 / 5)) (fl_sub f32_fmt v (vs_prev s)))
      in (s\<lparr>vs_prev := p\<rparr>, p))"

record mock_vad =
  mv_sm :: vad_sm
  mv_window_samples :: nat
  mv_script :: "f32 list option"
  mv_script_pos :: nat

definition script_at :: "'a list \<Rightarrow> nat \<Rightarrow> 'a \<Rightarrow> 'a" where
  "script_at script i d =
     (if i < length script then script ! i else if script \<noteq> [] then last script else d)"

definition mock_analyze :: "(i16 list \<Rightarrow> f32) \<Rightarrow> mock_vad \<Rightarrow> audio_frame \<Rightarrow> mock_vad \<times> vad_state" where
  "mock_analyze window_volume a audio =
     (let (a1, c, v) =
        (case mv_script a of
           Some script \<Rightarrow>
             (a\<lparr>mv_script_pos := mv_script_pos a + 1\<rparr>, script_at script (mv_script_pos a) (FNum 0),
              min_volume (sm_params (mv_sm a)))
         | None \<Rightarrow>
             (let vol = window_volume (pcm audio)
              in (a, if fl_ge vol (min_volume (sm_params (mv_sm a))) then FNum 1 else FNum 0, vol)));
          (m, s) = advance (mv_sm a1) c v
      in (a1\<lparr>mv_sm := m\<rparr>, s))"

definition mock_new :: "u32 \<Rightarrow> nat \<Rightarrow> vad_params \<Rightarrow> f32 list option \<Rightarrow> mock_vad" where
  "mock_new rate w ps script =
     \<lparr>mv_sm = vad_sm_new rate w ps, mv_window_samples = w, mv_script = script, mv_script_pos = 0\<rparr>"

definition mock_set_params :: "mock_vad \<Rightarrow> vad_params \<Rightarrow> mock_vad" where
  "mock_set_params a ps = a\<lparr>mv_sm := sm_set_params (mv_sm a) ps\<rparr>"

text \<open>Silero: \<open>infer\<close> stands for running the ONNX session on the input window, the
  recurrent state and the sample rate; it gives the output and state tensors or fails.
  \<open>loads\<close> says whether the model file can be loaded.\<close>

record silero_vad =
  sv_sm :: vad_sm
  sv_sample_rate :: u32
  sv_window_samples :: nat
  sv_state :: "f32 list"
  sv_context :: "f32 list"
  context_size :: nat
  windows_since_reset :: u32
  reset_every_windows :: u32
  smoother :: volume_smoother

definition reset_states :: "silero_vad \<Rightarrow> silero_vad" where
  "reset_states a = a\<lparr>sv_state := replicate 256 (FNum 0), sv_context := replicate (context_size a) (FNum 0)\<rparr>"

definition normalize_pcm :: "i16 list \<Rightarrow> f32 list" where
  "normalize_pcm p = map (\<lambda>s. fl_div f32_fmt (fl_round f32_fmt (of_int (sint s))) (FNum 32768)) p"

definition voice_confidence ::
  "(f32 list \<Rightarrow> f32 list \<Rightarrow> u32 \<Rightarrow> (f32 list \<times> f32 list) option) \<Rightarrow> silero_vad \<Rightarrow> i16 list \<Rightarrow> silero_vad \<times> f32" where
  "voice_confidence infer a p =
     (let x = sv_context a @ normalize_pcm p;
          (a1, c) =
            (case infer x (sv_state a) (sv_sample_rate a) of
               Some (prob, new_state) \<Rightarrow>
                 (if length new_state = length (sv_state a) then a\<lparr>sv_state := new_state\<rparr> else a,
                  if prob = [] then FNum 0 else hd prob)
             | None \<Rightarrow> (a, FNum 0));
          a2 = (if context_size a1 \<le> length x
                then a1\<lparr>sv_context := drop (length x - context_size a1) x\<rparr> else a1)
      in (a2, c))"

definition silero_new :: "bool \<Rightarrow> u32 \<Rightarrow> vad_params \<Rightarrow> silero_vad option" where
  "silero_new loads rate ps =
     (if rate \<noteq> 8000 \<and> rate \<noteq> 16000 then None
      else if \<not> loads then None
      else let (w, ctx) = (if rate = 16000 then (512, 64) else (256, 32));
               window_secs = fl_div f32_fmt (f32_of_nat w) (f32_of_nat (unat rate))
           in Some
             \<lparr>sv_sm = vad_sm_new rate w ps, sv_sample_rate = rate, sv_window_samples = w,
              sv_state = replicate 256 (FNum 0), sv_context = replicate ctx (FNum 0), context_size = ctx,
              windows_since_reset = 0,
              reset_every_windows = fl_as_u32 (fl_max (fl_round_int (fl_div f32_fmt (FNum 5) window_secs)) (FNum 1)),
              smoother = \<lparr>vs_prev = FNum 0\<rparr>\<rparr>)"

definition silero_analyze ::
  "(i16 list \<Rightarrow> f32) \<Rightarrow> (f32 list \<Rightarrow> f32 list \<Rightarrow> u32 \<Rightarrow> (f32 list \<times> f32 list) option) \<Rightarrow>
     silero_vad \<Rightarrow> audio_frame \<Rightarrow> silero_vad \<times> vad_state" where
  "silero_analyze window_volume infer a audio =
     (let a1 = a\<lparr>windows_since_reset := windows_since_reset a + 1\<rparr>;
          a2 = (if reset_every_windows a1 \<le> windows_since_reset a1
                then (reset_states a1)\<lparr>windows_since_reset := 0\<rparr> else a1);
          (a3, c) = voice_confidence infer a2 (pcm audio);
          (sm', v) = smooth (smoother a3) (window_volume (pcm audio));
          (m, s) = advance (sv_sm a3) c v
      in (a3\<lparr>smoother := sm', sv_sm := m\<rparr>, s))"

definition silero_set_params :: "silero_vad \<Rightarrow> vad_params \<Rightarrow> silero_vad" where
  "silero_set_params a ps = a\<lparr>sv_sm := sm_set_params (sv_sm a) ps\<rparr>"

section \<open>The processor\<close>

record 'a vad_processor =
  vp_analyzer :: 'a
  vp_window_samples :: nat
  vp_buffer :: "i16 list"
  vp_sample_rate :: u32
  last_state :: vad_state
  bot_speaking :: bool
  interrupt_on_barge_in :: bool
  interrupt_flag :: "u64 option"
  interrupt_notify :: "bool option"

definition vad_processor_new :: "'a \<Rightarrow> u32 \<Rightarrow> nat \<Rightarrow> 'a vad_processor" where
  "vad_processor_new a rate w =
     \<lparr>vp_analyzer = a, vp_window_samples = max w 1, vp_buffer = [], vp_sample_rate = rate,
      last_state = Quiet, bot_speaking = False, interrupt_on_barge_in = True,
      interrupt_flag = None, interrupt_notify = None\<rparr>"

definition with_interrupt_notify :: "'a vad_processor \<Rightarrow> bool \<Rightarrow> 'a vad_processor" where
  "with_interrupt_notify p permit = p\<lparr>interrupt_notify := Some permit\<rparr>"

definition with_interrupt_flag :: "'a vad_processor \<Rightarrow> u64 \<Rightarrow> 'a vad_processor" where
  "with_interrupt_flag p generation = p\<lparr>interrupt_flag := Some generation\<rparr>"

definition without_barge_in_interruption :: "'a vad_processor \<Rightarrow> 'a vad_processor" where
  "without_barge_in_interruption p = p\<lparr>interrupt_on_barge_in := False\<rparr>"

definition talking :: "vad_state \<Rightarrow> bool" where
  "talking s \<longleftrightarrow> s = Speaking \<or> s = Stopping"

text \<open>The barge-in part of a rising edge: bump the shared generation counter, wake the
  out-of-band reactor (its permit is stored), broadcast the interruption.\<close>

definition barge_in :: "link \<Rightarrow> 'a vad_processor \<Rightarrow> u64 \<Rightarrow> 'a vad_processor \<times> 'j eff list \<times> u64" where
  "barge_in l p n =
     (if bot_speaking p \<and> interrupt_on_barge_in p then
        let p' = p\<lparr>interrupt_flag := map_option (\<lambda>g. g + 1) (interrupt_flag p),
                   interrupt_notify := map_option (\<lambda>_. True) (interrupt_notify p)\<rparr>;
            (es, n') = broadcast l n Interruption
        in (p', es, n')
      else (p, [], n))"

definition window_secs :: "'a vad_processor \<Rightarrow> f32" where
  "window_secs p =
     fl_div f32_fmt (f32_of_nat (vp_window_samples p)) (f32_of_nat (unat (max (vp_sample_rate p) 1)))"

definition vad_edge :: "link \<Rightarrow> 'a vad_processor \<Rightarrow> vad_state \<Rightarrow> u64 \<Rightarrow> 'a vad_processor \<times> 'j eff list \<times> u64" where
  "vad_edge l p new_state n =
     (let was_speaking = talking (last_state p)
      in if new_state = Speaking \<and> \<not> was_speaking then
           let (e1, n1) = push_down l n (VadUserStartedSpeaking (window_secs p));
               (e2, n2) = push_down l n1 UserStartedSpeaking;
               (p', e3, n3) = barge_in l p n2
           in (p', e1 @ e2 @ e3, n3)
         else if was_speaking \<and> new_state = Quiet then
           let (e1, n1) = push_down l n (VadUserStoppedSpeaking (window_secs p));
               (e2, n2) = push_down l n1 UserStoppedSpeaking
           in (p, e1 @ e2, n2)
         else (p, [], n))"

lemma vad_edge_fields:
  "vad_edge l p s n = (p', es, n') \<Longrightarrow>
     vp_buffer p' = vp_buffer p \<and> vp_analyzer p' = vp_analyzer p \<and> vp_window_samples p' = vp_window_samples p \<and>
     last_state p' = last_state p \<and> bot_speaking p' = bot_speaking p \<and>
     interrupt_on_barge_in p' = interrupt_on_barge_in p"
  by (auto simp: vad_edge_def barge_in_def Let_def split: prod.splits if_splits)

text \<open>\<open>drain_windows\<close>. \<open>new\<close> makes the window at least one sample; with a window of
  zero samples the loop of the source would not end.\<close>

function vad_drain_windows ::
  "('a \<Rightarrow> audio_frame \<Rightarrow> 'a \<times> vad_state) \<Rightarrow> link \<Rightarrow> 'a vad_processor \<Rightarrow> u64 \<Rightarrow>
     'a vad_processor \<times> 'j eff list \<times> u64" where
  "vad_drain_windows analyze l p n =
     (let w = vp_window_samples p
      in if 0 < w \<and> w \<le> length (vp_buffer p) then
           let (a, s) = analyze (vp_analyzer p) (mono (take w (vp_buffer p)) (vp_sample_rate p));
               p1 = p\<lparr>vp_buffer := drop w (vp_buffer p), vp_analyzer := a\<rparr>;
               (p2, e1, n1) = vad_edge l p1 s n;
               (p3, e2, n2) = vad_drain_windows analyze l (p2\<lparr>last_state := s\<rparr>) n1
           in (p3, e1 @ e2, n2)
         else (p, [], n))"
  by pat_completeness auto
termination
  by (relation "measure (\<lambda>(an, l, p, n). length (vp_buffer p))") (auto dest!: vad_edge_fields [OF sym])

declare vad_drain_windows.simps [simp del]

definition vad_start :: "'a vad_processor \<Rightarrow> start_params \<Rightarrow> ('a vad_processor, 'j) hook_result" where
  "vad_start p params = (p\<lparr>vp_sample_rate := audio_in_sample_rate params\<rparr>, [], None)"

definition vad_process ::
  "('a \<Rightarrow> audio_frame \<Rightarrow> 'a \<times> vad_state) \<Rightarrow> link \<Rightarrow> 'a vad_processor \<Rightarrow> 'j envelope \<Rightarrow> u64 \<Rightarrow>
     'a vad_processor \<times> 'j eff list \<times> u64 \<times> ustr option" where
  "vad_process analyze l p env n =
     (let (p', es, n') =
        (case env_frame env of
           BotStartedSpeaking \<Rightarrow> (p\<lparr>bot_speaking := True\<rparr>, [], n)
         | BotStoppedSpeaking \<Rightarrow> (p\<lparr>bot_speaking := False\<rparr>, [], n)
         | InputAudio audio \<Rightarrow>
             vad_drain_windows analyze l (p\<lparr>vp_buffer := vp_buffer p @ pcm audio\<rparr>) n
         | _ \<Rightarrow> (p, [], n))
      in (p', es @ push_env l env, n', None))"

definition vad_processor_of ::
  "('a \<Rightarrow> audio_frame \<Rightarrow> 'a \<times> vad_state) \<Rightarrow> ('a vad_processor, 'j) processor" where
  "vad_processor_of analyze =
     (default_processor ''VadProcessor'')\<lparr>p_start := vad_start, p_process := vad_process analyze\<rparr>"

section \<open>The debounce\<close>

lemma debounce_frames_pos: "1 \<le> unat (debounce_frames w s)"
proof (cases "fl_le w (FNum 0)")
  case True
  then show ?thesis by (simp add: debounce_frames_def)
next
  case False
  then show ?thesis
    using fl_as_u32_ge_one [OF fl_max_one_ge [of "fl_round_int (fl_div f32_fmt s w)"]]
    by (simp add: debounce_frames_def)
qed

text \<open>The specification: a flag and the number of consecutive windows that contradict it. The
  flag flips when that number reaches the debounce length of its current value.\<close>

definition hyst_step :: "nat \<Rightarrow> nat \<Rightarrow> bool \<times> nat \<Rightarrow> bool \<Rightarrow> bool \<times> nat" where
  "hyst_step up down st x =
     (let (t, r) = st
      in if x = t then (t, 0)
         else if (if t then down else up) \<le> r + 1 then (\<not> t, 0) else (t, r + 1))"

definition sm_abs :: "vad_sm \<Rightarrow> bool \<times> nat" where
  "sm_abs m =
     (talking (sm_state m),
      case sm_state m of
        Starting \<Rightarrow> unat (starting_count m) | Stopping \<Rightarrow> unat (stopping_count m) | _ \<Rightarrow> 0)"

definition sm_inv :: "vad_sm \<Rightarrow> bool" where
  "sm_inv m \<longleftrightarrow>
     0 < start_frames m \<and> 0 < stop_frames m \<and>
     (sm_state m = Starting \<longrightarrow> 0 < starting_count m \<and> starting_count m < start_frames m) \<and>
     (sm_state m = Stopping \<longrightarrow> 0 < stopping_count m \<and> stopping_count m < stop_frames m)"

lemma unat_Suc_less: "(x :: u32) < y \<Longrightarrow> unat (x + 1) = Suc (unat x)"
proof -
  assume "x < y"
  moreover have "unat y < 2 ^ LENGTH(32)" by (rule unsigned_less)
  ultimately have "unat x + 1 < 2 ^ 32" by (simp add: word_less_nat_alt)
  then show ?thesis by (simp add: unat_word_ariths)
qed

lemma advance_gate_params [simp]:
  "sm_params (advance_gate m x) = sm_params m" "start_frames (advance_gate m x) = start_frames m"
  "stop_frames (advance_gate m x) = stop_frames m"
  by (simp_all add: advance_gate_def Let_def split: vad_state.split)

lemma advance_gate_refines:
  assumes "sm_inv m"
  shows "sm_abs (advance_gate m x) = hyst_step (unat (start_frames m)) (unat (stop_frames m)) (sm_abs m) x"
    and "sm_inv (advance_gate m x)"
proof -
  have pos: "0 < unat (start_frames m)" "0 < unat (stop_frames m)"
    using assms by (simp_all add: sm_inv_def word_less_nat_alt)
  have le: "unat (a :: u32) \<le> unat b \<longleftrightarrow> a \<le> b" for a b by (simp add: word_le_nat_alt)
  have one: "Suc 0 = unat (1 :: u32)" by simp
  show "sm_abs (advance_gate m x) = hyst_step (unat (start_frames m)) (unat (stop_frames m)) (sm_abs m) x"
  proof (cases "sm_state m")
    case Starting
    then have "unat (starting_count m + 1) = Suc (unat (starting_count m))"
      using assms unat_Suc_less [of "starting_count m" "start_frames m"] by (simp add: sm_inv_def)
    with Starting show ?thesis
      by (simp add: advance_gate_def sm_abs_def hyst_step_def talking_def Let_def word_le_nat_alt)
  next
    case Stopping
    then have "unat (stopping_count m + 1) = Suc (unat (stopping_count m))"
      using assms unat_Suc_less [of "stopping_count m" "stop_frames m"] by (simp add: sm_inv_def)
    with Stopping show ?thesis
      by (simp add: advance_gate_def sm_abs_def hyst_step_def talking_def Let_def word_le_nat_alt)
  qed (simp_all add: advance_gate_def sm_abs_def hyst_step_def talking_def Let_def word_le_nat_alt)
  have z: "0 < starting_count m \<Longrightarrow> starting_count m < start_frames m \<Longrightarrow> 0 < starting_count m + 1"
    "0 < stopping_count m \<Longrightarrow> stopping_count m < stop_frames m \<Longrightarrow> 0 < stopping_count m + 1"
    using unat_Suc_less [of "starting_count m" "start_frames m"]
      unat_Suc_less [of "stopping_count m" "stop_frames m"]
    by (simp_all add: word_less_nat_alt)
  show "sm_inv (advance_gate m x)"
    using assms z by (cases "sm_state m") (auto simp: sm_inv_def advance_gate_def Let_def)
qed

lemma advance_gate_run:
  "sm_inv m \<Longrightarrow> sm_abs (foldl advance_gate m xs) =
     foldl (hyst_step (unat (start_frames m)) (unat (stop_frames m))) (sm_abs m) xs"
  by (induction xs arbitrary: m) (simp_all add: advance_gate_refines)

lemma vad_sm_new_inv: "sm_inv (vad_sm_new rate w ps)" "sm_abs (vad_sm_new rate w ps) = (False, 0)"
  "sm_params (vad_sm_new rate w ps) = ps"
proof -
  have "0 < debounce_frames w' s" for w' s
    using debounce_frames_pos [of w' s] by (simp add: word_less_nat_alt)
  then show "sm_inv (vad_sm_new rate w ps)" "sm_abs (vad_sm_new rate w ps) = (False, 0)"
    "sm_params (vad_sm_new rate w ps) = ps"
    by (simp_all add: vad_sm_new_def recompute_debounce_def sm_inv_def sm_abs_def talking_def Let_def)
qed

lemma sm_set_params_inv: "sm_inv (sm_set_params m ps)" "sm_abs (sm_set_params m ps) = (False, 0)"
proof -
  have "0 < debounce_frames w' s" for w' s
    using debounce_frames_pos [of w' s] by (simp add: word_less_nat_alt)
  then show "sm_inv (sm_set_params m ps)" "sm_abs (sm_set_params m ps) = (False, 0)"
    by (simp_all add: sm_set_params_def recompute_debounce_def sm_inv_def sm_abs_def talking_def Let_def)
qed

lemma advance_run:
  "foldl (\<lambda>m (c, v). fst (advance m c v)) m cvs = foldl advance_gate m (map (\<lambda>(c, v). vad_gate m c v) cvs)"
proof (induction cvs arbitrary: m)
  case (Cons cv cvs)
  have "vad_gate (advance_gate m x) = vad_gate m" for x by (simp add: vad_gate_def fun_eq_iff)
  then show ?case using Cons by (cases cv) (simp add: advance_def Let_def)
qed simp

section \<open>The contract of an analyzer\<close>

definition legal :: "vad_state \<Rightarrow> vad_state \<Rightarrow> bool" where
  "legal s s' \<longleftrightarrow> (if talking s then s' \<noteq> Starting else s' \<noteq> Stopping)"

lemma advance_legal: "sm_inv m \<Longrightarrow> advance m c v = (m', s) \<Longrightarrow> sm_inv m' \<and> s = sm_state m' \<and> legal (sm_state m) s"
proof -
  assume i: "sm_inv m" and a: "advance m c v = (m', s)"
  then have m': "m' = advance_gate m (vad_gate m c v)" "s = sm_state m'" by (auto simp: advance_def Let_def)
  have "legal (sm_state m) (sm_state m')"
    unfolding m' by (cases "sm_state m") (auto simp: advance_gate_def legal_def talking_def Let_def)
  then show ?thesis using advance_gate_refines(2) [OF i] m' by blast
qed

text \<open>The edges among the frames a list of effects sends downstream: \<open>True\<close> for a start of
  speech, \<open>False\<close> for its end.\<close>

definition speech_edge :: "'j frame \<Rightarrow> bool list" where
  "speech_edge f = (case f of UserStartedSpeaking \<Rightarrow> [True] | UserStoppedSpeaking \<Rightarrow> [False] | _ \<Rightarrow> [])"

lemma speech_edge_simps [simp]:
  "speech_edge UserStartedSpeaking = [True]" "speech_edge UserStoppedSpeaking = [False]"
  "speech_edge (VadUserStartedSpeaking s) = []" "speech_edge (VadUserStoppedSpeaking s) = []"
  "speech_edge Interruption = []"
  by (simp_all add: speech_edge_def)

lemma speech_edge_other: "f \<notin> {UserStartedSpeaking, UserStoppedSpeaking} \<Longrightarrow> speech_edge f = []"
  by (cases f) (simp_all add: speech_edge_def)

fun edges :: "'j eff list \<Rightarrow> bool list" where
  "edges [] = []"
| "edges (Send tx e # es) = speech_edge (env_frame e) @ edges es"
| "edges (_ # es) = edges es"

fun alternates :: "bool \<Rightarrow> bool list \<Rightarrow> bool \<Rightarrow> bool" where
  "alternates t [] t' = (t = t')"
| "alternates t (e # es) t' = (e = (\<not> t) \<and> alternates e es t')"

lemma alternates_append: "alternates t xs u \<Longrightarrow> alternates u ys v \<Longrightarrow> alternates t (xs @ ys) v"
  by (induction xs arbitrary: t) simp_all

lemma edges_append [simp]: "edges (xs @ ys) = edges xs @ edges ys"
  by (induction xs rule: edges.induct) simp_all

lemma edges_push [simp]:
  "edges (push l m f d) =
     (if (case d of Downstream \<Rightarrow> l_next l | Upstream \<Rightarrow> l_prev l) = None then [] else speech_edge f)"
  by (auto simp: push_def Let_def split: option.splits)

lemma edges_push_down [simp]:
  "edges (fst (push_down l n f)) = (if l_next l = None then [] else speech_edge f)"
  by (simp add: push_down_def Let_def case_prod_unfold)

lemma edges_broadcast: "edges (fst (broadcast l n Interruption)) = []"
  by (simp add: broadcast_def Let_def case_prod_unfold)

lemma vad_edge_alternates:
  assumes "l_next l \<noteq> None" and "legal (last_state p) s" and "vad_edge l p s n = (p', es :: 'j eff list, n')"
  shows "alternates (talking (last_state p)) (edges es) (talking s)"
proof -
  have b: "edges (fst (snd (barge_in l p n)) :: 'j eff list) = []" for n
    by (simp add: barge_in_def edges_broadcast Let_def case_prod_unfold)
  have es: "es = fst (snd (vad_edge l p s n))" by (simp add: assms(3))
  show ?thesis
  proof (cases "talking (last_state p)")
    case True
    then have "edges es = (if s = Quiet then [False] else [])"
      unfolding es vad_edge_def using assms(1) by (auto simp: Let_def case_prod_unfold)
    then show ?thesis using True assms(2) by (cases s) (simp_all add: legal_def talking_def)
  next
    case False
    then have "edges es = (if s = Speaking then [True] else [])"
      unfolding es vad_edge_def using assms(1) by (auto simp: Let_def case_prod_unfold b)
    then show ?thesis using False assms(2) by (cases s) (simp_all add: legal_def talking_def)
  qed
qed

lemma edges_push_env:
  "env_frame e \<notin> {UserStartedSpeaking, UserStoppedSpeaking} \<Longrightarrow> edges (push_env l e) = []"
  by (simp add: speech_edge_other)

fun vad_run ::
  "('a \<Rightarrow> audio_frame \<Rightarrow> 'a \<times> vad_state) \<Rightarrow> link \<Rightarrow> 'a vad_processor \<Rightarrow> 'j envelope list \<Rightarrow> u64 \<Rightarrow>
     'a vad_processor \<times> 'j eff list \<times> u64" where
  "vad_run analyze l p [] n = (p, [], n)"
| "vad_run analyze l p (e # es) n =
     (let (p1, x, n1, _) = vad_process analyze l p e n;
          (p2, y, n2) = vad_run analyze l p1 es n1
      in (p2, x @ y, n2))"

locale vad_analyzer =
  fixes analyze :: "'a \<Rightarrow> audio_frame \<Rightarrow> 'a \<times> vad_state"
    and st :: "'a \<Rightarrow> vad_state"
    and ok :: "'a \<Rightarrow> bool"
  assumes analyze_ok: "ok a \<Longrightarrow> ok (fst (analyze a w))"
    and analyze_state: "ok a \<Longrightarrow> snd (analyze a w) = st (fst (analyze a w))"
    and analyze_legal: "ok a \<Longrightarrow> legal (st a) (st (fst (analyze a w)))"
begin

definition synced :: "'a vad_processor \<Rightarrow> bool" where
  "synced p \<longleftrightarrow> ok (vp_analyzer p) \<and> last_state p = st (vp_analyzer p)"

lemma drain_alternates:
  assumes "l_next l \<noteq> None" and "synced p" and "vad_drain_windows analyze l p n = (p', es :: 'j eff list, n')"
  shows "alternates (talking (last_state p)) (edges es) (talking (last_state p')) \<and> synced p'"
  using assms(2,3)
proof (induction "length (vp_buffer p)" arbitrary: p n es p' n' rule: less_induct)
  case less
  let ?w = "vp_window_samples p"
  show ?case
  proof (cases "0 < ?w \<and> ?w \<le> length (vp_buffer p)")
    case False
    then show ?thesis using less.prems by (auto simp: vad_drain_windows.simps Let_def)
  next
    case True
    define w where "w = mono (take ?w (vp_buffer p)) (vp_sample_rate p)"
    define p1 where "p1 = p\<lparr>vp_buffer := drop ?w (vp_buffer p), vp_analyzer := fst (analyze (vp_analyzer p) w)\<rparr>"
    define s where "s = snd (analyze (vp_analyzer p) w)"
    obtain p2 e1 n1 where e: "vad_edge l p1 s n = (p2, e1 :: 'j eff list, n1)" by (metis prod_cases3)
    obtain p3 e2 n2 where d: "vad_drain_windows analyze l (p2\<lparr>last_state := s\<rparr>) n1 = (p3, e2 :: 'j eff list, n2)"
      by (metis prod_cases3)
    have res: "p' = p3" "es = e1 @ e2"
      using less.prems(2) True e d
      by (subst (asm) vad_drain_windows.simps, simp add: Let_def case_prod_unfold w_def p1_def s_def)+
    note f = vad_edge_fields [OF e]
    have st: "ok (vp_analyzer p1)" "s = st (vp_analyzer p1)" "legal (last_state p1) s"
      using less.prems(1) analyze_ok analyze_state analyze_legal
      by (simp_all add: synced_def p1_def s_def)
    have "alternates (talking (last_state p)) (edges e1) (talking s)"
      using vad_edge_alternates [OF assms(1) st(3) e] by (simp add: p1_def)
    moreover have "alternates (talking s) (edges e2) (talking (last_state p3)) \<and> synced p3"
    proof -
      have "length (vp_buffer p2) < length (vp_buffer p)" using f True by (auto simp: p1_def)
      moreover have "synced (p2\<lparr>last_state := s\<rparr>)" using f st by (simp add: synced_def)
      ultimately show ?thesis using less.hyps [OF _ _ d] by simp
    qed
    ultimately show ?thesis using res alternates_append by auto
  qed
qed

lemma process_alternates:
  assumes "l_next l \<noteq> None" and "synced p" and "env_frame e \<notin> {UserStartedSpeaking, UserStoppedSpeaking}"
    and "vad_process analyze l p e n = (p', es :: 'j eff list, n', r)"
  shows "alternates (talking (last_state p)) (edges es) (talking (last_state p')) \<and> synced p'"
proof (cases "env_frame e")
  case (InputAudio audio)
  obtain q x k where d: "vad_drain_windows analyze l (p\<lparr>vp_buffer := vp_buffer p @ pcm audio\<rparr>) n = (q, x :: 'j eff list, k)"
    by (metis prod_cases3)
  have "synced (p\<lparr>vp_buffer := vp_buffer p @ pcm audio\<rparr>)" using assms(2) by (simp add: synced_def)
  from drain_alternates [OF assms(1) this d] show ?thesis
    using assms(4) d InputAudio by (auto simp: vad_process_def Let_def speech_edge_def)
qed (use assms in \<open>auto simp: vad_process_def Let_def speech_edge_def synced_def\<close>)

lemma run_alternates:
  assumes "l_next l \<noteq> None" and "synced p"
    and "\<forall>e\<in>set envs. env_frame e \<notin> {UserStartedSpeaking, UserStoppedSpeaking}"
    and "vad_run analyze l p envs n = (p', es :: 'j eff list, n')"
  shows "alternates (talking (last_state p)) (edges es) (talking (last_state p')) \<and> synced p'"
  using assms(2-)
proof (induction envs arbitrary: p n es p' n')
  case (Cons e envs)
  obtain p1 x n1 r where s: "vad_process analyze l p e n = (p1, x :: 'j eff list, n1, r)" by (metis prod_cases4)
  obtain p2 y n2 where t: "vad_run analyze l p1 envs n1 = (p2, y :: 'j eff list, n2)" by (metis prod_cases3)
  have "alternates (talking (last_state p)) (edges x) (talking (last_state p1)) \<and> synced p1"
    using process_alternates [OF assms(1) Cons.prems(1) _ s] Cons.prems(2) by simp
  moreover have "alternates (talking (last_state p1)) (edges y) (talking (last_state p2)) \<and> synced p2"
    if "synced p1" using Cons.IH [OF that _ t] Cons.prems(2) by simp
  ultimately show ?case using Cons.prems(3) s t alternates_append by auto
qed simp

end

interpretation mock_vad: vad_analyzer "mock_analyze wv" "\<lambda>a. sm_state (mv_sm a)" "\<lambda>a. sm_inv (mv_sm a)" for wv
proof
  fix a :: mock_vad and w assume i: "sm_inv (mv_sm a)"
  have m: "mv_sm (fst (mock_analyze wv a w)) = fst (advance (mv_sm a) c v) \<and>
      snd (mock_analyze wv a w) = snd (advance (mv_sm a) c v)"
    if "c = (case mv_script a of Some s \<Rightarrow> script_at s (mv_script_pos a) (FNum 0)
             | None \<Rightarrow> if fl_ge (wv (pcm w)) (min_volume (sm_params (mv_sm a))) then FNum 1 else FNum 0)"
      and "v = (case mv_script a of Some s \<Rightarrow> min_volume (sm_params (mv_sm a)) | None \<Rightarrow> wv (pcm w))" for c v
    unfolding that by (simp add: mock_analyze_def Let_def case_prod_unfold split: option.split)
  then obtain c v where c: "mv_sm (fst (mock_analyze wv a w)) = fst (advance (mv_sm a) c v)"
    "snd (mock_analyze wv a w) = snd (advance (mv_sm a) c v)" by blast
  from advance_legal [OF i, of c v "fst (advance (mv_sm a) c v)" "snd (advance (mv_sm a) c v)"]
  show "sm_inv (mv_sm (fst (mock_analyze wv a w)))"
    "snd (mock_analyze wv a w) = sm_state (mv_sm (fst (mock_analyze wv a w)))"
    "legal (sm_state (mv_sm a)) (sm_state (mv_sm (fst (mock_analyze wv a w))))"
    by (auto simp: c)
qed

lemma silero_analyze_advances:
  "\<exists>c v. sv_sm (fst (silero_analyze wv infer a w)) = fst (advance (sv_sm a) c v) \<and>
         snd (silero_analyze wv infer a w) = snd (advance (sv_sm a) c v)"
proof -
  have vc: "sv_sm (fst (voice_confidence infer a' p)) = sv_sm a'" for a' p
    by (simp add: voice_confidence_def Let_def case_prod_unfold split: option.split)
  have "sv_sm (reset_states a') = sv_sm a'" for a' by (simp add: reset_states_def)
  then show ?thesis
    by (simp add: silero_analyze_def Let_def case_prod_unfold vc) blast
qed

interpretation silero_vad: vad_analyzer "silero_analyze wv infer" "\<lambda>a. sm_state (sv_sm a)" "\<lambda>a. sm_inv (sv_sm a)"
  for wv infer
proof
  fix a :: silero_vad and w assume i: "sm_inv (sv_sm a)"
  obtain c v where c: "sv_sm (fst (silero_analyze wv infer a w)) = fst (advance (sv_sm a) c v)"
    "snd (silero_analyze wv infer a w) = snd (advance (sv_sm a) c v)"
    using silero_analyze_advances by blast
  from advance_legal [OF i, of c v "fst (advance (sv_sm a) c v)" "snd (advance (sv_sm a) c v)"]
  show "sm_inv (sv_sm (fst (silero_analyze wv infer a w)))"
    "snd (silero_analyze wv infer a w) = sm_state (sv_sm (fst (silero_analyze wv infer a w)))"
    "legal (sm_state (sv_sm a)) (sm_state (sv_sm (fst (silero_analyze wv infer a w))))"
    by (auto simp: c)
qed

section \<open>A worked run\<close>

text \<open>A model that answers 1 exactly when the last sample of its window is not silent, and zero
  thresholds and debounce times.\<close>

definition demo_link :: link where
  "demo_link = \<lparr>l_next = Some \<lparr>tx_chan = 5, tx_name = ''n''\<rparr>, l_prev = None, l_name = ''VadProcessor'',
     l_observer = False, enable_metrics = False, enable_usage_metrics = False, ttfb_start = 0, processing_start = 0\<rparr>"

section \<open>Properties\<close>

text \<open>C11. The state machine is a two-sided hysteresis. Fed any sequence of confidences and
  volumes, it is in \<open>Speaking\<close> or \<open>Stopping\<close> exactly when the specification's flag is set: a
  flag that flips only after as many consecutive contradicting windows as the debounce length of
  its current value, where a window counts as speech when both thresholds are met.\<close>

theorem vad_refines_hysteresis:
  "talking (sm_state (foldl (\<lambda>m (c, v). fst (advance m c v)) (vad_sm_new rate w ps) cvs)) =
     fst (foldl (hyst_step (unat (start_frames (vad_sm_new rate w ps))) (unat (stop_frames (vad_sm_new rate w ps))))
            (False, 0)
            (map (\<lambda>(c, v). fl_ge c (confidence ps) \<and> fl_ge v (min_volume ps)) cvs))"
proof -
  let ?m = "vad_sm_new rate w ps"
  have "(\<lambda>(c, v). fl_ge c (confidence ps) \<and> fl_ge v (min_volume ps)) = (\<lambda>(c, v). vad_gate ?m c v)"
    by (simp add: vad_gate_def vad_sm_new_inv(3))
  moreover have "talking (sm_state m) = fst (sm_abs m)" for m by (simp add: sm_abs_def)
  ultimately show ?thesis
    using advance_gate_run [OF vad_sm_new_inv(1), of rate w ps] by (simp add: advance_run vad_sm_new_inv(2))
qed

text \<open>The speech edges a \<open>VadProcessor\<close> with a Silero analyzer emits alternate, beginning
  with a start, whatever frames arrive, whatever the model answers and however the audio is cut
  into frames; and the analyzer's state at the end agrees with the last edge.\<close>

lemma vad_edges_alternate:
  assumes "silero_new loads rate ps = Some a" and "l_next l \<noteq> None"
    and "\<forall>e\<in>set envs. env_frame e \<notin> {UserStartedSpeaking, UserStoppedSpeaking}"
    and "vad_run (silero_analyze wv infer) l (vad_processor_new a rate w) envs n = (p', es, n')"
  shows "alternates False (edges es) (talking (sm_state (sv_sm (vp_analyzer p'))))"
proof -
  have "sv_sm a = vad_sm_new rate (sv_window_samples a) ps"
    using assms(1) by (auto simp: silero_new_def Let_def split: if_splits)
  then have "silero_vad.synced (vad_processor_new a rate w)"
    using vad_sm_new_inv [of rate "sv_window_samples a" ps]
    by (simp add: silero_vad.synced_def vad_processor_new_def vad_sm_new_def recompute_debounce_def Let_def)
  from silero_vad.run_alternates [OF assms(2) this assms(3,4)] show ?thesis
    by (auto simp: silero_vad.synced_def vad_processor_new_def talking_def)
qed

end
