(* ===== verification/Turn.thy ===== *)
theory Turn
  imports Vad
begin

text \<open>
  End-of-turn prediction, \<^verbatim>\<open>flowcat-core/src/audio/turn.rs\<close>: the silence tracker, the
  scripted and the Smart-Turn analyzer, and the processor that windows audio and reports a
  prediction when the user stops speaking. The ONNX endpoint model is an argument.

  The locale \<open>turn_analyzer\<close> is what the processor's clients may rely on about an
  unscripted analyzer; both analyzers interpret it.
\<close>

section \<open>The silence tracker\<close>

record turn_prediction =
  is_complete :: bool
  probability :: f32

definition turn_params_default :: turn_params where
  "turn_params_default = \<lparr>tp_stop_secs = FNum 3, pre_speech_ms = FNum 500, max_duration_secs = Some (FNum 8)\<rparr>"

record turn_silence_tracker =
  stop_ms :: f32
  st_sample_rate :: u32
  speech_triggered :: bool
  silence_ms :: f32

definition tracker_new :: "u32 \<Rightarrow> f32 \<Rightarrow> turn_silence_tracker" where
  "tracker_new rate secs =
     \<lparr>stop_ms = fl_mul f32_fmt secs (FNum 1000), st_sample_rate = rate, speech_triggered = False,
      silence_ms = FNum 0\<rparr>"

definition set_stop_secs :: "turn_silence_tracker \<Rightarrow> f32 \<Rightarrow> turn_silence_tracker" where
  "set_stop_secs t secs = t\<lparr>stop_ms := fl_mul f32_fmt secs (FNum 1000)\<rparr>"

definition tracker_append :: "turn_silence_tracker \<Rightarrow> nat \<Rightarrow> bool \<Rightarrow> turn_silence_tracker \<times> bool" where
  "tracker_append t num_samples is_speech =
     (if is_speech then (t\<lparr>silence_ms := FNum 0, speech_triggered := True\<rparr>, False)
      else if speech_triggered t then
        let chunk_ms = fl_div f32_fmt (f32_of_nat num_samples)
                         (fl_div f32_fmt (f32_of_nat (unat (max (st_sample_rate t) 1))) (FNum 1000));
            t' = t\<lparr>silence_ms := fl_add f32_fmt (silence_ms t) chunk_ms\<rparr>
        in (t', fl_ge (silence_ms t') (stop_ms t'))
      else (t, False))"

definition tracker_clear :: "turn_silence_tracker \<Rightarrow> turn_silence_tracker" where
  "tracker_clear t = t\<lparr>speech_triggered := False, silence_ms := FNum 0\<rparr>"

section \<open>Analyzers\<close>

definition vad_is_speech :: "vad_state \<Rightarrow> bool" where
  "vad_is_speech v \<longleftrightarrow> v = Speaking \<or> v = Starting"

record mock_turn =
  mt_tracker :: turn_silence_tracker
  mt_window_samples :: nat
  mt_script :: "(bool \<times> f32) list option"
  mt_script_pos :: nat

definition mock_turn_new :: "u32 \<Rightarrow> nat \<Rightarrow> f32 \<Rightarrow> (bool \<times> f32) list option \<Rightarrow> mock_turn" where
  "mock_turn_new rate w secs script =
     \<lparr>mt_tracker = tracker_new rate secs, mt_window_samples = w, mt_script = script, mt_script_pos = 0\<rparr>"

definition mock_analyze_turn :: "mock_turn \<Rightarrow> audio_frame \<Rightarrow> vad_state \<Rightarrow> mock_turn \<times> turn_prediction" where
  "mock_analyze_turn a audio vad =
     (case mt_script a of
        Some script \<Rightarrow>
          (let (c, p) = script_at script (mt_script_pos a) (False, FNum 0)
           in (a\<lparr>mt_script_pos := mt_script_pos a + 1\<rparr>, \<lparr>is_complete = c, probability = p\<rparr>))
      | None \<Rightarrow>
          (let (t, c) = tracker_append (mt_tracker a) (length (pcm audio)) (vad_is_speech vad);
               t' = (if c then tracker_clear t else t)
           in (a\<lparr>mt_tracker := t'\<rparr>, \<lparr>is_complete = c, probability = if c then FNum 1 else FNum 0\<rparr>)))"

definition mock_turn_set_params :: "mock_turn \<Rightarrow> turn_params \<Rightarrow> mock_turn" where
  "mock_turn_set_params a ps = a\<lparr>mt_tracker := set_stop_secs (mt_tracker a) (tp_stop_secs ps)\<rparr>"

text \<open>Smart-Turn: \<open>infer\<close> runs the endpoint model on a speech segment, with the configured
  input name and output index, and gives the output tensor, or fails.\<close>

record smart_turn =
  sn_tracker :: turn_silence_tracker
  sn_sample_rate :: u32
  sn_window_samples :: nat
  max_samples :: nat
  segment :: "f32 list"

definition max_samples_of :: "u32 \<Rightarrow> turn_params \<Rightarrow> nat" where
  "max_samples_of rate ps =
     fl_as_usize (fl_mul f32_fmt (case max_duration_secs ps of Some d \<Rightarrow> d | None \<Rightarrow> FNum 8) (f32_of_nat (unat rate)))"

definition smart_turn_new :: "bool \<Rightarrow> u32 \<Rightarrow> turn_params \<Rightarrow> smart_turn option" where
  "smart_turn_new loads rate ps =
     (if loads then
        Some \<lparr>sn_tracker = tracker_new rate (tp_stop_secs ps), sn_sample_rate = rate,
              sn_window_samples = 512, max_samples = max_samples_of rate ps, segment = []\<rparr>
      else None)"

definition predict_endpoint :: "(f32 list \<Rightarrow> f32 list option) \<Rightarrow> smart_turn \<Rightarrow> f32" where
  "predict_endpoint infer a =
     (let seg = (if max_samples a < length (segment a)
                 then drop (length (segment a) - max_samples a) (segment a) else segment a)
      in if seg = [] then FNum 0
         else case infer seg of
                Some (p # _) \<Rightarrow> p
              | _ \<Rightarrow> FNum 0)"

definition smart_analyze_turn ::
  "(f32 list \<Rightarrow> f32 list option) \<Rightarrow> smart_turn \<Rightarrow> audio_frame \<Rightarrow> vad_state \<Rightarrow> smart_turn \<times> turn_prediction" where
  "smart_analyze_turn infer a audio vad =
     (let is_speech = vad_is_speech vad;
          a1 = a\<lparr>segment := segment a @ normalize_pcm (pcm audio)\<rparr>;
          (t, forced) = tracker_append (sn_tracker a1) (length (pcm audio)) is_speech;
          a2 = a1\<lparr>sn_tracker := t\<rparr>
      in if forced then
           (a2\<lparr>sn_tracker := tracker_clear t, segment := []\<rparr>, \<lparr>is_complete = True, probability = FNum 1\<rparr>)
         else if \<not> is_speech \<and> speech_triggered t then
           let p = predict_endpoint infer a2; c = fl_ge p (FNum (1 / 2))
           in (if c then a2\<lparr>sn_tracker := tracker_clear t, segment := []\<rparr> else a2,
               \<lparr>is_complete = c, probability = p\<rparr>)
         else (a2, \<lparr>is_complete = False, probability = FNum 0\<rparr>))"

definition smart_turn_set_params :: "smart_turn \<Rightarrow> turn_params \<Rightarrow> smart_turn" where
  "smart_turn_set_params a ps =
     a\<lparr>sn_tracker := set_stop_secs (sn_tracker a) (tp_stop_secs ps), max_samples := max_samples_of (sn_sample_rate a) ps\<rparr>"

section \<open>The processor\<close>

record 'a turn_processor =
  tn_analyzer :: 'a
  tn_window_samples :: nat
  tn_buffer :: "i16 list"
  tn_sample_rate :: u32
  tn_vad :: vad_state
  last_prediction :: turn_prediction

definition turn_processor_new :: "'a \<Rightarrow> u32 \<Rightarrow> nat \<Rightarrow> 'a turn_processor" where
  "turn_processor_new a rate w =
     \<lparr>tn_analyzer = a, tn_window_samples = max w 1, tn_buffer = [], tn_sample_rate = rate, tn_vad = Quiet,
      last_prediction = \<lparr>is_complete = False, probability = FNum 0\<rparr>\<rparr>"

text \<open>\<open>drain_windows\<close>; \<open>new\<close> makes the window at least one sample.\<close>

function turn_drain_windows ::
  "('a \<Rightarrow> audio_frame \<Rightarrow> vad_state \<Rightarrow> 'a \<times> turn_prediction) \<Rightarrow> 'a turn_processor \<Rightarrow> 'a turn_processor" where
  "turn_drain_windows analyze p =
     (let w = tn_window_samples p
      in if 0 < w \<and> w \<le> length (tn_buffer p) then
           let (a, pr) = analyze (tn_analyzer p) (mono (take w (tn_buffer p)) (tn_sample_rate p)) (tn_vad p)
           in turn_drain_windows analyze (p\<lparr>tn_buffer := drop w (tn_buffer p), tn_analyzer := a, last_prediction := pr\<rparr>)
         else p)"
  by pat_completeness auto
termination
  by (relation "measure (\<lambda>(an, p). length (tn_buffer p))") auto

declare turn_drain_windows.simps [simp del]

definition turn_start :: "'a turn_processor \<Rightarrow> start_params \<Rightarrow> ('a turn_processor, 'j) hook_result" where
  "turn_start p params = (p\<lparr>tn_sample_rate := audio_in_sample_rate params\<rparr>, [], None)"

definition turn_process ::
  "('a \<Rightarrow> audio_frame \<Rightarrow> vad_state \<Rightarrow> 'a \<times> turn_prediction) \<Rightarrow> link \<Rightarrow> 'a turn_processor \<Rightarrow>
     'j envelope \<Rightarrow> u64 \<Rightarrow> 'a turn_processor \<times> 'j eff list \<times> u64 \<times> ustr option" where
  "turn_process analyze l p env n =
     (let (p', es, n') =
        (case env_frame env of
           VadUserStartedSpeaking _ \<Rightarrow> (p\<lparr>tn_vad := Speaking\<rparr>, [], n)
         | VadUserStoppedSpeaking _ \<Rightarrow>
             (let p1 = turn_drain_windows analyze (p\<lparr>tn_vad := Quiet\<rparr>);
                  (es, n1) = push_down l n (Metrics [TurnPrediction ''TurnProcessor''
                     (is_complete (last_prediction p1)) (probability (last_prediction p1)) (FNum 0)])
              in (p1, es, n1))
         | InputAudio audio \<Rightarrow> (turn_drain_windows analyze (p\<lparr>tn_buffer := tn_buffer p @ pcm audio\<rparr>), [], n)
         | _ \<Rightarrow> (p, [], n))
      in (p', es @ push_env l env, n', None))"

definition turn_processor_of ::
  "('a \<Rightarrow> audio_frame \<Rightarrow> vad_state \<Rightarrow> 'a \<times> turn_prediction) \<Rightarrow> ('a turn_processor, 'j) processor" where
  "turn_processor_of analyze =
     (default_processor ''TurnProcessor'')\<lparr>p_start := turn_start, p_process := turn_process analyze\<rparr>"

section \<open>Windowing\<close>

definition full_window :: "'a turn_processor \<Rightarrow> bool" where
  "full_window p \<longleftrightarrow> 0 < tn_window_samples p \<and> tn_window_samples p \<le> length (tn_buffer p)"

definition turn_window ::
  "('a \<Rightarrow> audio_frame \<Rightarrow> vad_state \<Rightarrow> 'a \<times> turn_prediction) \<Rightarrow> 'a turn_processor \<Rightarrow> 'a turn_processor" where
  "turn_window an p =
     (let r = an (tn_analyzer p) (mono (take (tn_window_samples p) (tn_buffer p)) (tn_sample_rate p)) (tn_vad p)
      in p\<lparr>tn_buffer := drop (tn_window_samples p) (tn_buffer p), tn_analyzer := fst r, last_prediction := snd r\<rparr>)"

lemma turn_drain_unfold:
  "turn_drain_windows an p = (if full_window p then turn_drain_windows an (turn_window an p) else p)"
  by (subst turn_drain_windows.simps) (simp add: full_window_def turn_window_def Let_def case_prod_unfold)

lemma turn_drain_cases [simp]:
  "full_window p \<Longrightarrow> turn_drain_windows an p = turn_drain_windows an (turn_window an p)"
  "\<not> full_window p \<Longrightarrow> turn_drain_windows an p = p"
  by (subst turn_drain_unfold, simp)+

lemma turn_drain_induct [case_names window rest]:
  assumes "\<And>p. full_window p \<Longrightarrow> P (turn_window an p) \<Longrightarrow> P p" and "\<And>p. \<not> full_window p \<Longrightarrow> P p"
  shows "P p"
proof (induction "length (tn_buffer p)" arbitrary: p rule: less_induct)
  case less
  have "full_window p \<Longrightarrow> length (tn_buffer (turn_window an p)) < length (tn_buffer p)"
    by (auto simp: full_window_def turn_window_def Let_def)
  then show ?case using assms less by blast
qed

lemma turn_window_fields [simp]:
  "tn_window_samples (turn_window an p) = tn_window_samples p"
  "tn_vad (turn_window an p) = tn_vad p" "tn_sample_rate (turn_window an p) = tn_sample_rate p"
  by (simp_all add: turn_window_def Let_def)

lemma turn_drain_fields [simp]:
  "tn_window_samples (turn_drain_windows an p) = tn_window_samples p"
  "tn_vad (turn_drain_windows an p) = tn_vad p"
  "tn_sample_rate (turn_drain_windows an p) = tn_sample_rate p"
  by (induction p rule: turn_drain_induct [where an = an]) simp_all

lemma turn_drain_short: "length (tn_buffer p) < tn_window_samples p \<Longrightarrow> turn_drain_windows an p = p"
  by (simp add: full_window_def)

lemma turn_drain_rest: "0 < tn_window_samples p \<Longrightarrow> length (tn_buffer (turn_drain_windows an p)) < tn_window_samples p"
  by (induction p rule: turn_drain_induct [where an = an]) (simp_all add: full_window_def)

lemma turn_drain_append:
  "turn_drain_windows an (p\<lparr>tn_buffer := tn_buffer p @ ys\<rparr>) =
     turn_drain_windows an ((turn_drain_windows an p)\<lparr>tn_buffer := tn_buffer (turn_drain_windows an p) @ ys\<rparr>)"
proof (induction p rule: turn_drain_induct [where an = an])
  case (window p)
  have "full_window (p\<lparr>tn_buffer := tn_buffer p @ ys\<rparr>)" using window by (simp add: full_window_def)
  moreover have "turn_window an (p\<lparr>tn_buffer := tn_buffer p @ ys\<rparr>) =
      (turn_window an p)\<lparr>tn_buffer := tn_buffer (turn_window an p) @ ys\<rparr>"
    using window(1) by (cases p) (simp add: turn_window_def full_window_def Let_def)
  ultimately show ?case using window by simp
qed simp

fun turn_run ::
  "('a \<Rightarrow> audio_frame \<Rightarrow> vad_state \<Rightarrow> 'a \<times> turn_prediction) \<Rightarrow> link \<Rightarrow> 'a turn_processor \<Rightarrow>
     'j envelope list \<Rightarrow> u64 \<Rightarrow> 'a turn_processor \<times> 'j eff list \<times> u64" where
  "turn_run analyze l p [] n = (p, [], n)"
| "turn_run analyze l p (e # es) n =
     (let (p1, x, n1, _) = turn_process analyze l p e n;
          (p2, y, n2) = turn_run analyze l p1 es n1
      in (p2, x @ y, n2))"

definition samples_of :: "'j envelope \<Rightarrow> i16 list" where
  "samples_of e = (case env_frame e of InputAudio a \<Rightarrow> pcm a | _ \<Rightarrow> [])"

definition vad_edge_frame :: "'j envelope \<Rightarrow> bool" where
  "vad_edge_frame e =
     (case env_frame e of VadUserStartedSpeaking _ \<Rightarrow> True | VadUserStoppedSpeaking _ \<Rightarrow> True | _ \<Rightarrow> False)"

lemma turn_process_plain:
  "\<not> vad_edge_frame e \<Longrightarrow> length (tn_buffer p) < tn_window_samples p \<Longrightarrow>
     fst (turn_process an l p e n) = turn_drain_windows an (p\<lparr>tn_buffer := tn_buffer p @ samples_of e\<rparr>)"
  by (cases "env_frame e")
    (simp_all add: turn_process_def vad_edge_frame_def samples_of_def Let_def turn_drain_short)

lemma turn_process_window: "tn_window_samples (fst (turn_process an l p e n)) = tn_window_samples p"
  by (cases "env_frame e") (simp_all add: turn_process_def Let_def case_prod_unfold)

lemma turn_process_rest:
  "length (tn_buffer p) < tn_window_samples p \<Longrightarrow>
     length (tn_buffer (fst (turn_process an l p e n))) < tn_window_samples p"
  using turn_drain_rest [of "p\<lparr>tn_buffer := tn_buffer p @ samples_of e\<rparr>" an]
  by (cases "env_frame e")
    (simp_all add: turn_process_def samples_of_def Let_def case_prod_unfold turn_drain_short)

lemma turn_run_state:
  "fst (turn_run an l p (e # es) n) =
     fst (turn_run an l (fst (turn_process an l p e n)) es (fst (snd (snd (turn_process an l p e n)))))"
  by (simp add: Let_def case_prod_unfold)

lemma turn_run_rest:
  "length (tn_buffer p) < tn_window_samples p \<Longrightarrow>
     length (tn_buffer (fst (turn_run an l p es n))) < tn_window_samples p \<and>
     tn_window_samples (fst (turn_run an l p es n)) = tn_window_samples p"
proof (induction es arbitrary: p n)
  case (Cons e es)
  then show ?case
    unfolding turn_run_state using turn_process_rest [of p an l e n] turn_process_window [of an l p e n] by metis
qed simp

lemma turn_run_chunks:
  "length (tn_buffer p) < tn_window_samples p \<Longrightarrow> \<forall>e\<in>set es. \<not> vad_edge_frame e \<Longrightarrow>
     fst (turn_run an l p es n) =
       turn_drain_windows an (p\<lparr>tn_buffer := tn_buffer p @ concat (map samples_of es)\<rparr>)"
proof (induction es arbitrary: p n)
  case Nil
  then show ?case by (simp add: turn_drain_short)
next
  case (Cons e es)
  let ?q = "fst (turn_process an l p e n)"
  have q: "?q = turn_drain_windows an (p\<lparr>tn_buffer := tn_buffer p @ samples_of e\<rparr>)"
    by (rule turn_process_plain) (use Cons.prems in simp_all)
  have "fst (turn_run an l p (e # es) n) =
      turn_drain_windows an (?q\<lparr>tn_buffer := tn_buffer ?q @ concat (map samples_of es)\<rparr>)"
    unfolding turn_run_state
    using Cons.IH [of ?q] Cons.prems turn_process_rest [of p an l e n] turn_process_window [of an l p e n] by simp
  also have "\<dots> = turn_drain_windows an (p\<lparr>tn_buffer := tn_buffer p @ samples_of e @ concat (map samples_of es)\<rparr>)"
    unfolding q
    using turn_drain_append [of an "p\<lparr>tn_buffer := tn_buffer p @ samples_of e\<rparr>" "concat (map samples_of es)"] by simp
  finally show ?case by simp
qed

section \<open>The contract of an analyzer\<close>

locale turn_analyzer =
  fixes analyze :: "'a \<Rightarrow> audio_frame \<Rightarrow> vad_state \<Rightarrow> 'a \<times> turn_prediction" and ok :: "'a \<Rightarrow> bool"
  assumes analyze_ok: "ok a \<Longrightarrow> ok (fst (analyze a w v))"
    and speech_incomplete: "ok a \<Longrightarrow> vad_is_speech v \<Longrightarrow> \<not> is_complete (snd (analyze a w v))"
begin

lemma drain_ok: "ok (tn_analyzer p) \<Longrightarrow> ok (tn_analyzer (turn_drain_windows analyze p))"
proof (induction p rule: turn_drain_induct [where an = analyze])
  case (window p)
  then show ?case by (simp add: turn_window_def Let_def analyze_ok)
qed simp

lemma drain_speech:
  "ok (tn_analyzer p) \<Longrightarrow> vad_is_speech (tn_vad p) \<Longrightarrow> full_window p \<or> \<not> is_complete (last_prediction p) \<Longrightarrow>
     \<not> is_complete (last_prediction (turn_drain_windows analyze p))"
proof (induction p rule: turn_drain_induct [where an = analyze])
  case (window p)
  then show ?case by (simp add: turn_window_def Let_def analyze_ok speech_incomplete)
qed simp

lemma process_ok: "ok (tn_analyzer p) \<Longrightarrow> ok (tn_analyzer (fst (turn_process analyze l p e n)))"
  by (cases "env_frame e") (simp_all add: turn_process_def Let_def case_prod_unfold drain_ok)

lemma run_ok: "ok (tn_analyzer p) \<Longrightarrow> ok (tn_analyzer (fst (turn_run analyze l p es n)))"
proof (induction es arbitrary: p n)
  case (Cons e es)
  then show ?case unfolding turn_run_state using process_ok by blast
qed simp

text \<open>The prediction reported at the end of a speech that held at least one window of audio.\<close>

lemma utterance_incomplete:
  assumes p: "length (tn_buffer p) < tn_window_samples p" "ok (tn_analyzer p)"
    and e0: "env_frame e0 = VadUserStartedSpeaking s0" and e1: "env_frame e1 = VadUserStoppedSpeaking s1"
    and mid: "\<forall>e\<in>set es. \<not> vad_edge_frame e" "tn_window_samples p \<le> length (concat (map samples_of es))"
    and q: "q = fst (turn_run analyze l p (e0 # es) n)"
  shows "\<exists>pr. fst (snd (turn_process analyze l q e1 k)) =
     fst (push_down l k (Metrics [TurnPrediction ''TurnProcessor'' False pr (FNum 0)])) @ push_env l e1"
proof -
  let ?p = "p\<lparr>tn_vad := Speaking\<rparr>"
  have q': "q = turn_drain_windows analyze (?p\<lparr>tn_buffer := tn_buffer ?p @ concat (map samples_of es)\<rparr>)"
    unfolding q turn_run_state using p mid(1) by (simp add: turn_process_def e0 Let_def turn_run_chunks)
  have "full_window (?p\<lparr>tn_buffer := tn_buffer ?p @ concat (map samples_of es)\<rparr>)"
    using p mid(2) by (simp add: full_window_def)
  then have inc: "\<not> is_complete (last_prediction q)"
    unfolding q' using p by (intro drain_speech) (simp_all add: vad_is_speech_def)
  have "0 < tn_window_samples p" using p(1) by linarith
  then have "length (tn_buffer q) < tn_window_samples q"
    unfolding q' using turn_drain_rest [of "?p\<lparr>tn_buffer := tn_buffer ?p @ concat (map samples_of es)\<rparr>" analyze]
    by simp
  then show ?thesis using inc
    by (intro exI [of _ "probability (last_prediction q)"])
      (simp add: turn_process_def e1 Let_def case_prod_unfold full_window_def)
qed

end

lemma tracker_speech: "snd (tracker_append t k True) = False"
  by (simp add: tracker_append_def)

interpretation mock_turn: turn_analyzer mock_analyze_turn "\<lambda>a. mt_script a = None"
  by unfold_locales
    (simp_all add: mock_analyze_turn_def tracker_append_def Let_def case_prod_unfold)

interpretation smart_turn: turn_analyzer "smart_analyze_turn infer" "\<lambda>a. True" for infer
  by unfold_locales (simp_all add: smart_analyze_turn_def tracker_append_def Let_def case_prod_unfold)

section \<open>Sample inputs\<close>

definition demo_pcm :: "i16 list \<Rightarrow> unit envelope" where
  "demo_pcm xs = fst (envelope_new 1 (InputAudio (mono xs 16000)) Downstream)"

definition demo_edge :: "bool \<Rightarrow> unit envelope" where
  "demo_edge up = fst (envelope_new 1 ((if up then VadUserStartedSpeaking else VadUserStoppedSpeaking) (FNum 0)) Downstream)"

lemma demo_env_simps:
  "env_frame (demo_pcm xs) = InputAudio (mono xs 16000)"
  "env_frame (demo_edge True) = VadUserStartedSpeaking (FNum 0)"
  "env_frame (demo_edge False) = VadUserStoppedSpeaking (FNum 0)"
  by (simp_all add: demo_pcm_def demo_edge_def envelope_new_def Let_def case_prod_unfold)

section \<open>Properties\<close>

text \<open>How the audio is cut into frames does not matter: the processor ends in the state it
  would reach by windowing the concatenated samples, whatever other frames (VAD edges apart) come
  in between.\<close>

lemma turn_chunking_invariant:
  assumes "\<forall>e\<in>set es. \<not> vad_edge_frame e"
  shows "fst (turn_run analyze l (turn_processor_new a rate w) es n) =
    turn_drain_windows analyze ((turn_processor_new a rate w)\<lparr>tn_buffer := concat (map samples_of es)\<rparr>)"
  using turn_run_chunks [OF _ assms, of "turn_processor_new a rate w"] by (simp add: turn_processor_new_def)

text \<open>With the Smart-Turn analyzer, the prediction reported when the user stops speaking is
  never "complete" if the speech held at least one full window of audio: every window of the
  speech is analyzed as speech, which is never complete, and the drain at the falling edge finds
  no full window left, so the model's verdict on the silence comes after the report.\<close>

lemma smart_turn_reports_incomplete:
  assumes "env_frame e0 = VadUserStartedSpeaking s0" and "env_frame e1 = VadUserStoppedSpeaking s1"
    and "\<forall>e\<in>set es. \<not> vad_edge_frame e" and "max w 1 \<le> length (concat (map samples_of es))"
    and "p = fst (turn_run (smart_analyze_turn infer) l (turn_processor_new a rate w) hist n0)"
    and "q = fst (turn_run (smart_analyze_turn infer) l p (e0 # es) n)"
  shows "\<exists>pr. fst (snd (turn_process (smart_analyze_turn infer) l q e1 k)) =
     fst (push_down l k (Metrics [TurnPrediction ''TurnProcessor'' False pr (FNum 0)])) @ push_env l e1"
proof -
  have "length (tn_buffer p) < tn_window_samples p \<and> tn_window_samples p = max w 1"
    unfolding assms(5) using turn_run_rest [of "turn_processor_new a rate w" "smart_analyze_turn infer" l hist n0] by (simp add: turn_processor_new_def)
  then show ?thesis
    using smart_turn.utterance_incomplete [OF _ _ assms(1,2,3) _ assms(6)] assms(4) by simp
qed

end
