(* ===== verification/Turn_Strategy.thy ===== *)
theory Turn_Strategy
  imports Frames
begin

text \<open>
  Turn strategies, \<^verbatim>\<open>flowcat-core/src/audio/strategy.rs\<close>: the pure decision
  functions that say when a user turn starts, when it stops, when the user is muted and when
  the bot may be interrupted. Each strategy is a record and one function per trait method,
  returning the updated record and the decision.

  The locales \<open>stop_strategy\<close> and \<open>mute_strategy\<close> are the contracts of the traits
  \<open>TurnStopStrategy\<close> and \<open>MuteStrategy\<close>; every implementation interprets them.
\<close>

section \<open>Turn start\<close>

datatype turn_start_decision = StartTriggered | Continue | ResetAggregation

definition vad_turn_start :: "'j frame \<Rightarrow> turn_start_decision" where
  "vad_turn_start f = (case f of VadUserStartedSpeaking _ \<Rightarrow> StartTriggered | _ \<Rightarrow> Continue)"

record min_words_turn_start =
  ms_min_words :: nat
  use_interim :: bool
  ms_bot_speaking :: bool

definition min_words_turn_start_new :: "nat \<Rightarrow> bool \<Rightarrow> min_words_turn_start" where
  "min_words_turn_start_new k i = \<lparr>ms_min_words = k, use_interim = i, ms_bot_speaking = False\<rparr>"

definition handle_transcription :: "min_words_turn_start \<Rightarrow> ustr \<Rightarrow> turn_start_decision" where
  "handle_transcription s t =
     (let floor = (if ms_bot_speaking s then max (ms_min_words s) 1 else 1);
          words = length (split_whitespace t)
      in if floor \<le> words then StartTriggered else ResetAggregation)"

definition min_words_on_frame ::
  "min_words_turn_start \<Rightarrow> 'j frame \<Rightarrow> min_words_turn_start \<times> turn_start_decision" where
  "min_words_on_frame s f =
     (case f of
        BotStartedSpeaking \<Rightarrow> (s\<lparr>ms_bot_speaking := True\<rparr>, Continue)
      | BotStoppedSpeaking \<Rightarrow> (s\<lparr>ms_bot_speaking := False\<rparr>, Continue)
      | Transcription t _ _ _ \<Rightarrow> (s, handle_transcription s t)
      | InterimTranscription t _ _ \<Rightarrow> (s, if use_interim s then handle_transcription s t else Continue)
      | _ \<Rightarrow> (s, Continue))"

definition min_words_start_reset :: "min_words_turn_start \<Rightarrow> min_words_turn_start" where
  "min_words_start_reset s = s\<lparr>ms_bot_speaking := False\<rparr>"

record external_turn_start =
  es_triggered :: bool

definition external_trigger :: "external_turn_start \<Rightarrow> external_turn_start" where
  "external_trigger s = s\<lparr>es_triggered := True\<rparr>"

definition external_on_frame :: "external_turn_start \<Rightarrow> 'j frame \<Rightarrow> external_turn_start \<times> turn_start_decision" where
  "external_on_frame s f =
     (if es_triggered s then (s\<lparr>es_triggered := False\<rparr>, StartTriggered) else (s, Continue))"

definition external_reset :: "external_turn_start \<Rightarrow> external_turn_start" where
  "external_reset s = s\<lparr>es_triggered := False\<rparr>"

section \<open>Turn stop\<close>

datatype turn_stop_decision = StopTriggered | Waiting

record turn_analyzer_stop =
  as_stt_timeout_ms :: f32
  as_vad_user_speaking :: bool
  as_turn_complete :: bool
  as_have_text :: bool
  as_transcript_finalized :: bool
  as_timeout_expired :: bool

definition analyzer_stop_new :: "f32 \<Rightarrow> turn_analyzer_stop" where
  "analyzer_stop_new ms =
     \<lparr>as_stt_timeout_ms = ms, as_vad_user_speaking = False, as_turn_complete = False,
      as_have_text = False, as_transcript_finalized = False, as_timeout_expired = False\<rparr>"

definition analyzer_evaluate :: "turn_analyzer_stop \<Rightarrow> turn_stop_decision" where
  "analyzer_evaluate s =
     (if \<not> as_have_text s \<or> \<not> as_turn_complete s \<or> as_vad_user_speaking s then Waiting
      else if as_transcript_finalized s \<or> as_timeout_expired s then StopTriggered
      else Waiting)"

definition set_turn_complete :: "turn_analyzer_stop \<Rightarrow> bool \<Rightarrow> turn_analyzer_stop \<times> turn_stop_decision" where
  "set_turn_complete s c =
     (let s' = s\<lparr>as_turn_complete := c\<rparr> in (s', analyzer_evaluate s'))"

definition analyzer_on_frame :: "turn_analyzer_stop \<Rightarrow> 'j frame \<Rightarrow> turn_analyzer_stop \<times> turn_stop_decision" where
  "analyzer_on_frame s f =
     (case f of
        VadUserStartedSpeaking _ \<Rightarrow>
          (s\<lparr>as_vad_user_speaking := True, as_turn_complete := False,
             as_transcript_finalized := False, as_timeout_expired := False\<rparr>, Waiting)
      | VadUserStoppedSpeaking _ \<Rightarrow>
          (let s' = s\<lparr>as_vad_user_speaking := False\<rparr> in (s', analyzer_evaluate s'))
      | Transcription t _ _ final \<Rightarrow>
          (let s1 = (if t \<noteq> [] then s\<lparr>as_have_text := True\<rparr> else s);
               s2 = (if final then s1\<lparr>as_transcript_finalized := True\<rparr> else s1)
           in (s2, analyzer_evaluate s2))
      | _ \<Rightarrow> (s, Waiting))"

definition analyzer_on_silence_tick :: "turn_analyzer_stop \<Rightarrow> f32 \<Rightarrow> turn_analyzer_stop \<times> turn_stop_decision" where
  "analyzer_on_silence_tick s elapsed =
     (let s' = (if \<not> as_vad_user_speaking s \<and> fl_ge elapsed (as_stt_timeout_ms s)
                then s\<lparr>as_timeout_expired := True\<rparr> else s)
      in (s', analyzer_evaluate s'))"

definition analyzer_stop_reset :: "turn_analyzer_stop \<Rightarrow> turn_analyzer_stop" where
  "analyzer_stop_reset s =
     s\<lparr>as_vad_user_speaking := False, as_turn_complete := False, as_have_text := False,
       as_transcript_finalized := False, as_timeout_expired := False\<rparr>"

record speech_timeout_stop =
  ts_user_speech_timeout_ms :: f32
  ts_stt_timeout_ms :: f32
  ts_vad_user_speaking :: bool
  ts_have_text :: bool
  ts_transcript_finalized :: bool
  ts_user_speech_done :: bool
  ts_stt_done :: bool

definition timeout_stop_new :: "f32 \<Rightarrow> f32 \<Rightarrow> speech_timeout_stop" where
  "timeout_stop_new user_ms stt_ms =
     \<lparr>ts_user_speech_timeout_ms = user_ms, ts_stt_timeout_ms = stt_ms, ts_vad_user_speaking = False,
      ts_have_text = False, ts_transcript_finalized = False, ts_user_speech_done = False,
      ts_stt_done = False\<rparr>"

definition timeout_evaluate :: "speech_timeout_stop \<Rightarrow> turn_stop_decision" where
  "timeout_evaluate s =
     (if ts_vad_user_speaking s \<or> \<not> ts_have_text s then Waiting
      else if ts_user_speech_done s \<and> ts_stt_done s then StopTriggered
      else Waiting)"

definition timeout_on_frame :: "speech_timeout_stop \<Rightarrow> 'j frame \<Rightarrow> speech_timeout_stop \<times> turn_stop_decision" where
  "timeout_on_frame s f =
     (case f of
        VadUserStartedSpeaking _ \<Rightarrow>
          (s\<lparr>ts_vad_user_speaking := True, ts_transcript_finalized := False,
             ts_user_speech_done := False, ts_stt_done := False\<rparr>, Waiting)
      | VadUserStoppedSpeaking secs \<Rightarrow>
          (let s1 = s\<lparr>ts_vad_user_speaking := False\<rparr>;
               s2 = (if ts_transcript_finalized s1 \<or>
                        fl_ge (fl_mul f32_fmt secs (FNum 1000)) (ts_stt_timeout_ms s1)
                     then s1\<lparr>ts_stt_done := True\<rparr> else s1)
           in (s2, timeout_evaluate s2))
      | Transcription t _ _ final \<Rightarrow>
          (let s1 = (if t \<noteq> [] then s\<lparr>ts_have_text := True\<rparr> else s);
               s2 = (if final then s1\<lparr>ts_transcript_finalized := True, ts_stt_done := True\<rparr> else s1)
           in (s2, timeout_evaluate s2))
      | _ \<Rightarrow> (s, Waiting))"

definition timeout_on_silence_tick :: "speech_timeout_stop \<Rightarrow> f32 \<Rightarrow> speech_timeout_stop \<times> turn_stop_decision" where
  "timeout_on_silence_tick s elapsed =
     (let s' =
        (if \<not> ts_vad_user_speaking s then
           let s1 = (if fl_ge elapsed (ts_user_speech_timeout_ms s) then s\<lparr>ts_user_speech_done := True\<rparr> else s)
           in if fl_ge elapsed (ts_stt_timeout_ms s1) then s1\<lparr>ts_stt_done := True\<rparr> else s1
         else s)
      in (s', timeout_evaluate s'))"

definition timeout_stop_reset :: "speech_timeout_stop \<Rightarrow> speech_timeout_stop" where
  "timeout_stop_reset s =
     s\<lparr>ts_vad_user_speaking := False, ts_have_text := False, ts_transcript_finalized := False,
       ts_user_speech_done := False, ts_stt_done := False\<rparr>"

section \<open>Mute\<close>

definition always_mute_on_frame :: "unit \<Rightarrow> 'j frame \<Rightarrow> unit \<times> bool" where
  "always_mute_on_frame s f = (s, True)"

definition always_muted :: "unit \<Rightarrow> bool" where
  "always_muted s = True"

record mute_until_first =
  mu_first_speech_handled :: bool

definition until_first_muted :: "mute_until_first \<Rightarrow> bool" where
  "until_first_muted s = (\<not> mu_first_speech_handled s)"

definition until_first_on_frame :: "mute_until_first \<Rightarrow> 'j frame \<Rightarrow> mute_until_first \<times> bool" where
  "until_first_on_frame s f =
     (let s' = (case f of BotStoppedSpeaking \<Rightarrow> s\<lparr>mu_first_speech_handled := True\<rparr> | _ \<Rightarrow> s)
      in (s', until_first_muted s'))"

record first_speech_mute =
  fm_bot_speaking :: bool
  fm_first_speech_handled :: bool

definition first_speech_muted :: "first_speech_mute \<Rightarrow> bool" where
  "first_speech_muted s = (fm_bot_speaking s \<and> \<not> fm_first_speech_handled s)"

definition first_speech_on_frame :: "first_speech_mute \<Rightarrow> 'j frame \<Rightarrow> first_speech_mute \<times> bool" where
  "first_speech_on_frame s f =
     (let s' = (case f of
                  BotStartedSpeaking \<Rightarrow> s\<lparr>fm_bot_speaking := True\<rparr>
                | BotStoppedSpeaking \<Rightarrow> s\<lparr>fm_bot_speaking := False, fm_first_speech_handled := True\<rparr>
                | _ \<Rightarrow> s)
      in (s', first_speech_muted s'))"

record function_call_mute =
  in_progress :: "ustr set"

definition function_call_muted :: "function_call_mute \<Rightarrow> bool" where
  "function_call_muted s = (in_progress s \<noteq> {})"

definition function_call_on_frame :: "function_call_mute \<Rightarrow> 'j frame \<Rightarrow> function_call_mute \<times> bool" where
  "function_call_on_frame s f =
     (let s' = (case f of
                  FunctionCallsStarted calls \<Rightarrow>
                    s\<lparr>in_progress := foldl (\<lambda>ids c. insert (fc_tool_call_id c) ids) (in_progress s) calls\<rparr>
                | FunctionCallResult r \<Rightarrow> s\<lparr>in_progress := in_progress s - {fr_tool_call_id r}\<rparr>
                | FunctionCallCancel name i \<Rightarrow> s\<lparr>in_progress := in_progress s - {i}\<rparr>
                | _ \<Rightarrow> s)
      in (s', function_call_muted s'))"

section \<open>Interruption\<close>

definition always_should_interrupt :: "unit \<Rightarrow> bool" where
  "always_should_interrupt s = True"

record min_words_interrupt =
  mi_min_words :: nat
  accumulated_words :: nat

definition min_words_interrupt_new :: "nat \<Rightarrow> min_words_interrupt" where
  "min_words_interrupt_new k = \<lparr>mi_min_words = k, accumulated_words = 0\<rparr>"

definition min_words_should_interrupt :: "min_words_interrupt \<Rightarrow> bool" where
  "min_words_should_interrupt s = (mi_min_words s \<le> accumulated_words s)"

definition append_transcription :: "min_words_interrupt \<Rightarrow> 'j frame \<Rightarrow> min_words_interrupt" where
  "append_transcription s f =
     (case f of
        Transcription t _ _ _ \<Rightarrow> s\<lparr>accumulated_words := accumulated_words s + length (split_whitespace t)\<rparr>
      | InterimTranscription t _ _ \<Rightarrow> s\<lparr>accumulated_words := accumulated_words s + length (split_whitespace t)\<rparr>
      | _ \<Rightarrow> s)"

definition min_words_interrupt_reset :: "min_words_interrupt \<Rightarrow> min_words_interrupt" where
  "min_words_interrupt_reset s = s\<lparr>accumulated_words := 0\<rparr>"

section \<open>What a turn-stop strategy may look at\<close>

text \<open>The calls a strategy receives, and what of that history matters: the events since the user
  last began to speak, and of those the silent part, from the end of the speech on.\<close>

datatype (plugins only: code size) 'j stop_event = OnFrame "'j frame" | SilenceTick f32 | TurnComplete bool

definition is_start :: "'j stop_event \<Rightarrow> bool" where
  "is_start e = (case e of OnFrame (VadUserStartedSpeaking _) \<Rightarrow> True | _ \<Rightarrow> False)"

definition is_stop :: "'j stop_event \<Rightarrow> bool" where
  "is_stop e = (case e of OnFrame (VadUserStoppedSpeaking _) \<Rightarrow> True | _ \<Rightarrow> False)"

definition is_final :: "'j stop_event \<Rightarrow> bool" where
  "is_final e = (case e of OnFrame (Transcription _ _ _ final) \<Rightarrow> final | _ \<Rightarrow> False)"

definition has_words :: "'j stop_event \<Rightarrow> bool" where
  "has_words e = (case e of OnFrame (Transcription t _ _ _) \<Rightarrow> t \<noteq> [] | _ \<Rightarrow> False)"

definition tick_reaches :: "f32 \<Rightarrow> 'j stop_event \<Rightarrow> bool" where
  "tick_reaches ms e = (case e of SilenceTick x \<Rightarrow> fl_ge x ms | _ \<Rightarrow> False)"

definition stop_covers :: "f32 \<Rightarrow> 'j stop_event \<Rightarrow> bool" where
  "stop_covers ms e =
     (case e of OnFrame (VadUserStoppedSpeaking secs) \<Rightarrow> fl_ge (fl_mul f32_fmt secs (FNum 1000)) ms | _ \<Rightarrow> False)"

text \<open>The events at which a strategy decides at all.\<close>

definition decides :: "'j stop_event \<Rightarrow> bool" where
  "decides e =
     (case e of
        OnFrame (VadUserStoppedSpeaking _) \<Rightarrow> True
      | OnFrame (Transcription _ _ _ _) \<Rightarrow> True
      | OnFrame _ \<Rightarrow> False
      | _ \<Rightarrow> True)"

definition since_start :: "'j stop_event list \<Rightarrow> 'j stop_event list" where
  "since_start evs = rev (takeWhile (\<lambda>e. \<not> is_start e) (rev evs))"

definition user_speaking :: "'j stop_event list \<Rightarrow> bool" where
  "user_speaking evs \<longleftrightarrow> list_ex is_start evs \<and> \<not> list_ex is_stop (since_start evs)"

definition silent_part :: "'j stop_event list \<Rightarrow> 'j stop_event list" where
  "silent_part evs =
     (if list_ex is_start evs then dropWhile (\<lambda>e. \<not> is_stop e) (since_start evs) else evs)"

definition judged_complete :: "'j stop_event list \<Rightarrow> bool" where
  "judged_complete evs =
     foldl (\<lambda>c e. case e of TurnComplete b \<Rightarrow> b | _ \<Rightarrow> c) False (since_start evs)"

lemma since_start_simps [simp]:
  "since_start [] = []"
  "since_start (evs @ [e]) = (if is_start e then [] else since_start evs @ [e])"
  by (simp_all add: since_start_def)

lemma user_speaking_simps [simp]:
  "\<not> user_speaking []"
  "user_speaking (evs @ [e]) = (is_start e \<or> (user_speaking evs \<and> \<not> is_stop e))"
  by (auto simp: user_speaking_def is_start_def is_stop_def split: stop_event.split frame.split)

lemma not_speaking_silent: "list_ex is_start evs \<Longrightarrow> user_speaking evs \<longleftrightarrow> silent_part evs = []"
  by (auto simp: user_speaking_def silent_part_def list_ex_iff dropWhile_eq_Nil_conv)

lemma silent_part_simps [simp]:
  "silent_part [] = []"
  "silent_part (evs @ [e]) =
     (if is_start e then []
      else if user_speaking evs then (if is_stop e then [e] else [])
      else silent_part evs @ [e])"
proof -
  have "dropWhile (\<lambda>e. \<not> is_stop e) (since_start evs @ [e]) = dropWhile (\<lambda>e. \<not> is_stop e) (since_start evs) @ [e]"
    if "list_ex is_stop (since_start evs)"
    using that by (auto simp: list_ex_iff dropWhile_append)
  moreover have "dropWhile (\<lambda>e. \<not> is_stop e) (since_start evs @ [e]) = dropWhile (\<lambda>e. \<not> is_stop e) [e]"
    if "\<not> list_ex is_stop (since_start evs)"
    using that by (simp add: list_ex_iff dropWhile_append2)
  ultimately show "silent_part (evs @ [e]) =
     (if is_start e then []
      else if user_speaking evs then (if is_stop e then [e] else [])
      else silent_part evs @ [e])"
    by (simp add: silent_part_def user_speaking_def)
qed (simp add: silent_part_def)

lemma judged_complete_simps [simp]:
  "\<not> judged_complete []"
  "judged_complete (evs @ [e]) =
     (case e of TurnComplete b \<Rightarrow> b | _ \<Rightarrow> \<not> is_start e \<and> judged_complete evs)"
  by (auto simp: judged_complete_def is_start_def split: stop_event.split frame.split)

section \<open>The contract of the stop strategies\<close>

fun stop_run :: "('s \<Rightarrow> 'j stop_event \<Rightarrow> 's \<times> turn_stop_decision) \<Rightarrow> 's \<Rightarrow> 'j stop_event list \<Rightarrow> 's" where
  "stop_run step s [] = s"
| "stop_run step s (e # evs) = stop_run step (fst (step s e)) evs"

lemma stop_run_append [simp]: "stop_run step s (xs @ ys) = stop_run step (stop_run step s xs) ys"
  by (induction xs arbitrary: s) simp_all

locale stop_strategy =
  fixes step :: "'s \<Rightarrow> 'j stop_event \<Rightarrow> 's \<times> turn_stop_decision"
    and speaking :: "'s \<Rightarrow> bool" and have_text :: "'s \<Rightarrow> bool"
    and init :: 's
  assumes init_speaking: "\<not> speaking init" and init_text: "\<not> have_text init"
    and step_speaking: "speaking (fst (step s e)) = (is_start e \<or> (speaking s \<and> \<not> is_stop e))"
    and step_text: "have_text (fst (step s e)) = (has_words e \<or> have_text s)"
    and step_trigger: "snd (step s e) = StopTriggered \<Longrightarrow>
      decides e \<and> \<not> speaking (fst (step s e)) \<and> have_text (fst (step s e))"
begin

lemma run_speaking: "speaking (stop_run step init evs) = user_speaking evs"
  by (induction evs rule: rev_induct) (simp_all add: init_speaking step_speaking)

lemma run_text: "have_text (stop_run step init evs) = list_ex has_words evs"
  by (induction evs rule: rev_induct) (auto simp: init_text step_text)

lemma never_cuts_off:
  "snd (step (stop_run step init evs) e) = StopTriggered \<Longrightarrow>
     decides e \<and> \<not> user_speaking (evs @ [e]) \<and> list_ex has_words (evs @ [e])"
  using step_trigger [of "stop_run step init evs" e] run_speaking [of "evs @ [e]"] run_text [of "evs @ [e]"]
  by simp

end

definition analyzer_step :: "turn_analyzer_stop \<Rightarrow> 'j stop_event \<Rightarrow> turn_analyzer_stop \<times> turn_stop_decision" where
  "analyzer_step s e =
     (case e of
        OnFrame f \<Rightarrow> analyzer_on_frame s f
      | SilenceTick x \<Rightarrow> analyzer_on_silence_tick s x
      | TurnComplete b \<Rightarrow> set_turn_complete s b)"

text \<open>The timeout strategy has no end-of-turn analyzer, and no method for its verdict.\<close>

definition timeout_step :: "speech_timeout_stop \<Rightarrow> 'j stop_event \<Rightarrow> speech_timeout_stop \<times> turn_stop_decision" where
  "timeout_step s e =
     (case e of
        OnFrame f \<Rightarrow> timeout_on_frame s f
      | SilenceTick x \<Rightarrow> timeout_on_silence_tick s x
      | TurnComplete b \<Rightarrow> (s, Waiting))"

lemmas event_defs = is_start_def is_stop_def is_final_def has_words_def tick_reaches_def stop_covers_def decides_def

lemmas analyzer_defs = analyzer_step_def analyzer_on_frame_def analyzer_on_silence_tick_def set_turn_complete_def
  analyzer_evaluate_def analyzer_stop_new_def Let_def

lemmas timeout_defs = timeout_step_def timeout_on_frame_def timeout_on_silence_tick_def timeout_evaluate_def
  timeout_stop_new_def Let_def

lemma analyzer_step_contract:
  "as_vad_user_speaking (fst (analyzer_step s e)) = (is_start e \<or> (as_vad_user_speaking s \<and> \<not> is_stop e))"
  "as_have_text (fst (analyzer_step s e)) = (has_words e \<or> as_have_text s)"
  "snd (analyzer_step s e) = StopTriggered \<longleftrightarrow>
     decides e \<and> analyzer_evaluate (fst (analyzer_step s e)) = StopTriggered"
  "as_transcript_finalized (fst (analyzer_step s e)) = (\<not> is_start e \<and> (is_final e \<or> as_transcript_finalized s))"
  "as_timeout_expired (fst (analyzer_step s e)) =
     (\<not> is_start e \<and> (as_timeout_expired s \<or> \<not> as_vad_user_speaking s \<and> tick_reaches (as_stt_timeout_ms s) e))"
  "as_turn_complete (fst (analyzer_step s e)) =
     (case e of TurnComplete b \<Rightarrow> b | _ \<Rightarrow> \<not> is_start e \<and> as_turn_complete s)"
  "as_stt_timeout_ms (fst (analyzer_step s e)) = as_stt_timeout_ms s"
  by (simp_all add: analyzer_defs event_defs split: stop_event.split frame.split)

lemma timeout_step_contract:
  "ts_vad_user_speaking (fst (timeout_step s e)) = (is_start e \<or> (ts_vad_user_speaking s \<and> \<not> is_stop e))"
  "ts_have_text (fst (timeout_step s e)) = (has_words e \<or> ts_have_text s)"
  "snd (timeout_step s e) = StopTriggered \<longleftrightarrow>
     (\<forall>b. e \<noteq> TurnComplete b) \<and> decides e \<and> timeout_evaluate (fst (timeout_step s e)) = StopTriggered"
  "ts_transcript_finalized (fst (timeout_step s e)) = (\<not> is_start e \<and> (is_final e \<or> ts_transcript_finalized s))"
  "ts_user_speech_done (fst (timeout_step s e)) =
     (\<not> is_start e \<and> (ts_user_speech_done s \<or>
       \<not> ts_vad_user_speaking s \<and> tick_reaches (ts_user_speech_timeout_ms s) e))"
  "ts_stt_done (fst (timeout_step s e)) =
     (\<not> is_start e \<and> (ts_stt_done s \<or> is_final e \<or> is_stop e \<and> ts_transcript_finalized s \<or>
       stop_covers (ts_stt_timeout_ms s) e \<or> \<not> ts_vad_user_speaking s \<and> tick_reaches (ts_stt_timeout_ms s) e))"
  "ts_user_speech_timeout_ms (fst (timeout_step s e)) = ts_user_speech_timeout_ms s"
  "ts_stt_timeout_ms (fst (timeout_step s e)) = ts_stt_timeout_ms s"
  by (auto simp: timeout_defs event_defs split: stop_event.split frame.split)

interpretation analyzer_stop: stop_strategy analyzer_step as_vad_user_speaking as_have_text "analyzer_stop_new ms" for ms
  by unfold_locales
    (auto simp: analyzer_step_contract analyzer_stop_new_def analyzer_evaluate_def split: if_splits)

interpretation timeout_stop: stop_strategy timeout_step ts_vad_user_speaking ts_have_text "timeout_stop_new u t" for u t
  by unfold_locales
    (auto simp: timeout_step_contract timeout_stop_new_def timeout_evaluate_def split: if_splits)

lemma speaking_silent_Nil [simp]: "user_speaking evs \<Longrightarrow> silent_part evs = []"
  using not_speaking_silent by (auto simp: user_speaking_def)

lemma tick_not_edge: "tick_reaches ms e \<Longrightarrow> \<not> is_start e \<and> \<not> is_stop e"
  by (auto simp: event_defs split: stop_event.splits)

lemma stop_not_start: "is_stop e \<Longrightarrow> \<not> is_start e \<and> \<not> is_final e" "stop_covers ms e \<Longrightarrow> is_stop e"
  by (auto simp: event_defs split: stop_event.splits frame.splits)

lemma analyzer_init [simp]:
  "as_stt_timeout_ms (analyzer_stop_new ms) = ms" "\<not> as_transcript_finalized (analyzer_stop_new ms)"
  "\<not> as_timeout_expired (analyzer_stop_new ms)" "\<not> as_turn_complete (analyzer_stop_new ms)"
  by (simp_all add: analyzer_stop_new_def)

lemma timeout_init [simp]:
  "ts_user_speech_timeout_ms (timeout_stop_new u t) = u" "ts_stt_timeout_ms (timeout_stop_new u t) = t"
  "\<not> ts_transcript_finalized (timeout_stop_new u t)" "\<not> ts_user_speech_done (timeout_stop_new u t)"
  "\<not> ts_stt_done (timeout_stop_new u t)"
  by (simp_all add: timeout_stop_new_def)

text \<open>Each flag of the two strategies, as a function of the history.\<close>

lemma analyzer_run_timeout [simp]: "as_stt_timeout_ms (stop_run analyzer_step (analyzer_stop_new ms) evs) = ms"
  by (induction evs rule: rev_induct) (simp_all add: analyzer_step_contract)

lemma analyzer_run_finalized:
  "as_transcript_finalized (stop_run analyzer_step (analyzer_stop_new ms) evs) = list_ex is_final (since_start evs)"
  by (induction evs rule: rev_induct) (auto simp: analyzer_step_contract)

lemma analyzer_run_expired:
  "as_timeout_expired (stop_run analyzer_step (analyzer_stop_new ms) evs) = list_ex (tick_reaches ms) (silent_part evs)"
  by (induction evs rule: rev_induct)
    (auto simp: analyzer_step_contract analyzer_stop.run_speaking dest: tick_not_edge)

lemma analyzer_run_complete:
  "as_turn_complete (stop_run analyzer_step (analyzer_stop_new ms) evs) = judged_complete evs"
  by (induction evs rule: rev_induct) (auto simp: analyzer_step_contract split: stop_event.split)

lemma timeout_run_timeouts [simp]:
  "ts_user_speech_timeout_ms (stop_run timeout_step (timeout_stop_new u t) evs) = u"
  "ts_stt_timeout_ms (stop_run timeout_step (timeout_stop_new u t) evs) = t"
  by (induction evs rule: rev_induct) (simp_all add: timeout_step_contract)

lemma timeout_run_finalized:
  "ts_transcript_finalized (stop_run timeout_step (timeout_stop_new u t) evs) = list_ex is_final (since_start evs)"
  by (induction evs rule: rev_induct) (auto simp: timeout_step_contract)

lemma timeout_run_user_done:
  "ts_user_speech_done (stop_run timeout_step (timeout_stop_new u t) evs) = list_ex (tick_reaches u) (silent_part evs)"
  by (induction evs rule: rev_induct)
    (auto simp: timeout_step_contract timeout_stop.run_speaking dest: tick_not_edge)

lemma timeout_run_stt_done:
  "ts_stt_done (stop_run timeout_step (timeout_stop_new u t) evs) =
     (list_ex (\<lambda>e. is_final e \<or> stop_covers t e) (since_start evs) \<or> list_ex (tick_reaches t) (silent_part evs))"
proof (induction evs rule: rev_induct)
  case (snoc e evs)
  have "list_ex is_final xs \<Longrightarrow> list_ex (\<lambda>e. is_final e \<or> stop_covers t e) xs" for xs
    by (auto simp: list_ex_iff)
  then show ?case
    using snoc tick_not_edge [of t e] stop_not_start(1) [of e] stop_not_start(2) [of t e]
    by (auto simp: timeout_step_contract timeout_run_finalized timeout_stop.run_speaking)
qed simp

section \<open>The contract of the mute strategies\<close>

fun mute_run :: "('s \<Rightarrow> 'j frame \<Rightarrow> 's \<times> bool) \<Rightarrow> 's \<Rightarrow> 'j frame list \<Rightarrow> 's" where
  "mute_run on_frame s [] = s"
| "mute_run on_frame s (f # fs) = mute_run on_frame (fst (on_frame s f)) fs"

lemma mute_run_append [simp]: "mute_run step s (xs @ ys) = mute_run step (mute_run step s xs) ys"
  by (induction xs arbitrary: s) simp_all

locale mute_strategy =
  fixes on_frame :: "'s \<Rightarrow> 'j frame \<Rightarrow> 's \<times> bool" and muted :: "'s \<Rightarrow> bool"
  assumes answers_state: "snd (on_frame s f) = muted (fst (on_frame s f))"
begin

lemma answer_after_run: "snd (on_frame (mute_run on_frame s fs) f) = muted (mute_run on_frame s (fs @ [f]))"
  by (simp add: answers_state)

end

interpretation always_mute: mute_strategy always_mute_on_frame always_muted
  by unfold_locales (simp add: always_mute_on_frame_def always_muted_def)

interpretation until_first_mute: mute_strategy until_first_on_frame until_first_muted
  by unfold_locales (simp add: until_first_on_frame_def Let_def)

interpretation first_speech_mute: mute_strategy first_speech_on_frame first_speech_muted
  by unfold_locales (simp add: first_speech_on_frame_def Let_def)

interpretation function_call_mute: mute_strategy function_call_on_frame function_call_muted
  by unfold_locales (simp add: function_call_on_frame_def Let_def)

definition starts_call :: "ustr \<Rightarrow> 'j frame \<Rightarrow> bool" where
  "starts_call i f = (case f of FunctionCallsStarted calls \<Rightarrow> i \<in> fc_tool_call_id ` set calls | _ \<Rightarrow> False)"

definition ends_call :: "ustr \<Rightarrow> 'j frame \<Rightarrow> bool" where
  "ends_call i f =
     (case f of FunctionCallResult r \<Rightarrow> fr_tool_call_id r = i | FunctionCallCancel _ j \<Rightarrow> j = i | _ \<Rightarrow> False)"

text \<open>A call is open after \<open>fs\<close>: it was started and neither answered nor cancelled since.\<close>

definition open_call :: "ustr \<Rightarrow> 'j frame list \<Rightarrow> bool" where
  "open_call i fs \<longleftrightarrow>
     (\<exists>xs f ys. fs = xs @ f # ys \<and> starts_call i f \<and> (\<forall>g\<in>set ys. \<not> ends_call i g))"

lemma open_call_snoc: "open_call i (fs @ [f]) \<longleftrightarrow> starts_call i f \<or> (open_call i fs \<and> \<not> ends_call i f)"
proof
  assume "open_call i (fs @ [f])"
  then obtain xs g ys where d: "fs @ [f] = xs @ g # ys" "starts_call i g" "\<forall>h\<in>set ys. \<not> ends_call i h"
    by (auto simp: open_call_def)
  show "starts_call i f \<or> (open_call i fs \<and> \<not> ends_call i f)"
  proof (cases ys rule: rev_cases)
    case Nil
    then show ?thesis using d by simp
  next
    case (snoc zs z)
    then have "fs = xs @ g # zs" "f = z" using d(1) by simp_all
    then show ?thesis using d snoc by (auto simp: open_call_def)
  qed
next
  assume "starts_call i f \<or> (open_call i fs \<and> \<not> ends_call i f)"
  then show "open_call i (fs @ [f])"
  proof
    assume "starts_call i f"
    then show ?thesis unfolding open_call_def by (intro exI [of _ fs] exI [of _ f] exI [of _ "[]"]) simp
  next
    assume *: "open_call i fs \<and> \<not> ends_call i f"
    then obtain xs g ys where "fs = xs @ g # ys" "starts_call i g" "\<forall>h\<in>set ys. \<not> ends_call i h"
      by (auto simp: open_call_def)
    then have "fs @ [f] = xs @ g # (ys @ [f])" "\<forall>h\<in>set (ys @ [f]). \<not> ends_call i h" using * by auto
    then show ?thesis using \<open>starts_call i g\<close> unfolding open_call_def by blast
  qed
qed

lemma foldl_insert_ids: "foldl (\<lambda>ids c. insert (g c) ids) A cs = A \<union> g ` set cs"
  by (induction cs arbitrary: A) auto

lemma function_call_in_progress:
  "in_progress (mute_run function_call_on_frame \<lparr>in_progress = {}\<rparr> fs) = {i. open_call i fs}"
proof (induction fs rule: rev_induct)
  case Nil
  then show ?case by (simp add: open_call_def)
next
  case (snoc f fs)
  then show ?case
    by (cases f)
      (auto simp: open_call_snoc function_call_on_frame_def Let_def starts_call_def ends_call_def foldl_insert_ids)
qed

section \<open>Properties\<close>

text \<open>C12. \<open>SpeechTimeoutStop\<close> ends a turn exactly when it should: at a silence tick, a speech
  end or a transcription, when the user is not speaking, some text was heard, a silence tick
  since the end of the speech reached the user timeout, and the transcriber's wait is settled
  (a final transcript, a speech end whose own silence covers it, or such a tick).\<close>

theorem speech_timeout_decides:
  "snd (timeout_step (stop_run timeout_step (timeout_stop_new u t) evs) e) = StopTriggered \<longleftrightarrow>
     (\<forall>b. e \<noteq> TurnComplete b) \<and> decides e \<and>
     \<not> user_speaking (evs @ [e]) \<and> list_ex has_words (evs @ [e]) \<and>
     list_ex (tick_reaches u) (silent_part (evs @ [e])) \<and>
     (list_ex (\<lambda>x. is_final x \<or> stop_covers t x) (since_start (evs @ [e])) \<or>
      list_ex (tick_reaches t) (silent_part (evs @ [e])))"
proof -
  let ?s = "stop_run timeout_step (timeout_stop_new u t) (evs @ [e])"
  have "timeout_evaluate ?s = StopTriggered \<longleftrightarrow>
      \<not> ts_vad_user_speaking ?s \<and> ts_have_text ?s \<and> ts_user_speech_done ?s \<and> ts_stt_done ?s"
    by (simp add: timeout_evaluate_def)
  then show ?thesis
    unfolding timeout_stop.run_speaking timeout_stop.run_text timeout_run_user_done timeout_run_stt_done
    by (simp add: timeout_step_contract(3) del: since_start_simps silent_part_simps user_speaking_simps)
qed

text \<open>\<open>TurnAnalyzerStop\<close> ends a turn exactly when the user is not speaking, some text was
  heard, the end-of-turn analyzer's last verdict since the user began to speak was "complete", and
  since then the transcript became final or a silence tick reached the timeout.\<close>

lemma turn_analyzer_decides:
  "snd (analyzer_step (stop_run analyzer_step (analyzer_stop_new ms) evs) e) = StopTriggered \<longleftrightarrow>
     decides e \<and> \<not> user_speaking (evs @ [e]) \<and> list_ex has_words (evs @ [e]) \<and>
     judged_complete (evs @ [e]) \<and>
     (list_ex is_final (since_start (evs @ [e])) \<or> list_ex (tick_reaches ms) (silent_part (evs @ [e])))"
proof -
  let ?s = "stop_run analyzer_step (analyzer_stop_new ms) (evs @ [e])"
  have "analyzer_evaluate ?s = StopTriggered \<longleftrightarrow>
      \<not> as_vad_user_speaking ?s \<and> as_have_text ?s \<and> as_turn_complete ?s \<and>
      (as_transcript_finalized ?s \<or> as_timeout_expired ?s)"
    by (simp add: analyzer_evaluate_def)
  then show ?thesis
    unfolding analyzer_stop.run_speaking analyzer_stop.run_text analyzer_run_finalized analyzer_run_expired
      analyzer_run_complete
    by (simp add: analyzer_step_contract(3) del: since_start_simps silent_part_simps user_speaking_simps
        judged_complete_simps)
qed

text \<open>The function-call mute answers "muted" exactly while some tool call is open: started
  and neither answered nor cancelled since.\<close>

lemma function_call_mute_tracks:
  "snd (function_call_on_frame (mute_run function_call_on_frame \<lparr>in_progress = {}\<rparr> fs) f) \<longleftrightarrow>
     (\<exists>i. open_call i (fs @ [f]))"
  unfolding function_call_mute.answer_after_run function_call_muted_def function_call_in_progress
  by auto

end
