(* ===== verification/Json.thy ===== *)
theory Json
  imports Flowcat_Prelude
begin

text \<open>
  JSON values as the agent crates use them: the type \<open>serde_json::Value\<close> and its accessors
  \<open>get\<close>, \<open>as_str\<close>, \<open>as_bool\<close>, \<open>as_array\<close>. A map keeps its keys sorted (the
  crate is built without \<open>preserve_order\<close>). Numbers carry the text they print as. Also the decimal and
  splitting helpers of \<open>str\<close> that the agent code needs.
\<close>

datatype json =
    JNull
  | JBool bool
  | JNum ustr
  | JStr ustr
  | JArr "json list"
  | JObj "(ustr \<times> json) list"

type_synonym jmap = "(ustr \<times> json) list"

definition jget :: "json \<Rightarrow> ustr \<Rightarrow> json option" where
  "jget v k = (case v of JObj m \<Rightarrow> map_of m k | _ \<Rightarrow> None)"

definition as_str :: "json \<Rightarrow> ustr option" where
  "as_str v = (case v of JStr s \<Rightarrow> Some s | _ \<Rightarrow> None)"

definition as_bool :: "json \<Rightarrow> bool option" where
  "as_bool v = (case v of JBool b \<Rightarrow> Some b | _ \<Rightarrow> None)"

definition as_array :: "json \<Rightarrow> json list option" where
  "as_array v = (case v of JArr xs \<Rightarrow> Some xs | _ \<Rightarrow> None)"

definition as_object :: "json \<Rightarrow> jmap option" where
  "as_object v = (case v of JObj m \<Rightarrow> Some m | _ \<Rightarrow> None)"

fun ustr_less :: "ustr \<Rightarrow> ustr \<Rightarrow> bool" where
  "ustr_less [] [] = False"
| "ustr_less [] (b # bs) = True"
| "ustr_less (a # as) [] = False"
| "ustr_less (a # as) (b # bs) = (a < b \<or> a = b \<and> ustr_less as bs)"

fun jinsert :: "ustr \<Rightarrow> json \<Rightarrow> jmap \<Rightarrow> jmap" where
  "jinsert k v [] = [(k, v)]"
| "jinsert k v ((k', v') # m) =
     (if k = k' then (k, v) # m
      else if ustr_less k k' then (k, v) # (k', v') # m
      else (k', v') # jinsert k v m)"

lemma map_of_jinsert [simp]: "map_of (jinsert k v m) = (map_of m)(k \<mapsto> v)"
  by (induction k v m rule: jinsert.induct) (auto simp: fun_eq_iff)

section \<open>Text helpers\<close>

text \<open>Decimal rendering of an unsigned integer.\<close>

fun show_nat :: "nat \<Rightarrow> ustr" where
  "show_nat n = (if n < 10 then [48 + n] else show_nat (n div 10) @ [48 + n mod 10])"

declare show_nat.simps [simp del]

text \<open>\<open>str::parse::<usize>\<close>: an optional plus sign, then at least one digit, within 64 bits.\<close>

definition digits_value :: "ustr \<Rightarrow> nat" where
  "digits_value s = foldl (\<lambda>a c. a * 10 + (c - 48)) 0 s"

definition parse_usize :: "ustr \<Rightarrow> nat option" where
  "parse_usize s =
     (let ds = (case s of c # cs \<Rightarrow> if c = 43 then cs else s | [] \<Rightarrow> [])
      in if ds \<noteq> [] \<and> list_all is_ascii_digit ds \<and> digits_value ds < 2 ^ 64
         then Some (digits_value ds) else None)"

text \<open>\<open>str::split\<close> on a character: at least one piece; and \<open>str::split_once\<close>.\<close>

fun split_on :: "uchar \<Rightarrow> ustr \<Rightarrow> ustr list" where
  "split_on c [] = [[]]"
| "split_on c (x # xs) =
     (if x = c then [] # split_on c xs
      else case split_on c xs of [] \<Rightarrow> [[x]] | p # ps \<Rightarrow> (x # p) # ps)"

lemma split_on_nonempty [simp]: "split_on c s \<noteq> []"
  by (cases s) (auto split: list.split)

definition split_once :: "uchar \<Rightarrow> ustr \<Rightarrow> (ustr \<times> ustr) option" where
  "split_once c s = find_split [c] s"

text \<open>\<open>str::replace\<close> of a non-empty pattern.\<close>

function replace_all :: "ustr \<Rightarrow> ustr \<Rightarrow> ustr \<Rightarrow> ustr" where
  "replace_all pat new s =
     (if pat = [] then s
      else case find_split pat s of
        None \<Rightarrow> s
      | Some (pre, post) \<Rightarrow> pre @ new @ replace_all pat new post)"
  by pat_completeness auto
termination
proof (relation "measure (\<lambda>(p, n, s). length s)", goal_cases)
  case 1
  then show ?case by simp
next
  case (2 pat new s a pre post)
  then have "s = pre @ pat @ post" by (auto dest: find_split_Some)
  with 2 show ?case by simp
qed

declare replace_all.simps [simp del]

definition join_with :: "ustr \<Rightarrow> ustr list \<Rightarrow> ustr" where
  "join_with sep xs = (case xs of [] \<Rightarrow> [] | y # ys \<Rightarrow> y @ concat (map (\<lambda>z. sep @ z) ys))"

text \<open>\<open>char::is_alphanumeric\<close>: exact on ASCII; beyond it the Unicode tables are an argument.\<close>

definition is_alphanumeric :: "(uchar \<Rightarrow> bool) \<Rightarrow> uchar \<Rightarrow> bool" where
  "is_alphanumeric uni c =
     (if c < 128 then (48 \<le> c \<and> c \<le> 57) \<or> (65 \<le> c \<and> c \<le> 90) \<or> (97 \<le> c \<and> c \<le> 122) else uni c)"

definition to_ascii_lowercase :: "uchar \<Rightarrow> uchar" where
  "to_ascii_lowercase c = (if 65 \<le> c \<and> c \<le> 90 then c + 32 else c)"

lemma show_nat_digits: "c \<in> set (show_nat n) \<Longrightarrow> 48 \<le> c \<and> c \<le> 57"
proof (induction n rule: show_nat.induct)
  case (1 n)
  then show ?case by (subst (asm) show_nat.simps) (auto split: if_splits)
qed

end
