(* ===== verification/Agent_Graph.thy ===== *)
theory Agent_Graph
  imports Json "HOL-Library.List_Lexorder"
begin

text \<open>
  The workflow graph of an agent, \<^verbatim>\<open>flowcat-agent/src/graph.rs\<close>: parsing with its structural checks,
  adjacency, and the edge-cardinality rules an editor shows.

  Decoding JSON into nodes and edges is derived by \<open>serde\<close> and is an argument (\<open>decode\<close>). A
  \<open>HashMap\<close> is a finite map; the order in which it is iterated is unspecified and is an argument
  (\<open>ord\<close>, the keys in iteration order), with \<open>hash_order\<close> the documented contract.
\<close>

section \<open>Data\<close>

datatype graph_error = NoStart | DanglingEdge ustr | Malformed ustr

datatype node_kind = NStart | NAgent | NEnd | NGlobal | NTrigger | NWebhook | NQa | NTuner | NOther

record edge_bounds =
  min_in :: "nat option"
  max_in :: "nat option"
  min_out :: "nat option"
  max_out :: "nat option"

definition bounds_of :: "node_kind \<Rightarrow> edge_bounds" where
  "bounds_of k =
     (case k of
        NStart \<Rightarrow> \<lparr>min_in = None, max_in = Some 0, min_out = None, max_out = None\<rparr>
      | NTrigger \<Rightarrow> \<lparr>min_in = None, max_in = Some 0, min_out = None, max_out = None\<rparr>
      | NAgent \<Rightarrow> \<lparr>min_in = Some 1, max_in = None, min_out = None, max_out = None\<rparr>
      | NEnd \<Rightarrow> \<lparr>min_in = Some 1, max_in = None, min_out = Some 0, max_out = Some 0\<rparr>
      | NOther \<Rightarrow> \<lparr>min_in = None, max_in = None, min_out = None, max_out = None\<rparr>
      | _ \<Rightarrow> \<lparr>min_in = Some 0, max_in = Some 0, min_out = Some 0, max_out = Some 0\<rparr>)"

definition kind_label :: "node_kind \<Rightarrow> ustr" where
  "kind_label k =
     lit (case k of
       NStart \<Rightarrow> ''Start'' | NAgent \<Rightarrow> ''Agent'' | NEnd \<Rightarrow> ''End'' | NGlobal \<Rightarrow> ''Global''
     | NTrigger \<Rightarrow> ''Trigger'' | NWebhook \<Rightarrow> ''Webhook'' | NQa \<Rightarrow> ''QA'' | NTuner \<Rightarrow> ''Tuner''
     | NOther \<Rightarrow> ''Node'')"

record validation_error =
  ve_kind :: ustr
  ve_id :: "ustr option"
  ve_message :: ustr

record node =
  nd_id :: ustr
  nd_kind :: node_kind
  nd_data :: json

record edge =
  ed_id :: ustr
  ed_source :: ustr
  ed_target :: ustr
  ed_label :: "ustr option"
  ed_data :: json

record graph =
  g_nodes :: "ustr \<rightharpoonup> node"
  g_edges :: "edge list"
  start_id :: ustr
  global_id :: "ustr option"
  adjacency :: "ustr \<rightharpoonup> nat list"

record raw_graph =
  rg_nodes :: "node list"
  rg_edges :: "edge list"

section \<open>Parsing\<close>

definition hash_values :: "((ustr \<rightharpoonup> node) \<Rightarrow> ustr list) \<Rightarrow> (ustr \<rightharpoonup> node) \<Rightarrow> node list" where
  "hash_values ord m = map (\<lambda>k. the (m k)) (ord m)"

definition collect_nodes :: "node list \<Rightarrow> (ustr \<rightharpoonup> node)" where
  "collect_nodes ns = foldl (\<lambda>m n. m(nd_id n \<mapsto> n)) Map.empty ns"

fun add_edges ::
  "(ustr \<rightharpoonup> node) \<Rightarrow> nat \<Rightarrow> edge list \<Rightarrow> (ustr \<rightharpoonup> nat list) \<Rightarrow> graph_error + (ustr \<rightharpoonup> nat list)" where
  "add_edges nodes idx [] adj = Inr adj"
| "add_edges nodes idx (e # es) adj =
     (if ed_source e \<notin> dom nodes then Inl (DanglingEdge (ed_source e))
      else if ed_target e \<notin> dom nodes then Inl (DanglingEdge (ed_target e))
      else add_edges nodes (idx + 1) es
             (adj(ed_source e \<mapsto> (case adj (ed_source e) of None \<Rightarrow> [] | Some is \<Rightarrow> is) @ [idx])))"

definition parse_graph ::
  "(json \<Rightarrow> ustr + raw_graph) \<Rightarrow> ((ustr \<rightharpoonup> node) \<Rightarrow> ustr list) \<Rightarrow> json \<Rightarrow> graph_error + graph" where
  "parse_graph decode ord spec =
     (case decode spec of
        Inl msg \<Rightarrow> Inl (Malformed msg)
      | Inr raw \<Rightarrow>
          (let nodes = collect_nodes (rg_nodes raw)
           in case find (\<lambda>n. nd_kind n = NStart) (hash_values ord nodes) of
                None \<Rightarrow> Inl NoStart
              | Some st \<Rightarrow>
                  (let glob = map_option nd_id (find (\<lambda>n. nd_kind n = NGlobal) (hash_values ord nodes))
                   in case add_edges nodes 0 (rg_edges raw) Map.empty of
                        Inl e \<Rightarrow> Inl e
                      | Inr adj \<Rightarrow>
                          Inr \<lparr>g_nodes = nodes, g_edges = rg_edges raw, start_id = nd_id st,
                               global_id = glob, adjacency = adj\<rparr>)))"

section \<open>Queries\<close>

definition global_prompt :: "graph \<Rightarrow> ustr option" where
  "global_prompt g =
     (case global_id g of
        None \<Rightarrow> None
      | Some i \<Rightarrow>
          (case g_nodes g i of
             None \<Rightarrow> None
           | Some n \<Rightarrow> (case jget (nd_data n) (lit ''prompt'') of None \<Rightarrow> None | Some v \<Rightarrow> as_str v)))"

text \<open>\<open>self.edges[i]\<close> panics out of range: \<open>None\<close>.\<close>

definition outgoing :: "graph \<Rightarrow> ustr \<Rightarrow> edge list option" where
  "outgoing g i =
     (case adjacency g i of
        None \<Rightarrow> Some []
      | Some idxs \<Rightarrow> those (map (index (g_edges g)) idxs))"

definition node_name :: "graph \<Rightarrow> ustr \<Rightarrow> ustr" where
  "node_name g i =
     (case g_nodes g i of
        None \<Rightarrow> i
      | Some n \<Rightarrow>
          (case List.map_filter (\<lambda>k. case jget (nd_data n) k of None \<Rightarrow> None | Some v \<Rightarrow> as_str v)
                  [lit ''name'', lit ''label'', lit ''title''] of
             [] \<Rightarrow> i
           | s # _ \<Rightarrow> s))"

definition is_terminal_node :: "graph \<Rightarrow> ustr \<Rightarrow> bool" where
  "is_terminal_node g i = (case g_nodes g i of None \<Rightarrow> False | Some n \<Rightarrow> nd_kind n = NEnd)"

section \<open>Cardinality\<close>

definition degrees :: "(edge \<Rightarrow> ustr) \<Rightarrow> graph \<Rightarrow> ustr \<rightharpoonup> nat" where
  "degrees pick g =
     foldl (\<lambda>d e. d(pick e \<mapsto> (case d (pick e) of None \<Rightarrow> 0 | Some k \<Rightarrow> k) + 1))
       (\<lambda>i. if i \<in> dom (g_nodes g) then Some 0 else None) (g_edges g)"

definition bound_messages :: "edge_bounds \<Rightarrow> nat \<Rightarrow> nat \<Rightarrow> ustr list" where
  "bound_messages b i out =
     (case min_in b of
        Some m \<Rightarrow> if i < m then [lit ''must have at least '' @ show_nat m @ lit '' incoming edge(s)''] else []
      | None \<Rightarrow> []) @
     (case max_in b of
        Some m \<Rightarrow> if m < i then [if m = 0 then lit ''cannot have incoming edges''
                    else lit ''must have at most '' @ show_nat m @ lit '' incoming edge(s)''] else []
      | None \<Rightarrow> []) @
     (case min_out b of
        Some m \<Rightarrow> if out < m then [lit ''must have at least '' @ show_nat m @ lit '' outgoing edge(s)''] else []
      | None \<Rightarrow> []) @
     (case max_out b of
        Some m \<Rightarrow> if m < out then [if m = 0 then lit ''cannot have outgoing edges''
                    else lit ''must have at most '' @ show_nat m @ lit '' outgoing edge(s)''] else []
      | None \<Rightarrow> [])"

definition cardinality_errors :: "((ustr \<rightharpoonup> node) \<Rightarrow> ustr list) \<Rightarrow> graph \<Rightarrow> validation_error list" where
  "cardinality_errors ord g =
     (let in_deg = degrees ed_target g; out_deg = degrees ed_source g
      in concat (map (\<lambda>n.
           let i = (case in_deg (nd_id n) of None \<Rightarrow> 0 | Some k \<Rightarrow> k);
               out = (case out_deg (nd_id n) of None \<Rightarrow> 0 | Some k \<Rightarrow> k)
           in map (\<lambda>msg. \<lparr>ve_kind = lit ''node'', ve_id = Some (nd_id n),
                    ve_message = kind_label (nd_kind n) @ lit '' node \"'' @ nd_id n @ lit ''\": '' @ msg\<rparr>)
                (bound_messages (bounds_of (nd_kind n)) i out))
         (hash_values ord (g_nodes g))))"

section \<open>What a parsed graph satisfies\<close>

definition hash_order :: "((ustr \<rightharpoonup> node) \<Rightarrow> ustr list) \<Rightarrow> bool" where
  "hash_order ord \<longleftrightarrow> (\<forall>m. finite (dom m) \<longrightarrow> distinct (ord m) \<and> set (ord m) = dom m)"

definition graph_ok :: "graph \<Rightarrow> bool" where
  "graph_ok g \<longleftrightarrow>
     finite (dom (g_nodes g)) \<and> (\<forall>i n. g_nodes g i = Some n \<longrightarrow> nd_id n = i) \<and>
     (\<exists>n. g_nodes g (start_id g) = Some n \<and> nd_kind n = NStart) \<and>
     (\<forall>e\<in>set (g_edges g). ed_source e \<in> dom (g_nodes g) \<and> ed_target e \<in> dom (g_nodes g)) \<and>
     (\<forall>i. outgoing g i = Some (filter (\<lambda>e. ed_source e = i) (g_edges g)))"

lemma collect_nodes_facts:
  "finite (dom (collect_nodes ns)) \<and> (\<forall>i n. collect_nodes ns i = Some n \<longrightarrow> nd_id n = i)"
proof (induction ns rule: rev_induct)
  case (snoc n ns)
  have "collect_nodes (ns @ [n]) = (collect_nodes ns)(nd_id n \<mapsto> n)" by (simp add: collect_nodes_def)
  then have "dom (collect_nodes (ns @ [n])) \<subseteq> insert (nd_id n) (dom (collect_nodes ns))"
    "\<forall>i m. collect_nodes (ns @ [n]) i = Some m \<longrightarrow> nd_id m = i"
    using snoc by (auto split: if_splits)
  then show ?case using snoc finite_subset by (metis finite.insertI)
qed (simp add: collect_nodes_def)

lemma find_hash_value:
  assumes "hash_order ord" and "finite (dom m)" and "\<forall>i n. m i = Some n \<longrightarrow> nd_id n = i"
    and "find P (hash_values ord m) = Some n"
  shows "m (nd_id n) = Some n \<and> P n"
proof -
  from assms(4) have "n \<in> set (hash_values ord m)" "P n" by (auto simp: find_Some_iff)
  then obtain k where "k \<in> set (ord m)" "n = the (m k)" by (auto simp: hash_values_def)
  with assms(1,2) have "m k = Some n" by (auto simp: hash_order_def domIff)
  with assms(3) \<open>P n\<close> show ?thesis by auto
qed

definition edge_idxs :: "ustr \<Rightarrow> nat \<Rightarrow> edge list \<Rightarrow> nat list" where
  "edge_idxs i k es = map fst (filter (\<lambda>(j, e). ed_source e = i) (enumerate k es))"

lemma add_edges_Inr:
  "add_edges nodes k es adj = Inr adj' \<Longrightarrow>
     (\<forall>e\<in>set es. ed_source e \<in> dom nodes \<and> ed_target e \<in> dom nodes) \<and>
     (\<forall>i. (case adj' i of None \<Rightarrow> [] | Some js \<Rightarrow> js) = (case adj i of None \<Rightarrow> [] | Some js \<Rightarrow> js) @ edge_idxs i k es)"
  by (induction nodes k es adj rule: add_edges.induct) (auto simp: edge_idxs_def split: if_splits)

lemma those_map_Some [simp]: "those (map Some xs) = Some xs"
  by (induction xs) simp_all

lemma edge_idxs_lookup:
  "those (map (index es) (edge_idxs i 0 es)) = Some (filter (\<lambda>e. ed_source e = i) es)"
proof -
  have "map (index es) (edge_idxs i 0 es) = map Some (map snd (filter (\<lambda>(j, e). ed_source e = i) (enumerate 0 es)))"
    by (auto simp: edge_idxs_def in_set_enumerate_eq)
  also have "map snd (filter (\<lambda>(j, e). ed_source e = i) (enumerate k es)) = filter (\<lambda>e. ed_source e = i) es" for k
    by (induction es arbitrary: k) auto
  finally show ?thesis by (simp add: those_map_Some)
qed

lemma degrees_count:
  "(case degrees pick g i of None \<Rightarrow> 0 | Some k \<Rightarrow> k) = length (filter (\<lambda>e. pick e = i) (g_edges g))"
proof -
  have "(case foldl (\<lambda>d e. d(pick e \<mapsto> (case d (pick e) of None \<Rightarrow> 0 | Some k \<Rightarrow> k) + 1)) d0 es i of
        None \<Rightarrow> 0 | Some k \<Rightarrow> k) = (case d0 i of None \<Rightarrow> 0 | Some k \<Rightarrow> k) + length (filter (\<lambda>e. pick e = i) es)"
    for es and d0 :: "ustr \<rightharpoonup> nat"
    by (induction es arbitrary: d0) auto
  then show ?thesis by (simp add: degrees_def)
qed

lemma parse_graph_ok:
  assumes "hash_order ord" and "parse_graph decode ord spec = Inr g"
  shows "graph_ok g"
proof -
  from assms(2) obtain raw st adj where raw: "decode spec = Inr raw"
    and st: "find (\<lambda>n. nd_kind n = NStart) (hash_values ord (collect_nodes (rg_nodes raw))) = Some st"
    and adj: "add_edges (collect_nodes (rg_nodes raw)) 0 (rg_edges raw) Map.empty = Inr adj"
    and g: "g_nodes g = collect_nodes (rg_nodes raw)" "g_edges g = rg_edges raw" "start_id g = nd_id st"
      "adjacency g = adj"
    by (auto simp: parse_graph_def Let_def split: sum.splits option.splits)
  note n = collect_nodes_facts [of "rg_nodes raw"]
  have "outgoing g i = Some (filter (\<lambda>e. ed_source e = i) (g_edges g))" for i
  proof -
    have "(case adj i of None \<Rightarrow> [] | Some js \<Rightarrow> js) = edge_idxs i 0 (rg_edges raw)"
      using add_edges_Inr [OF adj] by simp
    then show ?thesis
      using edge_idxs_lookup [of "rg_edges raw" i] g by (auto simp: outgoing_def split: option.splits)
  qed
  then show ?thesis
    using n g find_hash_value [OF assms(1) _ _ st] add_edges_Inr [OF adj] by (auto simp: graph_ok_def)
qed

definition within_bounds :: "edge_bounds \<Rightarrow> nat \<Rightarrow> nat \<Rightarrow> bool" where
  "within_bounds b i out \<longleftrightarrow>
     (\<forall>m. min_in b = Some m \<longrightarrow> m \<le> i) \<and> (\<forall>m. max_in b = Some m \<longrightarrow> i \<le> m) \<and>
     (\<forall>m. min_out b = Some m \<longrightarrow> m \<le> out) \<and> (\<forall>m. max_out b = Some m \<longrightarrow> out \<le> m)"

lemma bound_messages_Nil: "bound_messages b i out = [] \<longleftrightarrow> within_bounds b i out"
  by (auto simp: bound_messages_def within_bounds_def split: option.splits)

definition sorted_order :: "(ustr \<rightharpoonup> node) \<Rightarrow> ustr list" where
  "sorted_order m = sorted_list_of_set (dom m)"

lemma sorted_order_ok: "hash_order sorted_order"
  by (simp add: hash_order_def sorted_order_def)

definition demo_raw :: raw_graph where
  "demo_raw =
     \<lparr>rg_nodes = [\<lparr>nd_id = [1], nd_kind = NStart, nd_data = JNull\<rparr>, \<lparr>nd_id = [2], nd_kind = NAgent, nd_data = JNull\<rparr>,
        \<lparr>nd_id = [3], nd_kind = NEnd, nd_data = JNull\<rparr>],
      rg_edges = [\<lparr>ed_id = [4], ed_source = [1], ed_target = [2], ed_label = None, ed_data = JNull\<rparr>,
        \<lparr>ed_id = [5], ed_source = [2], ed_target = [3], ed_label = Some (lit ''bye''), ed_data = JNull\<rparr>]\<rparr>"

definition demo_graph :: graph where
  "demo_graph =
     \<lparr>g_nodes = collect_nodes (rg_nodes demo_raw), g_edges = rg_edges demo_raw, start_id = [1], global_id = None,
      adjacency = [[1] \<mapsto> [0], [2] \<mapsto> [1]]\<rparr>"

lemma demo_parse: "parse_graph (\<lambda>_. Inr demo_raw) sorted_order JNull = Inr demo_graph"
  by (simp add: parse_graph_def demo_raw_def demo_graph_def hash_values_def sorted_order_def collect_nodes_def Let_def)

section \<open>Properties\<close>

text \<open>A spec that parses gives a well-formed graph, for any hash order: the start node exists and is
  a start node, every edge joins two nodes, and the precomputed adjacency never indexes out of
  range and yields exactly the edges leaving a node, in declaration order.\<close>

lemma parsed_graph_well_formed:
  assumes "hash_order ord" and "parse_graph decode ord spec = Inr g"
  shows "(\<exists>n. g_nodes g (start_id g) = Some n \<and> nd_kind n = NStart) \<and>
    (\<forall>e\<in>set (g_edges g). ed_source e \<in> dom (g_nodes g) \<and> ed_target e \<in> dom (g_nodes g)) \<and>
    (\<forall>i. outgoing g i = Some (filter (\<lambda>e. ed_source e = i) (g_edges g)))"
  using parse_graph_ok [OF assms] by (simp add: graph_ok_def)

text \<open>The cardinality check reports no error exactly when every node's numbers of incoming and
  outgoing edges are within the bounds of its kind, for any hash order.\<close>

lemma cardinality_errors_exact:
  assumes "hash_order ord" and "parse_graph decode ord spec = Inr g"
  shows "cardinality_errors ord g = [] \<longleftrightarrow>
    (\<forall>i n. g_nodes g i = Some n \<longrightarrow>
       within_bounds (bounds_of (nd_kind n)) (length (filter (\<lambda>e. ed_target e = i) (g_edges g)))
         (length (filter (\<lambda>e. ed_source e = i) (g_edges g))))"
proof -
  have ok: "finite (dom (g_nodes g))" "\<forall>i n. g_nodes g i = Some n \<longrightarrow> nd_id n = i"
    using parse_graph_ok [OF assms] by (simp_all add: graph_ok_def)
  have "cardinality_errors ord g = [] \<longleftrightarrow>
      (\<forall>n\<in>set (hash_values ord (g_nodes g)).
         within_bounds (bounds_of (nd_kind n)) (length (filter (\<lambda>e. ed_target e = nd_id n) (g_edges g)))
           (length (filter (\<lambda>e. ed_source e = nd_id n) (g_edges g))))"
    by (simp add: cardinality_errors_def Let_def degrees_count bound_messages_Nil)
  moreover have "set (hash_values ord (g_nodes g)) = ran (g_nodes g)"
    using assms(1) ok(1) by (force simp: hash_values_def hash_order_def ran_def dom_def)
  ultimately show ?thesis using ok(2) by (auto simp: ran_def)
qed

end
