(* ===== verification/Agent_Template.thy ===== *)
theory Agent_Template
  imports Json
begin

text \<open>
  Template interpolation, the second half of \<^verbatim>\<open>flowcat-agent/src/engine.rs\<close>: \<open>{{path | fallback}}\<close>
  placeholders resolved against the run's variables, with time builtins.

  The clock and the time zone database are a \<open>clock\<close>: what \<open>chrono\<close> prints for the moment of the
  call in UTC and in a named zone (\<open>None\<close> for a name it cannot parse), and the hour in Singapore. How
  \<open>serde_json\<close> prints an object or array is the argument \<open>render\<close>.
\<close>

section \<open>Values\<close>

definition is_empty_value :: "json \<Rightarrow> bool" where
  "is_empty_value v = (case v of JNull \<Rightarrow> True | JStr s \<Rightarrow> s = [] | _ \<Rightarrow> False)"

definition value_to_string :: "(json \<Rightarrow> ustr) \<Rightarrow> json \<Rightarrow> ustr" where
  "value_to_string render v =
     (case v of
        JStr s \<Rightarrow> s
      | JNull \<Rightarrow> []
      | JObj _ \<Rightarrow> render v
      | JArr _ \<Rightarrow> render v
      | JBool b \<Rightarrow> if b then lit ''true'' else lit ''false''
      | JNum t \<Rightarrow> t)"

fun walk_path :: "json \<Rightarrow> ustr list \<Rightarrow> json option" where
  "walk_path cur [] = Some cur"
| "walk_path cur (p # ps) =
     (case (case cur of
              JObj _ \<Rightarrow> jget cur p
            | JArr arr \<Rightarrow> (case parse_usize p of None \<Rightarrow> None | Some i \<Rightarrow> index arr i)
            | _ \<Rightarrow> None) of
        None \<Rightarrow> None
      | Some v \<Rightarrow> walk_path v ps)"

definition get_nested :: "jmap \<Rightarrow> ustr \<Rightarrow> json option" where
  "get_nested vars path =
     (case split_on 46 path of
        [] \<Rightarrow> None
      | p # ps \<Rightarrow> (case map_of vars p of None \<Rightarrow> None | Some v \<Rightarrow> walk_path v ps))"

definition resolve_placeholder :: "(json \<Rightarrow> ustr) \<Rightarrow> ustr \<Rightarrow> jmap \<Rightarrow> ustr" where
  "resolve_placeholder render inner vars =
     (let (path, fallback) =
        (case split_once 124 inner of
           Some (p, f) \<Rightarrow>
             (trim p, Some (case strip_prefix (lit ''fallback:'') (trim f) of Some r \<Rightarrow> trim r | None \<Rightarrow> trim f))
         | None \<Rightarrow> (trim inner, None))
      in case get_nested vars path of
           Some v \<Rightarrow> if is_empty_value v then (case fallback of Some f \<Rightarrow> f | None \<Rightarrow> []) else value_to_string render v
         | None \<Rightarrow> (case fallback of Some f \<Rightarrow> f | None \<Rightarrow> []))"

section \<open>Time\<close>

datatype time_format = FmtTime | FmtWeekday | FmtDate

record zone =
  z_format :: "time_format \<Rightarrow> ustr"
  z_hour :: nat

record clock =
  ck_utc :: "time_format \<Rightarrow> ustr"
  ck_zone :: "ustr \<Rightarrow> zone option"
  ck_singapore_hour :: nat

definition greeting :: "nat \<Rightarrow> ustr" where
  "greeting h =
     lit (if 5 \<le> h \<and> h \<le> 11 then ''Good morning'' else if 12 \<le> h \<and> h \<le> 16 then ''Good afternoon''
          else if 17 \<le> h \<and> h \<le> 21 then ''Good evening'' else ''Hello'')"

definition zone_suffix :: "clock \<Rightarrow> ustr \<Rightarrow> zone option" where
  "zone_suffix ck rest = (case strip_prefix (lit ''_'') rest of None \<Rightarrow> None | Some nm \<Rightarrow> ck_zone ck nm)"

definition time_builtin :: "clock \<Rightarrow> ustr \<Rightarrow> ustr option" where
  "time_builtin ck inner =
     (case strip_prefix (lit ''greeting_phrase'') inner of
        Some rest \<Rightarrow>
          map_option greeting
            (if rest = [] then Some (ck_singapore_hour ck) else map_option z_hour (zone_suffix ck rest))
      | None \<Rightarrow>
          (case (case strip_prefix (lit ''current_time'') inner of
                   Some rest \<Rightarrow> Some (FmtTime, rest)
                 | None \<Rightarrow>
                     (case strip_prefix (lit ''current_weekday'') inner of
                        Some rest \<Rightarrow> Some (FmtWeekday, rest)
                      | None \<Rightarrow> map_option (Pair FmtDate) (strip_prefix (lit ''current_date'') inner))) of
             None \<Rightarrow> None
           | Some (fmt, tz) \<Rightarrow>
               if tz = [] then Some (ck_utc ck fmt) else map_option (\<lambda>z. z_format z fmt) (zone_suffix ck tz)))"

section \<open>Interpolation\<close>

definition open_braces :: ustr where "open_braces = [123, 123]"

definition close_braces :: ustr where "close_braces = [125, 125]"

definition placeholder_text :: "clock \<Rightarrow> (json \<Rightarrow> ustr) \<Rightarrow> jmap \<Rightarrow> ustr \<Rightarrow> ustr" where
  "placeholder_text ck render vars inner =
     (case time_builtin ck (trim inner) of
        Some t \<Rightarrow> t
      | None \<Rightarrow> resolve_placeholder render inner vars)"

function interpolate_loop :: "(ustr \<Rightarrow> ustr) \<Rightarrow> ustr \<Rightarrow> ustr" where
  "interpolate_loop subst rest =
     (case find_split open_braces rest of
        None \<Rightarrow> rest
      | Some (pre, after) \<Rightarrow>
          (case find_split close_braces after of
             Some (inner, post) \<Rightarrow> pre @ subst inner @ interpolate_loop subst post
           | None \<Rightarrow> pre @ open_braces @ interpolate_loop subst after))"
  by pat_completeness auto
termination
  by (relation "measure (\<lambda>(f, s). length s)")
    (auto dest!: find_split_Some simp: open_braces_def close_braces_def)

declare interpolate_loop.simps [simp del]

definition var_interpolate :: "clock \<Rightarrow> (json \<Rightarrow> ustr) \<Rightarrow> ustr \<Rightarrow> jmap \<Rightarrow> ustr" where
  "var_interpolate ck render template vars =
     replace_all [92, 110] [10] (interpolate_loop (placeholder_text ck render vars) template)"

fun var_interpolate_value :: "clock \<Rightarrow> (json \<Rightarrow> ustr) \<Rightarrow> jmap \<Rightarrow> json \<Rightarrow> json" where
  "var_interpolate_value ck render vars (JStr s) = JStr (var_interpolate ck render s vars)"
| "var_interpolate_value ck render vars (JArr xs) = JArr (map (var_interpolate_value ck render vars) xs)"
| "var_interpolate_value ck render vars (JObj m) = JObj (map (\<lambda>(k, v). (k, var_interpolate_value ck render vars v)) m)"
| "var_interpolate_value ck render vars JNull = JNull"
| "var_interpolate_value ck render vars (JBool b) = JBool b"
| "var_interpolate_value ck render vars (JNum t) = JNum t"

section \<open>Templates as segments\<close>

text \<open>A template is a sequence of literals and placeholders. A literal has no opening braces, not even
  one that the next placeholder's braces would complete; a placeholder has no closing braces.\<close>

datatype segment = Lit ustr | Hole ustr

fun print_segment :: "segment \<Rightarrow> ustr" where
  "print_segment (Lit t) = t"
| "print_segment (Hole t) = open_braces @ t @ close_braces"

fun segment_ok :: "segment \<Rightarrow> bool" where
  "segment_ok (Lit t) = (123 \<notin> set t)"
| "segment_ok (Hole t) = (125 \<notin> set t)"

fun segment_text :: "(ustr \<Rightarrow> ustr) \<Rightarrow> segment \<Rightarrow> ustr" where
  "segment_text subst (Lit t) = t"
| "segment_text subst (Hole t) = subst t"

lemma strip_double: "c \<notin> set t \<Longrightarrow> find_split [c, c] (t @ [c, c] @ r) = Some (t, r)"
  by (induction t) auto

lemma find_double_none: "c \<notin> set t \<Longrightarrow> find_split [c, c] t = None"
  by (induction t) auto

lemma find_double_lit:
  "c \<notin> set t \<Longrightarrow> find_split [c, c] (t @ r) = map_option (apfst (append t)) (find_split [c, c] r)"
proof (induction t)
  case Nil
  show ?case by (cases "find_split [c, c] r") auto
next
  case (Cons a t)
  then show ?case by (cases "find_split [c, c] r") auto
qed

lemma interpolate_lit:
  "123 \<notin> set t \<Longrightarrow> interpolate_loop subst (t @ r) = t @ interpolate_loop subst r"
  by (subst (1 2) interpolate_loop.simps)
    (auto simp: open_braces_def find_double_lit split: option.split)

lemma interpolate_hole:
  "125 \<notin> set t \<Longrightarrow> interpolate_loop subst (open_braces @ t @ close_braces @ r) = subst t @ interpolate_loop subst r"
  using strip_double [of 123 "[]" "t @ close_braces @ r"] strip_double [of 125 t r]
  by (subst interpolate_loop.simps) (simp add: open_braces_def close_braces_def)

lemma interpolate_segments:
  "list_all segment_ok segs \<Longrightarrow>
     interpolate_loop subst (concat (map print_segment segs)) = concat (map (segment_text subst) segs)"
proof (induction segs)
  case Nil
  then show ?case by (simp add: interpolate_loop.simps open_braces_def)
next
  case (Cons s segs)
  then show ?case by (cases s) (simp_all add: interpolate_lit interpolate_hole)
qed

lemma interpolate_unclosed:
  "find_split close_braces s = None \<Longrightarrow> interpolate_loop subst s = s"
proof (induction "length s" arbitrary: s rule: less_induct)
  case less
  show ?case
  proof (cases "find_split open_braces s")
    case None
    then show ?thesis by (subst interpolate_loop.simps) simp
  next
    case (Some pa)
    obtain pre after where pa: "pa = (pre, after)" by (cases pa)
    have s: "s = pre @ open_braces @ after" using Some pa by (auto dest: find_split_Some)
    have n: "find_split close_braces after = None"
    proof (rule ccontr)
      assume "find_split close_braces after \<noteq> None"
      then obtain x y where "after = x @ close_braces @ y" by (auto dest: find_split_Some)
      then have "\<exists>u v. s = u @ close_braces @ v" using s by (metis append.assoc)
      moreover have "find_split p (u @ p @ v) \<noteq> None" for p u v :: ustr
      proof (induction u)
        case Nil
        have "strip_prefix p (p @ v) = Some v" by simp
        then show ?case by (cases "p @ v") auto
      qed (auto split: option.split)
      ultimately show False using less.prems by metis
    qed
    then show ?thesis using less.hyps [of after] Some pa s
      by (subst interpolate_loop.simps) (simp add: open_braces_def)
  qed
qed

text \<open>A clock without zones, at nine in Singapore.\<close>

definition demo_clock :: clock where
  "demo_clock = \<lparr>ck_utc = (\<lambda>_. []), ck_zone = (\<lambda>_. None), ck_singapore_hour = 9\<rparr>"

section \<open>Properties\<close>

text \<open>Interpolation is one pass: a template made of literals and placeholders renders as the
  literals and the texts of the placeholders in order, and what a variable holds is never scanned
  again, whatever braces it contains. Only then \<open>\n\<close> becomes a line break.\<close>

lemma interpolation_is_one_pass:
  assumes "list_all segment_ok segs"
  shows "var_interpolate ck render (concat (map print_segment segs)) vars =
    replace_all [92, 110] [10] (concat (map (segment_text (placeholder_text ck render vars)) segs))"
  using interpolate_segments [OF assms] by (simp add: var_interpolate_def)

end
