(* ===== verification/Agent_Engine.thy ===== *)
theory Agent_Engine
  imports Agent_Graph Agent_Template "HOL-Library.Monad_Syntax"
begin

text \<open>
  The decision engine of a declarative agent and its adapter to the runtime:
  \<^verbatim>\<open>flowcat-agent/src/engine.rs\<close>, \<^verbatim>\<open>flowcat-agent/src/brain.rs\<close>. The engine walks the graph of
  \<open>Agent_Graph\<close> on the transitions the model calls and composes the prompt of the active node.

  \<open>env\<close> gathers what lies outside: the clock, how JSON prints, the Unicode tables beyond ASCII, and the
  derived decoding of an extraction variable. An indexing panic is \<open>None\<close>; for a parsed
  graph it does not occur.
\<close>

record env =
  ev_clock :: clock
  ev_render :: "json \<Rightarrow> ustr"
  ev_alnum :: "uchar \<Rightarrow> bool"

abbreviation interp :: "env \<Rightarrow> ustr \<Rightarrow> jmap \<Rightarrow> ustr" where
  "interp ev \<equiv> var_interpolate (ev_clock ev) (ev_render ev)"

definition slugify :: "env \<Rightarrow> ustr \<Rightarrow> ustr" where
  "slugify ev label =
     map (\<lambda>c. if is_alphanumeric (ev_alnum ev) c then to_ascii_lowercase c else 95) label"

section \<open>Data\<close>

datatype engine_error = GraphErr graph_error | UnknownNode ustr

datatype transfer_mode = Cold | Warm

datatype action =
    Transition ustr "ustr option"
  | Stay
  | EndCall
  | Transfer ustr "ustr option" "ustr option" transfer_mode

record transition_spec =
  tr_name :: ustr
  tr_target :: ustr
  tr_description :: "ustr option"

record transfer_target =
  tt_name :: ustr
  target_phone :: ustr
  target_name :: "ustr option"
  tt_description :: "ustr option"
  tt_say :: "ustr option"
  tt_mode :: transfer_mode

record node_prompt =
  np_node_id :: ustr
  np_system_prompt :: ustr
  np_transitions :: "transition_spec list"
  np_transfer_targets :: "transfer_target list"

datatype var_type = VString | VNumber | VBoolean

record extraction_var =
  xv_name :: ustr
  xv_type :: var_type
  xv_hint :: "ustr option"

record extraction_spec =
  xs_prompt :: "ustr option"
  xs_variables :: "extraction_var list"

record node_info =
  ni_id :: ustr
  ni_name :: ustr
  ni_allow_interrupt :: "bool option"

record engine =
  en_graph :: graph
  en_current :: ustr
  en_vars :: jmap
  en_runtime_options :: json
  en_visited :: "ustr list"

section \<open>Walking the graph\<close>

definition record_visit :: "engine \<Rightarrow> engine" where
  "record_visit e =
     (let name = node_name (en_graph e) (en_current e)
      in if name \<in> set (en_visited e) then e else e\<lparr>en_visited := en_visited e @ [name]\<rparr>)"

text \<open>A field of the node's data, as text.\<close>

definition str_field :: "json \<Rightarrow> string \<Rightarrow> ustr option" where
  "str_field v k = (case jget v (lit k) of None \<Rightarrow> None | Some x \<Rightarrow> as_str x)"

definition blank :: "ustr \<Rightarrow> bool" where
  "blank s = (trim s = [])"

definition opt_filter :: "('a \<Rightarrow> bool) \<Rightarrow> 'a option \<Rightarrow> 'a option" where
  "opt_filter P x = (case x of None \<Rightarrow> None | Some v \<Rightarrow> if P v then Some v else None)"

definition opt_or :: "'a option \<Rightarrow> 'a option \<Rightarrow> 'a option" where
  "opt_or x y = (case x of None \<Rightarrow> y | Some v \<Rightarrow> Some v)"

definition advance_through_start :: "engine \<Rightarrow> engine option" where
  "advance_through_start e =
     (case g_nodes (en_graph e) (en_current e) of
        None \<Rightarrow> Some e
      | Some n \<Rightarrow>
          if nd_kind n \<noteq> NStart then Some e
          else if (case str_field (nd_data n) ''prompt'' of None \<Rightarrow> False | Some s \<Rightarrow> \<not> blank s) then Some e
          else do {
            outs \<leftarrow> outgoing (en_graph e) (en_current e);
            Some (case outs of [] \<Rightarrow> e | ed # _ \<Rightarrow> e\<lparr>en_current := ed_target ed\<rparr>)
          })"

definition engine_new ::
  "(json \<Rightarrow> ustr + raw_graph) \<Rightarrow> ((ustr \<rightharpoonup> node) \<Rightarrow> ustr list) \<Rightarrow> json \<Rightarrow> json \<Rightarrow> jmap \<Rightarrow> (engine_error + engine) option" where
  "engine_new decode ord spec opts vars =
     (case parse_graph decode ord spec of
        Inl err \<Rightarrow> Some (Inl (GraphErr err))
      | Inr g \<Rightarrow> do {
          e \<leftarrow> advance_through_start
                 \<lparr>en_graph = g, en_current = start_id g, en_vars = vars, en_runtime_options = opts, en_visited = []\<rparr>;
          Some (Inr (record_visit e))
        })"

definition set_current_node :: "engine \<Rightarrow> ustr \<Rightarrow> engine_error + engine" where
  "set_current_node e i =
     (if g_nodes (en_graph e) i \<noteq> None then Inr (record_visit (e\<lparr>en_current := i\<rparr>)) else Inl (UnknownNode i))"

definition current_node_info :: "engine \<Rightarrow> node_info" where
  "current_node_info e =
     \<lparr>ni_id = en_current e, ni_name = node_name (en_graph e) (en_current e),
      ni_allow_interrupt =
        (case g_nodes (en_graph e) (en_current e) of
           None \<Rightarrow> None
         | Some n \<Rightarrow>
             (case opt_or (jget (nd_data n) (lit ''allow_interrupt'')) (jget (nd_data n) (lit ''allowInterrupt'')) of
                None \<Rightarrow> None | Some v \<Rightarrow> as_bool v))\<rparr>"

definition is_finished :: "engine \<Rightarrow> bool" where
  "is_finished e = is_terminal_node (en_graph e) (en_current e)"

section \<open>The prompt of the active node\<close>

definition compose_prompt :: "env \<Rightarrow> engine \<Rightarrow> json option \<Rightarrow> ustr" where
  "compose_prompt ev e data =
     (let own = interp ev (case data of None \<Rightarrow> [] | Some d \<Rightarrow> (case str_field d ''prompt'' of None \<Rightarrow> [] | Some s \<Rightarrow> s)) (en_vars e);
          inherit = (case data of
              None \<Rightarrow> True
            | Some d \<Rightarrow>
                (case opt_or (jget d (lit ''add_global_prompt'')) (jget d (lit ''inherit_global_directive'')) of
                   None \<Rightarrow> True
                 | Some v \<Rightarrow> (case as_bool v of None \<Rightarrow> True | Some b \<Rightarrow> b)))
      in if inherit then
           (case global_prompt (en_graph e) of
              None \<Rightarrow> own
            | Some raw \<Rightarrow>
                let glob = interp ev raw (en_vars e)
                in if blank glob then own
                   else if blank own then glob
                   else glob @ [10, 10] @ own)
         else own)"

definition transition_of :: "env \<Rightarrow> nat \<Rightarrow> edge \<Rightarrow> transition_spec" where
  "transition_of ev i ed =
     \<lparr>tr_name = (case ed_label ed of Some l \<Rightarrow> slugify ev l | None \<Rightarrow> lit ''transition_'' @ show_nat i),
      tr_target = ed_target ed,
      tr_description =
        opt_or (opt_filter (\<lambda>s. \<not> blank s)
                  (case opt_or (jget (ed_data ed) (lit ''transition_criteria'')) (jget (ed_data ed) (lit ''condition'')) of
                     None \<Rightarrow> None | Some v \<Rightarrow> as_str v))
               (ed_label ed)\<rparr>"

definition transfer_target_of :: "env \<Rightarrow> jmap \<Rightarrow> nat \<Rightarrow> json \<Rightarrow> transfer_target option" where
  "transfer_target_of ev vars i t =
     (case opt_filter (\<lambda>s. s \<noteq> []) (map_option trim (str_field t ''target_phone'')) of
        None \<Rightarrow> None
      | Some phone \<Rightarrow>
          Some \<lparr>tt_name =
                 (case opt_filter (\<lambda>s. s \<noteq> []) (map_option (slugify ev) (str_field t ''name'')) of
                    Some nm \<Rightarrow> nm
                  | None \<Rightarrow> if i = 0 then lit ''transfer_call'' else lit ''transfer_call_'' @ show_nat i),
                target_phone = phone,
                target_name = opt_filter (\<lambda>s. \<not> blank s) (str_field t ''target_name''),
                tt_description = map_option (\<lambda>s. interp ev s vars) (opt_filter (\<lambda>s. \<not> blank s) (str_field t ''description'')),
                tt_say = map_option (\<lambda>s. interp ev s vars) (opt_filter (\<lambda>s. \<not> blank s) (str_field t ''say'')),
                tt_mode = (if str_field t ''mode'' = Some (lit ''warm'') then Warm else Cold)\<rparr>)"

definition node_transfer_entries :: "json option \<Rightarrow> json list" where
  "node_transfer_entries data =
     (case data of
        None \<Rightarrow> []
      | Some d \<Rightarrow>
          (case jget d (lit ''transfer_targets'') of
             None \<Rightarrow> []
           | Some v \<Rightarrow> (case as_array v of None \<Rightarrow> [] | Some xs \<Rightarrow> xs)))"

definition escalation_note :: "transfer_target list \<Rightarrow> ustr" where
  "escalation_note ts =
     (if ts = [] then []
      else [10, 10] @ lit ''[Human escalation] If the caller asks to speak to a human, a person, an agent, a manager, or to be transferred: FIRST say one short sentence telling them you'' @ [39] @ lit ''re connecting them to a human now and to please hold, THEN call the `''
           @ join_with (lit ''` or `'') (map tt_name ts)
           @ lit ''` function. Never claim you are unable to transfer.'')"

definition current_prompt :: "env \<Rightarrow> engine \<Rightarrow> node_prompt option" where
  "current_prompt ev e =
     (let data = map_option nd_data (g_nodes (en_graph e) (en_current e))
      in do {
        outs \<leftarrow> outgoing (en_graph e) (en_current e);
        let targets = List.map_filter (\<lambda>(i, t). transfer_target_of ev (en_vars e) i t)
                        (enumerate 0 (node_transfer_entries data));
        Some \<lparr>np_node_id = en_current e,
              np_system_prompt = compose_prompt ev e data @ escalation_note targets,
              np_transitions = map (\<lambda>(i, ed). transition_of ev i ed) (enumerate 0 outs),
              np_transfer_targets = targets\<rparr>
      })"

section \<open>Acting\<close>

definition on_transition :: "env \<Rightarrow> engine \<Rightarrow> ustr \<Rightarrow> (engine \<times> action) option" where
  "on_transition ev e name = do {
     p \<leftarrow> current_prompt ev e;
     Some (case find (\<lambda>t. tr_name t = name) (np_transitions p) of
       None \<Rightarrow> (e, Stay)
     | Some t \<Rightarrow>
         (let e' = record_visit (e\<lparr>en_current := tr_target t\<rparr>)
          in (e', if is_finished e' then EndCall else Transition (tr_target t) None)))
   }"

definition on_transfer :: "env \<Rightarrow> engine \<Rightarrow> ustr \<Rightarrow> action option" where
  "on_transfer ev e name = do {
     p \<leftarrow> current_prompt ev e;
     Some (case find (\<lambda>t. tt_name t = name) (np_transfer_targets p) of
       None \<Rightarrow> Stay
     | Some t \<Rightarrow> Transfer (target_phone t) (target_name t) (tt_say t) (tt_mode t))
   }"

definition extraction_spec_of :: "(json \<Rightarrow> extraction_var option) \<Rightarrow> engine \<Rightarrow> extraction_spec option" where
  "extraction_spec_of decode_var e =
     (case g_nodes (en_graph e) (en_current e) of
        None \<Rightarrow> None
      | Some n \<Rightarrow>
          let enabled = (case jget (nd_data n) (lit ''extraction_enabled'') of
                None \<Rightarrow> False | Some v \<Rightarrow> as_bool v = Some True);
              variables = (case jget (nd_data n) (lit ''extraction_variables'') of
                None \<Rightarrow> []
              | Some v \<Rightarrow> (case as_array v of None \<Rightarrow> [] | Some xs \<Rightarrow> List.map_filter decode_var xs))
          in if \<not> enabled \<or> variables = [] then None
             else Some \<lparr>xs_prompt = opt_filter (\<lambda>s. \<not> blank s) (str_field (nd_data n) ''extraction_prompt''),
                        xs_variables = variables\<rparr>)"

definition string_array_field :: "engine \<Rightarrow> string \<Rightarrow> ustr list" where
  "string_array_field e key =
     (case g_nodes (en_graph e) (en_current e) of
        None \<Rightarrow> []
      | Some n \<Rightarrow>
          (case jget (nd_data n) (lit key) of
             None \<Rightarrow> []
           | Some v \<Rightarrow> (case as_array v of None \<Rightarrow> [] | Some xs \<Rightarrow> List.map_filter as_str xs)))"

definition tool_refs :: "engine \<Rightarrow> ustr list" where
  "tool_refs e = string_array_field e ''tool_uuids''"

definition document_refs :: "engine \<Rightarrow> ustr list" where
  "document_refs e = string_array_field e ''document_uuids''"

definition capture :: "engine \<Rightarrow> jmap \<Rightarrow> engine" where
  "capture e vs = e\<lparr>en_vars := foldl (\<lambda>m (k, v). jinsert k v m) (en_vars e) vs\<rparr>"

definition snapshot :: "engine \<Rightarrow> json" where
  "snapshot e =
     JObj [(lit ''current'', JStr (en_current e)), (lit ''runtime_options'', en_runtime_options e),
           (lit ''vars'', JObj (en_vars e))]"

definition graph_error_message :: "graph_error \<Rightarrow> ustr" where
  "graph_error_message err =
     (case err of
        NoStart \<Rightarrow> lit ''graph has no start node''
      | DanglingEdge i \<Rightarrow> lit ''edge references unknown node: '' @ i
      | Malformed m \<Rightarrow> lit ''malformed graph spec: '' @ m)"

definition validate_graph ::
  "(json \<Rightarrow> ustr + raw_graph) \<Rightarrow> ((ustr \<rightharpoonup> node) \<Rightarrow> ustr list) \<Rightarrow> json \<Rightarrow> engine_error + unit" where
  "validate_graph decode ord spec =
     (case parse_graph decode ord spec of Inl err \<Rightarrow> Inl (GraphErr err) | Inr g \<Rightarrow> Inr ())"

definition validate_detailed ::
  "(json \<Rightarrow> ustr + raw_graph) \<Rightarrow> ((ustr \<rightharpoonup> node) \<Rightarrow> ustr list) \<Rightarrow> json \<Rightarrow> validation_error list" where
  "validate_detailed decode ord spec =
     (case parse_graph decode ord spec of
        Inr g \<Rightarrow> cardinality_errors ord g
      | Inl err \<Rightarrow> [\<lparr>ve_kind = lit ''graph'', ve_id = None, ve_message = graph_error_message err\<rparr>])"

section \<open>The brain\<close>

record tool_decl =
  td_name :: ustr
  td_description :: ustr
  td_params :: json

datatype brain_action =
    BTransition ustr "tool_decl list" "ustr option"
  | BStay
  | BEnd "ustr option"

definition end_call_tool_name :: ustr where
  "end_call_tool_name = lit ''endCall''"

definition end_call_tool :: tool_decl where
  "end_call_tool =
     \<lparr>td_name = end_call_tool_name,
      td_description = lit ''Hang up ONLY when the caller clearly asks to end (e.g. '' @ [39] @ lit ''goodbye'' @ [39] @ lit '', '' @ [39] @ lit ''that'' @ [39] @ lit ''s all'' @ [39] @ lit ''). Do NOT end the call otherwise '' @ [8212] @ lit '' keep talking. Optional `disposition` label for the outcome (e.g. '' @ [39] @ lit ''completed'' @ [39] @ lit '').'',
      td_params = JObj [(lit ''properties'', JObj [(lit ''disposition'', JObj
          [(lit ''description'', JStr (lit ''Optional short outcome label for the call.'')),
           (lit ''type'', JStr (lit ''string''))])]),
        (lit ''type'', JStr (lit ''object''))]\<rparr>"

definition transition_tool :: "transition_spec \<Rightarrow> tool_decl" where
  "transition_tool t =
     \<lparr>td_name = tr_name t,
      td_description = (case opt_filter (\<lambda>d. \<not> blank d) (tr_description t) of
          Some d \<Rightarrow> d
        | None \<Rightarrow> lit ''Take the '' @ [39] @ tr_name t @ [39] @ lit '' transition.''),
      td_params = JObj [(lit ''properties'', JObj []), (lit ''type'', JStr (lit ''object''))]\<rparr>"

definition current_tools :: "env \<Rightarrow> engine \<Rightarrow> tool_decl list option" where
  "current_tools ev e = do {
     p \<leftarrow> current_prompt ev e;
     Some (map transition_tool (np_transitions p) @ [end_call_tool])
   }"

definition on_tool_call :: "env \<Rightarrow> engine \<Rightarrow> ustr \<Rightarrow> json \<Rightarrow> (engine \<times> brain_action) option" where
  "on_tool_call ev e name args =
     (if name = end_call_tool_name then
        Some (e, BEnd (case jget args (lit ''disposition'') of None \<Rightarrow> None | Some v \<Rightarrow> as_str v))
      else do {
        (e', act) \<leftarrow> on_transition ev e name;
        (case act of
           Transition _ say \<Rightarrow> do {
             p \<leftarrow> current_prompt ev e';
             ts \<leftarrow> current_tools ev e';
             Some (e', BTransition (np_system_prompt p) ts say)
           }
         | EndCall \<Rightarrow> Some (e', BEnd None)
         | Transfer _ _ _ _ \<Rightarrow> Some (e', BEnd (Some (lit ''transferred'')))
         | Stay \<Rightarrow> Some (e', BStay))
      })"

definition collected_vars :: "engine \<Rightarrow> json" where
  "collected_vars e =
     (let m = (case jget (snapshot e) (lit ''vars'') of Some (JObj m) \<Rightarrow> m | _ \<Rightarrow> [])
      in JObj (jinsert (lit ''nodes_visited'') (JArr (map JStr (en_visited e))) m))"

definition brain_from_config ::
  "(json \<Rightarrow> ustr + raw_graph) \<Rightarrow> ((ustr \<rightharpoonup> node) \<Rightarrow> ustr list) \<Rightarrow> json \<Rightarrow> (engine_error + engine) option" where
  "brain_from_config decode ord cfg =
     (let field = (\<lambda>k. case jget cfg (lit k) of None \<Rightarrow> JObj [] | Some v \<Rightarrow> v)
      in engine_new decode ord (field ''graph_spec'') (field ''runtime_options'')
           (case jget cfg (lit ''seed_vars'') of
              None \<Rightarrow> []
            | Some v \<Rightarrow> (case as_object v of None \<Rightarrow> [] | Some m \<Rightarrow> m)))"

section \<open>The engine stays on its graph\<close>

definition edge_rel :: "graph \<Rightarrow> ustr \<Rightarrow> ustr \<Rightarrow> bool" where
  "edge_rel g a b \<longleftrightarrow> (\<exists>e\<in>set (g_edges g). ed_source e = a \<and> ed_target e = b)"

definition engine_ok :: "engine \<Rightarrow> bool" where
  "engine_ok e \<longleftrightarrow>
     graph_ok (en_graph e) \<and> (edge_rel (en_graph e))\<^sup>*\<^sup>* (start_id (en_graph e)) (en_current e) \<and>
     distinct (en_visited e) \<and> node_name (en_graph e) (en_current e) \<in> set (en_visited e)"

lemma reachable_node:
  assumes "graph_ok g" and "(edge_rel g)\<^sup>*\<^sup>* (start_id g) i"
  shows "i \<in> dom (g_nodes g)"
  using assms(2) by (induction rule: rtranclp_induct) (use assms(1) in \<open>auto simp: graph_ok_def edge_rel_def\<close>)

lemma record_visit_fields [simp]:
  "en_graph (record_visit e) = en_graph e" "en_current (record_visit e) = en_current e"
  "en_vars (record_visit e) = en_vars e" "en_runtime_options (record_visit e) = en_runtime_options e"
  by (simp_all add: record_visit_def Let_def)

lemma record_visit_ok:
  "distinct (en_visited e) \<Longrightarrow>
     distinct (en_visited (record_visit e)) \<and>
     node_name (en_graph e) (en_current e) \<in> set (en_visited (record_visit e))"
  by (simp add: record_visit_def Let_def)

lemma record_visit_same: "engine_ok e \<Longrightarrow> record_visit e = e"
  by (simp add: engine_ok_def record_visit_def Let_def)

text \<open>The names in a list at their first occurrences: what a list of visited nodes should be.\<close>

definition first_visits :: "'a list \<Rightarrow> 'a list" where
  "first_visits xs = rev (remdups (rev xs))"

lemma first_visits_simps [simp]:
  "first_visits [] = []"
  "first_visits (xs @ [x]) = (if x \<in> set xs then first_visits xs else first_visits xs @ [x])"
  "set (first_visits xs) = set xs"
  by (simp_all add: first_visits_def)

lemma first_visits_distinct: "distinct (first_visits xs)"
  by (simp add: first_visits_def)

definition visit :: "ustr list \<Rightarrow> ustr \<Rightarrow> ustr list" where
  "visit xs x = (if x \<in> set xs then xs else xs @ [x])"

lemma record_visit_visits: "en_visited (record_visit e) = visit (en_visited e) (node_name (en_graph e) (en_current e))"
  by (simp add: record_visit_def visit_def Let_def)

lemma engine_ok_visit: "engine_ok e \<Longrightarrow> visit (en_visited e) (node_name (en_graph e) (en_current e)) = en_visited e"
  by (simp add: engine_ok_def visit_def)

lemma engine_new_ok:
  assumes "hash_order ord" and "parse_graph decode ord spec = Inr g"
  shows "\<exists>e. engine_new decode ord spec opts vars = Some (Inr e) \<and> engine_ok e \<and> en_graph e = g \<and> en_vars e = vars \<and>
    en_visited e = [node_name g (en_current e)]"
proof -
  have g: "graph_ok g" by (rule parse_graph_ok [OF assms])
  let ?e0 = "\<lparr>en_graph = g, en_current = start_id g, en_vars = vars, en_runtime_options = opts, en_visited = []\<rparr>"
  have out: "outgoing g (start_id g) = Some (filter (\<lambda>e. ed_source e = start_id g) (g_edges g))"
    using g by (simp add: graph_ok_def)
  have "\<exists>e. advance_through_start ?e0 = Some e \<and> en_graph e = g \<and> en_vars e = vars \<and> en_visited e = [] \<and>
      (edge_rel g)\<^sup>*\<^sup>* (start_id g) (en_current e)"
  proof (cases "filter (\<lambda>e. ed_source e = start_id g) (g_edges g)")
    case Nil
    then show ?thesis by (auto simp: advance_through_start_def out split: option.split)
  next
    case (Cons ed eds)
    then have "ed \<in> set (filter (\<lambda>e. ed_source e = start_id g) (g_edges g))" by simp
    then have "edge_rel g (start_id g) (ed_target ed)" by (auto simp: edge_rel_def)
    then show ?thesis
      using Cons by (auto simp: advance_through_start_def out split: option.split)
  qed
  then obtain e where "advance_through_start ?e0 = Some e" "en_graph e = g" "en_vars e = vars" "en_visited e = []"
    "(edge_rel g)\<^sup>*\<^sup>* (start_id g) (en_current e)" by blast
  then show ?thesis
    using g record_visit_ok [of e] assms(2) by (auto simp: engine_new_def engine_ok_def record_visit_visits visit_def)
qed

lemma current_prompt_ok:
  assumes "graph_ok (en_graph e)"
  shows "\<exists>p. current_prompt ev e = Some p \<and>
    np_transitions p = map (\<lambda>(i, ed). transition_of ev i ed)
      (enumerate 0 (filter (\<lambda>ed. ed_source ed = en_current e) (g_edges (en_graph e)))) \<and>
    np_transfer_targets p = List.map_filter (\<lambda>(i, t). transfer_target_of ev (en_vars e) i t)
      (enumerate 0 (node_transfer_entries (map_option nd_data (g_nodes (en_graph e) (en_current e)))))"
  using assms by (simp add: current_prompt_def graph_ok_def Let_def)

lemma on_transition_ok:
  assumes "engine_ok e"
  shows "\<exists>e' act. on_transition ev e name = Some (e', act) \<and> engine_ok e' \<and> en_graph e' = en_graph e \<and>
    en_vars e' = en_vars e \<and> en_visited e' = visit (en_visited e) (node_name (en_graph e') (en_current e')) \<and>
    (if act = Stay then e' = e
     else edge_rel (en_graph e) (en_current e) (en_current e') \<and>
       act = (if is_finished e' then EndCall else Transition (en_current e') None))"
proof -
  let ?g = "en_graph e"
  have g: "graph_ok ?g" using assms by (simp add: engine_ok_def)
  obtain p where p: "current_prompt ev e = Some p" and tr: "np_transitions p = map (\<lambda>(i, ed). transition_of ev i ed)
      (enumerate 0 (filter (\<lambda>ed. ed_source ed = en_current e) (g_edges ?g)))"
    using current_prompt_ok [OF g] by blast
  show ?thesis
  proof (cases "find (\<lambda>t. tr_name t = name) (np_transitions p)")
    case None
    then show ?thesis using p assms by (simp add: on_transition_def engine_ok_visit)
  next
    case (Some t)
    then have "t \<in> set (np_transitions p)" by (auto simp: find_Some_iff)
    then obtain ed where ed: "ed \<in> set (g_edges ?g)" "ed_source ed = en_current e" "tr_target t = ed_target ed"
      unfolding tr by (auto simp: transition_of_def dest: in_set_enumerate_eq [THEN iffD1] nth_mem
          intro: that elim!: in_set_zipE simp: enumerate_eq_zip)
    then have step: "edge_rel ?g (en_current e) (tr_target t)" by (auto simp: edge_rel_def)
    let ?e = "record_visit (e\<lparr>en_current := tr_target t\<rparr>)"
    have "engine_ok ?e"
      using assms step record_visit_ok [of "e\<lparr>en_current := tr_target t\<rparr>"]
      by (auto simp: engine_ok_def)
    then show ?thesis using p Some step by (auto simp: on_transition_def Let_def record_visit_visits)
  qed
qed

lemma on_tool_call_ok:
  assumes "engine_ok e"
  shows "\<exists>e' act. on_tool_call ev e name args = Some (e', act) \<and> engine_ok e' \<and> en_graph e' = en_graph e \<and>
    en_visited e' = visit (en_visited e) (node_name (en_graph e') (en_current e')) \<and>
    (en_current e' = en_current e \<or> edge_rel (en_graph e) (en_current e) (en_current e'))"
proof (cases "name = end_call_tool_name")
  case True
  then show ?thesis using assms by (simp add: on_tool_call_def engine_ok_visit)
next
  case False
  obtain e' act where t: "on_transition ev e name = Some (e', act)" "engine_ok e'" "en_graph e' = en_graph e"
    "en_visited e' = visit (en_visited e) (node_name (en_graph e') (en_current e'))"
    "if act = Stay then e' = e
     else edge_rel (en_graph e) (en_current e) (en_current e') \<and>
       act = (if is_finished e' then EndCall else Transition (en_current e') None)"
    using on_transition_ok [OF assms] by blast
  obtain p where "current_prompt ev e' = Some p"
    using current_prompt_ok [of e'] t(2) by (auto simp: engine_ok_def)
  then show ?thesis
    using t False by (auto simp: on_tool_call_def current_tools_def split: if_splits)
qed

fun brain_run :: "env \<Rightarrow> engine \<Rightarrow> (ustr \<times> json) list \<Rightarrow> engine option" where
  "brain_run ev e [] = Some e"
| "brain_run ev e ((name, args) # cs) = do { (e', _) \<leftarrow> on_tool_call ev e name args; brain_run ev e' cs }"

lemma brain_run_ok:
  "engine_ok e \<Longrightarrow> \<exists>e'. brain_run ev e cs = Some e' \<and> engine_ok e' \<and> en_graph e' = en_graph e"
proof (induction ev e cs rule: brain_run.induct)
  case (2 ev e name args cs)
  obtain e1 act where s: "on_tool_call ev e name args = Some (e1, act)" "engine_ok e1" "en_graph e1 = en_graph e"
    using on_tool_call_ok [OF "2.prems"] by blast
  then show ?case using "2.IH" [OF s(1)] by simp
qed simp

lemma brain_run_snoc:
  "brain_run ev e (cs @ [(name, args)]) =
     do { e1 \<leftarrow> brain_run ev e cs; (e2, _) \<leftarrow> on_tool_call ev e1 name args; Some e2 }"
proof (induction ev e cs rule: brain_run.induct)
  case (2 ev e nm as cs)
  then show ?case by (cases "on_tool_call ev e nm as") auto
qed (simp add: case_prod_unfold)

text \<open>The names of the nodes that were active: at the start and after each call.\<close>

definition active_names :: "env \<Rightarrow> engine \<Rightarrow> (ustr \<times> json) list \<Rightarrow> ustr list" where
  "active_names ev e cs =
     map (\<lambda>k. node_name (en_graph e) (en_current (the (brain_run ev e (take k cs))))) [0..<Suc (length cs)]"

lemma active_names_snoc:
  "active_names ev e (cs @ [c]) =
     active_names ev e cs @ [node_name (en_graph e) (en_current (the (brain_run ev e (cs @ [c]))))]"
  by (simp add: active_names_def)

lemma brain_run_visits:
  assumes "engine_ok e" and "en_visited e = [node_name (en_graph e) (en_current e)]"
  shows "en_visited (the (brain_run ev e cs)) = first_visits (active_names ev e cs)"
proof (induction cs rule: rev_induct)
  case Nil
  show ?case using assms(2) by (simp add: active_names_def first_visits_def)
next
  case (snoc c cs)
  obtain name args where c: "c = (name, args)" by (cases c)
  obtain e1 where e1: "brain_run ev e cs = Some e1" "engine_ok e1" "en_graph e1 = en_graph e"
    using brain_run_ok [OF assms(1)] by blast
  obtain e2 act where e2: "on_tool_call ev e1 name args = Some (e2, act)" "en_graph e2 = en_graph e1"
    "en_visited e2 = visit (en_visited e1) (node_name (en_graph e2) (en_current e2))"
    using on_tool_call_ok [OF e1(2)] by blast
  have r: "brain_run ev e (cs @ [c]) = Some e2" using e1(1) e2(1) by (simp add: c brain_run_snoc)
  have "set (en_visited e1) = set (active_names ev e cs)" using snoc e1(1) by simp
  then show ?case using snoc e1 e2 unfolding active_names_snoc r by (simp add: visit_def)
qed

section \<open>Names\<close>

lemma slugify_no_upper: "c \<in> set (slugify ev l) \<Longrightarrow> \<not> (65 \<le> c \<and> c \<le> 90)"
  by (auto simp: slugify_def to_ascii_lowercase_def split: if_splits)

lemma transition_not_end_call: "tr_name (transition_of ev i ed) \<noteq> end_call_tool_name"
proof -
  have "67 \<notin> set (tr_name (transition_of ev i ed))"
    using slugify_no_upper [of 67 ev] show_nat_digits [of 67 i]
    by (auto simp: transition_of_def split: option.split)
  moreover have "67 \<in> set end_call_tool_name" by (simp add: end_call_tool_name_def)
  ultimately show ?thesis by metis
qed

lemma transfer_target_facts:
  assumes "transfer_target_of ev vars i t = Some x"
  shows "\<exists>raw. str_field t ''target_phone'' = Some raw \<and> target_phone x = trim raw \<and> trim raw \<noteq> []"
    and "tt_name x =
      (case opt_filter (\<lambda>s. s \<noteq> []) (map_option (slugify ev) (str_field t ''name'')) of
         Some nm \<Rightarrow> nm
       | None \<Rightarrow> if i = 0 then lit ''transfer_call'' else lit ''transfer_call_'' @ show_nat i)"
proof -
  obtain raw where "str_field t ''target_phone'' = Some raw" "trim raw \<noteq> []"
    using assms by (auto simp: transfer_target_of_def opt_filter_def split: option.splits if_splits)
  then show "\<exists>raw. str_field t ''target_phone'' = Some raw \<and> target_phone x = trim raw \<and> trim raw \<noteq> []"
    and "tt_name x =
      (case opt_filter (\<lambda>s. s \<noteq> []) (map_option (slugify ev) (str_field t ''name'')) of
         Some nm \<Rightarrow> nm
       | None \<Rightarrow> if i = 0 then lit ''transfer_call'' else lit ''transfer_call_'' @ show_nat i)"
    using assms by (auto simp: transfer_target_of_def opt_filter_def)
qed

lemma transfer_not_end_call:
  assumes "transfer_target_of ev vars i t = Some x"
  shows "tt_name x \<noteq> end_call_tool_name"
proof -
  have "67 \<notin> set (tt_name x)"
  proof (cases "opt_filter (\<lambda>s. s \<noteq> []) (map_option (slugify ev) (str_field t ''name''))")
    case None
    then show ?thesis
      using show_nat_digits [of 67 i] unfolding transfer_target_facts(2) [OF assms] by auto
  next
    case (Some nm)
    then obtain l where "nm = slugify ev l" by (auto simp: opt_filter_def split: option.splits if_splits)
    then show ?thesis
      using Some slugify_no_upper [of 67 ev l] unfolding transfer_target_facts(2) [OF assms] by auto
  qed
  moreover have "67 \<in> set end_call_tool_name" by (simp add: end_call_tool_name_def)
  ultimately show ?thesis by metis
qed

text \<open>The variables only reach the spoken and descriptive texts of a transfer target.\<close>

lemma transfer_target_vars:
  "map_option (\<lambda>x. (tt_name x, target_phone x, target_name x, tt_mode x)) (transfer_target_of ev vars i t) =
   map_option (\<lambda>x. (tt_name x, target_phone x, target_name x, tt_mode x)) (transfer_target_of ev vars' i t)"
  by (simp add: transfer_target_of_def split: option.split)

definition pinned :: "transfer_target \<Rightarrow> ustr \<times> ustr \<times> ustr option \<times> transfer_mode" where
  "pinned x = (tt_name x, target_phone x, target_name x, tt_mode x)"

lemma transfer_targets_vars:
  "map pinned (List.map_filter (\<lambda>(i, t). transfer_target_of ev vars i t) xs) =
   map pinned (List.map_filter (\<lambda>(i, t). transfer_target_of ev vars' i t) xs)"
proof (induction xs)
  case (Cons a xs)
  obtain i t where "a = (i, t)" by (cases a)
  then show ?case
    using Cons transfer_target_vars [of ev vars i t vars']
    by (cases "transfer_target_of ev vars i t"; cases "transfer_target_of ev vars' i t")
      (simp_all add: List.map_filter_simps pinned_def)
qed (simp add: List.map_filter_simps)

lemma find_pinned:
  "map pinned xs = map pinned ys \<Longrightarrow>
     map_option pinned (find (\<lambda>x. tt_name x = nm) xs) = map_option pinned (find (\<lambda>x. tt_name x = nm) ys)"
proof (induction xs arbitrary: ys)
  case (Cons x xs)
  then obtain y ys' where "ys = y # ys'" "pinned x = pinned y" "map pinned xs = map pinned ys'" by (cases ys) auto
  moreover from this have "tt_name x = tt_name y" by (simp add: pinned_def)
  ultimately show ?case using Cons.IH [of ys'] by (cases "tt_name y = nm") simp_all
qed simp

section \<open>A worked agent\<close>

definition demo_env :: env where
  "demo_env = \<lparr>ev_clock = demo_clock, ev_render = (\<lambda>_. []), ev_alnum = (\<lambda>_. False)\<rparr>"

definition demo_target :: json where
  "demo_target = JObj [(lit ''target_phone'', JStr (lit '' +65 1234 ''))]"

definition demo_engine :: engine where
  "demo_engine =
     \<lparr>en_graph = demo_graph\<lparr>g_nodes := (g_nodes demo_graph)([2] \<mapsto>
        \<lparr>nd_id = [2], nd_kind = NAgent, nd_data = JObj [(lit ''transfer_targets'', JArr [demo_target])]\<rparr>)\<rparr>,
      en_current = [2], en_vars = [], en_runtime_options = JNull, en_visited = [[2]]\<rparr>"

lemma demo_engine_graph: "graph_ok (en_graph demo_engine)"
proof -
  let ?g = "en_graph demo_engine"
  have "outgoing ?g i = Some (filter (\<lambda>e. ed_source e = i) (g_edges ?g))" for i
    by (cases "i = [1]"; cases "i = [2]") (auto simp: demo_engine_def demo_graph_def outgoing_def demo_raw_def)
  then show ?thesis
    by (auto simp: graph_ok_def demo_engine_def demo_graph_def demo_raw_def collect_nodes_def split: if_splits)
qed

lemma demo_engine_prompt:
  "current_prompt demo_env demo_engine =
     Some (the (current_prompt demo_env demo_engine)) \<and>
   map pinned (np_transfer_targets (the (current_prompt demo_env demo_engine))) =
     [(lit ''transfer_call'', lit ''+65 1234'', None, Cold)]"
proof -
  obtain p where p: "current_prompt demo_env demo_engine = Some p"
    and tt: "np_transfer_targets p = List.map_filter (\<lambda>(i, t). transfer_target_of demo_env [] i t) [(0, demo_target)]"
    using current_prompt_ok [OF demo_engine_graph, of demo_env]
    by (auto simp: demo_engine_def node_transfer_entries_def jget_def as_array_def)
  have "map pinned (List.map_filter (\<lambda>(i, t). transfer_target_of demo_env [] i t) [(0, demo_target)]) =
      [(lit ''transfer_call'', lit ''+65 1234'', None, Cold)]"
    by (simp add: List.map_filter_simps transfer_target_of_def demo_target_def str_field_def jget_def as_str_def
        opt_filter_def trim_by_def is_whitespace_def pinned_def)
  then show ?thesis using p tt by simp
qed

lemma demo_engine_target:
  obtains p x where "current_prompt demo_env demo_engine = Some p" and "np_transfer_targets p = [x]"
    and "tt_name x = lit ''transfer_call''" and "target_phone x = lit ''+65 1234''"
    and "target_name x = None" and "tt_mode x = Cold" and "tr_name ` set (np_transitions p) = {lit ''bye''}"
proof -
  obtain p where p: "current_prompt demo_env demo_engine = Some p"
    and tr: "np_transitions p = map (\<lambda>(i, ed). transition_of demo_env i ed)
      (enumerate 0 (filter (\<lambda>ed. ed_source ed = en_current demo_engine) (g_edges (en_graph demo_engine))))"
    using current_prompt_ok [OF demo_engine_graph, of demo_env] by blast
  have "tr_name ` set (np_transitions p) = {lit ''bye''}"
    by (simp add: tr demo_engine_def demo_graph_def demo_raw_def transition_of_def slugify_def
        is_alphanumeric_def to_ascii_lowercase_def)
  then show ?thesis using that p demo_engine_prompt by (auto simp: pinned_def)
qed

lemma demo_engine_transfer:
  "\<exists>say. on_transfer demo_env demo_engine (lit ''transfer_call'') =
     Some (Transfer (lit ''+65 1234'') None say Cold)"
  by (rule demo_engine_target) (simp add: on_transfer_def)

section \<open>Properties\<close>

text \<open>C16. Whatever tools the model calls, an agent built from a graph that parses never panics and stays on
  its graph: the active node exists and is reachable from the start node along edges of the graph. The list of visited
  nodes holds the names of the nodes that were active, at the start and after each call, in the order of their first
  visits, and no other.\<close>

theorem agent_stays_on_graph:
  assumes "hash_order ord" and "parse_graph decode ord spec = Inr g"
  shows "\<exists>e. engine_new decode ord spec opts vars = Some (Inr e) \<and>
    (\<forall>calls. \<exists>e'. brain_run ev e calls = Some e' \<and>
       en_current e' \<in> dom (g_nodes g) \<and> (edge_rel g)\<^sup>*\<^sup>* (start_id g) (en_current e') \<and>
       en_visited e' = first_visits (map (\<lambda>k. node_name g (en_current (the (brain_run ev e (take k calls))))) [0..<Suc (length calls)]))"
proof -
  obtain e where e: "engine_new decode ord spec opts vars = Some (Inr e)" "engine_ok e" "en_graph e = g"
    and v: "en_visited e = [node_name (en_graph e) (en_current e)]"
    using engine_new_ok [OF assms] by blast
  have "\<exists>e'. brain_run ev e calls = Some e' \<and>
       en_current e' \<in> dom (g_nodes g) \<and> (edge_rel g)\<^sup>*\<^sup>* (start_id g) (en_current e') \<and>
       en_visited e' = first_visits (map (\<lambda>k. node_name g (en_current (the (brain_run ev e (take k calls))))) [0..<Suc (length calls)])" for calls
    using brain_run_ok [OF e(2), of ev calls] brain_run_visits [OF e(2) v, of ev calls] e(3) reachable_node [of g]
    by (auto simp: engine_ok_def active_names_def)
  then show ?thesis using e(1) by blast
qed

theorem agent_stays_on_graph_witness:
  "\<exists>e. engine_new (\<lambda>_. Inr demo_raw) sorted_order JNull JNull [] = Some (Inr e) \<and>
    (\<exists>e'. brain_run demo_env e [(lit ''bye'', JNull)] = Some e' \<and> en_current e' \<in> dom (g_nodes demo_graph) \<and>
       en_visited e' = first_visits [node_name demo_graph (en_current e), node_name demo_graph (en_current e')])"
proof -
  obtain e where e: "engine_new (\<lambda>_. Inr demo_raw) sorted_order JNull JNull [] = Some (Inr e)"
    and a: "\<And>calls. \<exists>e'. brain_run demo_env e calls = Some e' \<and> en_current e' \<in> dom (g_nodes demo_graph) \<and>
       en_visited e' = first_visits (map (\<lambda>k. node_name demo_graph (en_current (the (brain_run demo_env e (take k calls))))) [0..<Suc (length calls)])"
    using agent_stays_on_graph [OF sorted_order_ok demo_parse, of JNull "[]" demo_env] by blast
  obtain e' where "brain_run demo_env e [(lit ''bye'', JNull)] = Some e'" "en_current e' \<in> dom (g_nodes demo_graph)"
    "en_visited e' = first_visits (map (\<lambda>k. node_name demo_graph (en_current (the (brain_run demo_env e (take k [(lit ''bye'', JNull)]))))) [0..<Suc (length [(lit ''bye'', JNull)])])"
    using a [of "[(lit ''bye'', JNull)]"] by blast
  then show ?thesis using e by (simp del: brain_run.simps(2))
qed

text \<open>C17. The model never chooses where a call is transferred: a transfer dials the trimmed phone number of
  an entry the operator configured on the active node, and under the same function name the number, the name
  and the mode are the same whatever the variables of the conversation hold.\<close>

theorem transfer_number_pinned:
  assumes "on_transfer ev e name = Some (Transfer phone nm say mode)"
  shows "(\<exists>t\<in>set (node_transfer_entries (map_option nd_data (g_nodes (en_graph e) (en_current e)))).
      \<exists>raw. str_field t ''target_phone'' = Some raw \<and> phone = trim raw \<and> phone \<noteq> []) \<and>
    (\<forall>vars. \<exists>say'. on_transfer ev (e\<lparr>en_vars := vars\<rparr>) name = Some (Transfer phone nm say' mode))"
proof -
  let ?ts = "enumerate 0 (node_transfer_entries (map_option nd_data (g_nodes (en_graph e) (en_current e))))"
  let ?targets = "\<lambda>vars. List.map_filter (\<lambda>(i, t). transfer_target_of ev vars i t) ?ts"
  have tr: "on_transfer ev (e\<lparr>en_vars := vars\<rparr>) name =
      map_option (\<lambda>_. case find (\<lambda>t. tt_name t = name) (?targets vars) of None \<Rightarrow> Stay
        | Some t \<Rightarrow> Transfer (target_phone t) (target_name t) (tt_say t) (tt_mode t))
        (outgoing (en_graph e) (en_current e))" for vars
    by (cases "outgoing (en_graph e) (en_current e)") (simp_all add: on_transfer_def current_prompt_def Let_def)
  obtain outs x where o: "outgoing (en_graph e) (en_current e) = Some outs"
    and x: "find (\<lambda>t. tt_name t = name) (?targets (en_vars e)) = Some x"
    and eq: "phone = target_phone x" "nm = target_name x" "mode = tt_mode x"
    using assms tr [of "en_vars e"]
    by (cases "outgoing (en_graph e) (en_current e)";
        cases "find (\<lambda>t. tt_name t = name) (?targets (en_vars e))") simp_all
  have "x \<in> set (?targets (en_vars e))" using x by (auto simp: find_Some_iff)
  then obtain i t where t: "(i, t) \<in> set ?ts" "transfer_target_of ev (en_vars e) i t = Some x"
    by (auto simp: List.map_filter_def)
  have "t \<in> set (node_transfer_entries (map_option nd_data (g_nodes (en_graph e) (en_current e))))"
    using t(1) by (simp add: enumerate_eq_zip) (erule in_set_zipE)
  moreover have "\<exists>say'. on_transfer ev (e\<lparr>en_vars := vars\<rparr>) name = Some (Transfer phone nm say' mode)" for vars
  proof -
    have "map_option pinned (find (\<lambda>t. tt_name t = name) (?targets vars)) = Some (pinned x)"
      using find_pinned [OF transfer_targets_vars [of ev vars ?ts "en_vars e"], of name] x by simp
    then show ?thesis using tr [of vars] o eq by (auto simp: pinned_def)
  qed
  ultimately show ?thesis using transfer_target_facts(1) [OF t(2)] eq(1) by metis
qed

theorem transfer_number_pinned_witness:
  "\<exists>say. on_transfer demo_env demo_engine (lit ''transfer_call'') = Some (Transfer (lit ''+65 1234'') None say Cold) \<and>
    (\<exists>say'. on_transfer demo_env (demo_engine\<lparr>en_vars := [(lit ''x'', JNull)]\<rparr>) (lit ''transfer_call'') =
       Some (Transfer (lit ''+65 1234'') None say' Cold))"
proof -
  obtain say where "on_transfer demo_env demo_engine (lit ''transfer_call'') =
      Some (Transfer (lit ''+65 1234'') None say Cold)"
    using demo_engine_transfer by blast
  from transfer_number_pinned [OF this] this show ?thesis by blast
qed

text \<open>The brain offers no transfer: although a node with transfer targets tells the model to call them,
  their names are not among the tools the brain declares, and calling one that is not also the name of a
  transition does nothing.\<close>

lemma brain_ignores_transfers:
  assumes "current_prompt ev e = Some p" and "x \<in> set (np_transfer_targets p)"
    and "tt_name x \<notin> tr_name ` set (np_transitions p)"
  shows "on_tool_call ev e (tt_name x) args = Some (e, BStay) \<and>
    (\<exists>ts. current_tools ev e = Some ts \<and> tt_name x \<notin> td_name ` set ts)"
proof -
  obtain vars i t where "transfer_target_of ev vars i t = Some x"
    using assms(1,2) by (auto simp: current_prompt_def Let_def List.map_filter_def split: Option.bind_splits)
  then have n: "tt_name x \<noteq> end_call_tool_name" by (rule transfer_not_end_call)
  have "find (\<lambda>t. tr_name t = tt_name x) (np_transitions p) = None"
    using assms(3) by (force simp: find_None_iff)
  then have "on_tool_call ev e (tt_name x) args = Some (e, BStay)"
    using n assms(1) by (simp add: on_tool_call_def on_transition_def)
  moreover have "tt_name x \<notin> td_name ` set (map transition_tool (np_transitions p) @ [end_call_tool])"
    using n assms(3) by (auto simp: transition_tool_def end_call_tool_def)
  ultimately show ?thesis using assms(1) by (simp add: current_tools_def)
qed

end
