(* ===== verification/Frame_Taps.thy ===== *)
theory Frame_Taps
  imports Proc_Runtime "HOL-Library.Monad_Syntax"
begin

text \<open>
  What the conversation processors of \<^verbatim>\<open>flowcat-core/src/agent/\<close> have in common: each watches a few kinds of
  frame and forwards every other one unchanged, and some fall silent once they have decided. The
  contracts are the locales \<open>frame_tap\<close> and \<open>one_shot_tap\<close>; their lemmas hold for every processor that
  interprets them.

  A step of a processor takes the link, its state, an input (an envelope, with a clock reading where the
  processor reads one) and the frame id counter; \<open>None\<close> is a panic.
\<close>

section \<open>Running a processor\<close>

type_synonym ('s, 'i, 'j) tap_step = "link \<Rightarrow> 's \<Rightarrow> 'i \<Rightarrow> u64 \<Rightarrow> ('s \<times> 'j eff list \<times> u64) option"

fun run_frames :: "('s, 'i, 'j) tap_step \<Rightarrow> link \<Rightarrow> 's \<Rightarrow> 'i list \<Rightarrow> u64 \<Rightarrow> ('s \<times> 'j eff list \<times> u64) option" where
  "run_frames proc l s [] n = Some (s, [], n)"
| "run_frames proc l s (x # xs) n = do {
     (s1, es1, n1) \<leftarrow> proc l s x n;
     (s2, es2, n2) \<leftarrow> run_frames proc l s1 xs n1;
     Some (s2, es1 @ es2, n2)
   }"

lemma run_frames_append:
  "run_frames proc l s (xs @ ys) n = do {
     (s1, es1, n1) \<leftarrow> run_frames proc l s xs n;
     (s2, es2, n2) \<leftarrow> run_frames proc l s1 ys n1;
     Some (s2, es1 @ es2, n2)
   }"
  by (induction xs arbitrary: s n) (auto split: Option.bind_splits)

lemma run_frames_total:
  assumes "\<And>s x n. \<exists>s' es n'. proc l s x n = Some (s', es, n')"
  shows "\<exists>s' es n'. run_frames proc l s xs n = Some (s', es, n')"
proof (induction xs arbitrary: s n)
  case (Cons x xs)
  obtain s1 es1 n1 where 1: "proc l s x n = Some (s1, es1, n1)" using assms by blast
  obtain s2 es2 n2 where "run_frames proc l s1 xs n1 = Some (s2, es2, n2)" using Cons by blast
  then show ?case by (simp add: 1)
qed simp

text \<open>The frames a list of effects sends, in order.\<close>

fun sent_frames :: "'j eff list \<Rightarrow> 'j frame list" where
  "sent_frames [] = []"
| "sent_frames (Send tx e # es) = env_frame e # sent_frames es"
| "sent_frames (_ # es) = sent_frames es"

lemma sent_frames_append [simp]: "sent_frames (xs @ ys) = sent_frames xs @ sent_frames ys"
  by (induction xs rule: sent_frames.induct) simp_all

lemma sent_frames_concat: "sent_frames (concat xss) = concat (map sent_frames xss)"
  by (induction xss) simp_all

lemma sent_frames_push [simp]:
  "sent_frames (push l m f d) =
     (if (case d of Downstream \<Rightarrow> l_next l | Upstream \<Rightarrow> l_prev l) = None then [] else [f])"
  by (simp add: push_def Let_def split: option.split)

lemma sent_frames_push_down [simp]:
  "sent_frames (fst (push_down l n f)) = (if l_next l = None then [] else [f])"
  by (simp add: push_down_def Let_def case_prod_unfold)

lemma sent_frames_push_up [simp]: "sent_frames (fst (push_up l n f)) = (if l_prev l = None then [] else [f])"
  by (simp add: push_up_def Let_def case_prod_unfold)

text \<open>An input travelling downstream on a link that leads somewhere is forwarded as the one frame it is.\<close>

definition downstream :: "('i \<Rightarrow> 'j envelope) \<Rightarrow> 'i list \<Rightarrow> bool" where
  "downstream env_of xs \<longleftrightarrow> (\<forall>x\<in>set xs. env_direction (env_of x) = Downstream)"

lemma downstream_simps [simp]:
  "downstream env_of []"
  "downstream env_of (x # xs) \<longleftrightarrow> env_direction (env_of x) = Downstream \<and> downstream env_of xs"
  by (auto simp: downstream_def)

section \<open>The contracts\<close>

locale frame_tap =
  fixes proc :: "('s, 'i, 'j) tap_step"
    and env_of :: "'i \<Rightarrow> 'j envelope"
    and watched :: "'j frame \<Rightarrow> bool"
  assumes unwatched: "\<not> watched (env_frame (env_of x)) \<Longrightarrow> proc l s x n = Some (s, push_env l (env_of x), n)"
begin

lemma run_unwatched:
  "\<forall>x\<in>set xs. \<not> watched (env_frame (env_of x)) \<Longrightarrow>
     run_frames proc l s xs n = Some (s, concat (map (\<lambda>x. push_env l (env_of x)) xs), n)"
  by (induction xs) (simp_all add: unwatched)

end

text \<open>A tap that decides once and is transparent from then on.\<close>

locale one_shot_tap = frame_tap +
  fixes over :: "'s \<Rightarrow> bool"
  assumes transparent: "over s \<Longrightarrow> proc l s x n = Some (s, push_env l (env_of x), n)"
begin

lemma run_over: "over s \<Longrightarrow> run_frames proc l s xs n = Some (s, concat (map (\<lambda>x. push_env l (env_of x)) xs), n)"
  by (induction xs) (simp_all add: transparent)

lemma run_over_sends:
  assumes "over s" and "l_next l \<noteq> None" and "downstream env_of xs"
  shows "run_frames proc l s xs n = Some (s, concat (map (\<lambda>x. push_env l (env_of x)) xs), n) \<and>
    sent_frames (concat (map (\<lambda>x. push_env l (env_of x)) xs)) = map (\<lambda>x. env_frame (env_of x)) xs"
  using run_over [OF assms(1)] assms(2,3) by (induction xs) (simp_all add: transparent assms(1))

end

section \<open>Invariants of a processor's task\<close>

text \<open>A state predicate that every hook of a processor keeps, \<open>process_frame\<close> on the envelopes that can reach it, holds
  throughout the run of its task.\<close>

locale task_invariant =
  fixes p :: "('s, 'j) processor" and holds :: "'s \<Rightarrow> bool" and expected :: "'j envelope \<Rightarrow> bool"
  assumes keep_start: "holds s \<Longrightarrow> holds (fst (p_start p s params))"
    and keep_interruption: "holds s \<Longrightarrow> holds (fst (p_on_interruption p s))"
    and keep_stop: "holds s \<Longrightarrow> holds (fst (p_stop p s reason))"
    and keep_process: "holds s \<Longrightarrow> expected env \<Longrightarrow> \<not> lifecycle env \<Longrightarrow> holds (fst (p_process p l s env n))"
begin

lemma keep_terminal: "holds s \<Longrightarrow> holds (fst (handle_terminal p l s env n))"
  using keep_stop by (simp add: handle_terminal_def Let_def case_prod_unfold)

lemma keep_env:
  assumes "holds s" and "expected env"
  shows "holds (fst (handle_env p l s r env n))"
proof (cases "lifecycle env")
  case False
  then show ?thesis using keep_process [OF assms] by (simp add: handle_env_other handle_process_def Let_def case_prod_unfold)
next
  case True
  then consider params where "env_frame env = Start params" | "env_frame env = Interruption"
    | "is_terminal (env_frame env)" "env_direction env = Downstream"
    by (cases "env_frame env") (auto simp: lifecycle_def)
  then show ?thesis
  proof cases
    case 1
    then show ?thesis using keep_start [OF assms(1)] by (simp add: handle_env_def handle_start_def Let_def case_prod_unfold)
  next
    case 2
    then show ?thesis using keep_interruption [OF assms(1)] keep_terminal
      by (simp add: handle_env_def handle_interruption_def Let_def case_prod_unfold split: option.split)
  next
    case 3
    then show ?thesis using keep_terminal [OF assms(1)] by (simp add: handle_env_terminal case_prod_unfold)
  qed
qed

lemma run_keeps:
  "holds s \<Longrightarrow> \<forall>e\<in>set (rx_system r) \<union> set (rx_normal r). expected e \<Longrightarrow> holds (fst (run_processor p l s r n))"
proof (induction "rx_len r" arbitrary: s r n rule: less_induct)
  case (less r s n)
  show ?case
  proof (cases "rx_recv r")
    case (Got env r1)
    obtain s' r' e n' fl where h: "handle_env p l s r1 env n = (s', r', e, n', fl)"
      by (cases "handle_env p l s r1 env n")
    have sub: "set (rx_system r1) \<union> set (rx_normal r1) \<subseteq> set (rx_system r) \<union> set (rx_normal r)"
      and mem: "env \<in> set (rx_system r) \<union> set (rx_normal r)"
      using Got by (auto simp: rx_recv_def split: list.splits if_splits)
    have "holds s'" using keep_env [OF less.prems(1)] less.prems(2) mem h by (metis fst_conv)
    moreover have "\<forall>e\<in>set (rx_system r') \<union> set (rx_normal r'). expected e"
      using handle_env_rx_subset [OF h] sub less.prems(2) by blast
    moreover have "rx_len r' < rx_len r" using handle_env_rx_len [OF h] rx_recv_len [OF Got] by simp
    ultimately show ?thesis
      using less.hyps by (cases fl) (simp_all add: run_processor_Got [OF Got] h case_prod_unfold)
  qed (use less.prems in \<open>simp_all add: run_processor.simps [of _ l s r n]\<close>)
qed

end

section \<open>Text\<close>

text \<open>\<open>str::contains\<close>.\<close>

definition str_contains :: "ustr \<Rightarrow> ustr \<Rightarrow> bool" where
  "str_contains s p = (find_split p s \<noteq> None)"

lemma find_split_None: "find_split p s = None \<longleftrightarrow> (\<nexists>a b. s = a @ p @ b)"
proof (induction s)
  case Nil
  then show ?case by simp
next
  case (Cons c s)
  show ?case
  proof (cases "strip_prefix p (c # s)")
    case None
    then have "\<nexists>b. c # s = p @ b" by (metis option.distinct(1) strip_prefix_append)
    then have "(\<exists>a b. c # s = a @ p @ b) \<longleftrightarrow> (\<exists>a b. s = a @ p @ b)"
      by (metis append_Cons append_Nil list.exhaust list.inject)
    then show ?thesis using None Cons.IH by simp
  next
    case (Some t)
    then have "c # s = [] @ p @ t" by (simp add: strip_prefix_Some)
    then show ?thesis using Some by (metis find_split.simps(2) option.distinct(1) option.simps(5))
  qed
qed

lemma str_contains_iff: "str_contains s p \<longleftrightarrow> (\<exists>a b. s = a @ p @ b)"
  by (simp add: str_contains_def find_split_None)

end
