(* ===== verification/Call_Filters.thy ===== *)
theory Call_Filters
  imports Frame_Taps Json
begin

text \<open>
  Two conversation processors: the function-call filter, \<^verbatim>\<open>flowcat-core/src/agent/fcall_filter.rs\<close>, and the
  scripted IVR navigator, \<^verbatim>\<open>flowcat-core/src/agent/ivr.rs\<close>.

  JSON arguments are \<open>json\<close> here, printed by the argument \<open>render\<close> (\<open>serde_json\<close>'s \<open>Display\<close>); lower-casing beyond
  ASCII is Unicode data and is the argument \<open>lower\<close> (\<open>str::to_lowercase\<close>).
\<close>

section \<open>Function-call filter\<close>

datatype allow_policy = AllowAny | Only "ustr set"

record fcall_filter =
  ff_allow :: allow_policy
  required_args :: "ustr \<rightharpoonup> ustr list"
  ff_dedup :: bool
  ff_seen :: "ustr set"

definition fcall_filter_new :: "allow_policy \<Rightarrow> fcall_filter" where
  "fcall_filter_new allow = \<lparr>ff_allow = allow, required_args = (\<lambda>_. None), ff_dedup = True, ff_seen = {}\<rparr>"

definition require_args :: "fcall_filter \<Rightarrow> ustr \<Rightarrow> ustr list \<Rightarrow> fcall_filter" where
  "require_args s fn keys = s\<lparr>required_args := (required_args s)(fn \<mapsto> keys)\<rparr>"

definition without_dedup :: "fcall_filter \<Rightarrow> fcall_filter" where
  "without_dedup s = s\<lparr>ff_dedup := False\<rparr>"

definition permits :: "(json \<Rightarrow> ustr) \<Rightarrow> fcall_filter \<Rightarrow> json function_call \<Rightarrow> fcall_filter \<times> bool" where
  "permits render s c =
     (if \<not> (case ff_allow s of AllowAny \<Rightarrow> True | Only names \<Rightarrow> fc_function_name c \<in> names) then (s, False)
      else if (case required_args s (fc_function_name c) of
                 None \<Rightarrow> False
               | Some keys \<Rightarrow>
                   \<not> list_all (\<lambda>k. case as_object (fc_arguments c) of None \<Rightarrow> False | Some m \<Rightarrow> map_of m k \<noteq> None) keys)
        then (s, False)
      else if ff_dedup s then
        (let key = fc_function_name c @ lit '':'' @ render (fc_arguments c)
         in if key \<in> ff_seen s then (s, False) else (s\<lparr>ff_seen := insert key (ff_seen s)\<rparr>, True))
      else (s, True))"

fun keep_permitted ::
  "(json \<Rightarrow> ustr) \<Rightarrow> fcall_filter \<Rightarrow> json function_call list \<Rightarrow> fcall_filter \<times> json function_call list" where
  "keep_permitted render s [] = (s, [])"
| "keep_permitted render s (c # cs) =
     (let (s1, ok) = permits render s c;
          (s2, kept) = keep_permitted render s1 cs
      in (s2, if ok then c # kept else kept))"

definition fcall_filter_process :: "(json \<Rightarrow> ustr) \<Rightarrow> (fcall_filter, json envelope, json) tap_step" where
  "fcall_filter_process render l s env n =
     (case env_frame env of
        FunctionCallsStarted calls \<Rightarrow>
          (let (s', kept) = keep_permitted render s calls
           in if kept = [] then Some (s', [], n)
              else Some (s', push l (env_meta env) (FunctionCallsStarted kept) (env_direction env), n))
      | _ \<Rightarrow> Some (s, push_env l env, n))"

section \<open>IVR navigator\<close>

datatype ivr_action = Dtmf "keypad_entry list" | Say ustr | Wait

record ivr_step =
  is_triggers :: "ustr list"
  is_action :: ivr_action

definition ivr_press :: "(ustr \<Rightarrow> ustr) \<Rightarrow> ustr list \<Rightarrow> keypad_entry list \<Rightarrow> ivr_step" where
  "ivr_press lower triggers digits = \<lparr>is_triggers = map lower triggers, is_action = Dtmf digits\<rparr>"

definition ivr_say :: "(ustr \<Rightarrow> ustr) \<Rightarrow> ustr list \<Rightarrow> ustr \<Rightarrow> ivr_step" where
  "ivr_say lower triggers reply = \<lparr>is_triggers = map lower triggers, is_action = Say reply\<rparr>"

definition ivr_matches :: "ivr_step \<Rightarrow> ustr \<Rightarrow> bool" where
  "ivr_matches st prompt_lower = list_ex (\<lambda>t. str_contains prompt_lower t) (is_triggers st)"

record ivr_script =
  sc_steps :: "ivr_step list"
  stuck_after :: nat

datatype ivr_status = Completed | Stuck

record ivr_navigator =
  iv_script :: ivr_script
  iv_cursor :: nat
  unmatched_streak :: nat
  iv_finished :: bool

definition ivr_new :: "ivr_script \<Rightarrow> ivr_navigator" where
  "ivr_new sc = \<lparr>iv_script = sc, iv_cursor = 0, unmatched_streak = 0, iv_finished = False\<rparr>"

text \<open>The status frame, and the downcast that reads it back.\<close>

definition ivr_status_frame :: "ivr_status \<Rightarrow> 'j frame" where
  "ivr_status_frame st =
     Custom \<lparr>cf_class = Control, cf_uninterruptible = False, cf_name = ''IvrStatusChanged'',
       cf_any = (case st of Completed \<Rightarrow> 0 | Stuck \<Rightarrow> 1), cf_value = None\<rparr>"

definition as_ivr_status :: "'j frame \<Rightarrow> ivr_status option" where
  "as_ivr_status f =
     (case f of
        Custom c \<Rightarrow> if cf_name c = ''IvrStatusChanged'' then Some (if cf_any c = 0 then Completed else Stuck) else None
      | _ \<Rightarrow> None)"

definition action_frame :: "ivr_action \<Rightarrow> 'j frame option" where
  "action_frame a =
     (case a of
        Dtmf digits \<Rightarrow> Some (OutputDtmf digits)
      | Say reply \<Rightarrow> Some (TtsSpeak reply (Some False))
      | Wait \<Rightarrow> None)"

definition push_opt :: "link \<Rightarrow> u64 \<Rightarrow> 'j frame option \<Rightarrow> 'j eff list \<times> u64" where
  "push_opt l n f = (case f of None \<Rightarrow> ([], n) | Some x \<Rightarrow> push_down l n x)"

text \<open>What the navigator does after forwarding a prompt.\<close>

definition ivr_act :: "link \<Rightarrow> ivr_navigator \<Rightarrow> ustr \<Rightarrow> u64 \<Rightarrow> ivr_navigator \<times> 'j eff list \<times> u64" where
  "ivr_act l s prompt_lower n =
     (let no_match =
        (let s1 = s\<lparr>unmatched_streak := unmatched_streak s + 1\<rparr>
         in if stuck_after (iv_script s) > 0 \<and> stuck_after (iv_script s) \<le> unmatched_streak s1
            then (s1\<lparr>iv_finished := True\<rparr>, push_down l n (ivr_status_frame Stuck))
            else (s1, [], n))
      in case index (sc_steps (iv_script s)) (iv_cursor s) of
           None \<Rightarrow> no_match
         | Some step \<Rightarrow>
             if ivr_matches step prompt_lower then
               let (e1, n1) = push_opt l n (action_frame (is_action step));
                   s1 = s\<lparr>unmatched_streak := 0, iv_cursor := iv_cursor s + 1\<rparr>
               in if length (sc_steps (iv_script s)) \<le> iv_cursor s1
                  then let (e2, n2) = push_down l n1 (ivr_status_frame Completed)
                       in (s1\<lparr>iv_finished := True\<rparr>, e1 @ e2, n2)
                  else (s1, e1, n1)
             else no_match)"

definition ivr_process :: "(ustr \<Rightarrow> ustr) \<Rightarrow> (ivr_navigator, 'j envelope, 'j) tap_step" where
  "ivr_process lower l s env n =
     (case env_frame env of
        Transcription text _ _ _ \<Rightarrow>
          (let e0 = push_env l env
           in if iv_finished s then Some (s, e0, n)
              else let (s', es, n') = ivr_act l s (lower text) n in Some (s', e0 @ es, n'))
      | _ \<Rightarrow> Some (s, push_env l env, n))"

section \<open>Both are taps\<close>

definition calls_of :: "'j frame \<Rightarrow> 'j function_call list option" where
  "calls_of f = (case f of FunctionCallsStarted cs \<Rightarrow> Some cs | _ \<Rightarrow> None)"

definition transcript_of :: "'j frame \<Rightarrow> ustr option" where
  "transcript_of f = (case f of Transcription t _ _ _ \<Rightarrow> Some t | _ \<Rightarrow> None)"

lemma fcall_filter_process_calls:
  "fcall_filter_process render l s env n =
     (case calls_of (env_frame env) of
        None \<Rightarrow> Some (s, push_env l env, n)
      | Some calls \<Rightarrow>
          (let (s', kept) = keep_permitted render s calls
           in Some (s', if kept = [] then [] else push l (env_meta env) (FunctionCallsStarted kept) (env_direction env), n)))"
  by (cases "env_frame env") (simp_all add: fcall_filter_process_def calls_of_def Let_def split: prod.split)

lemma ivr_process_transcript:
  "ivr_process lower l s env n =
     (case transcript_of (env_frame env) of
        None \<Rightarrow> Some (s, push_env l env, n)
      | Some t \<Rightarrow>
          if iv_finished s then Some (s, push_env l env, n)
          else let (s', es, n') = ivr_act l s (lower t) n in Some (s', push_env l env @ es, n'))"
  by (cases "env_frame env") (simp_all add: ivr_process_def transcript_of_def Let_def)

interpretation fcall: frame_tap "fcall_filter_process render" "\<lambda>e. e" "\<lambda>f. calls_of f \<noteq> None" for render
  by unfold_locales (simp add: fcall_filter_process_calls)

interpretation ivr: one_shot_tap "ivr_process lower" "\<lambda>e. e" "\<lambda>f. transcript_of f \<noteq> None" iv_finished for lower
  by unfold_locales (auto simp: ivr_process_transcript split: option.split)

section \<open>What the filter keeps\<close>

text \<open>Allow-listed, with all required argument keys.\<close>

definition acceptable :: "fcall_filter \<Rightarrow> json function_call \<Rightarrow> bool" where
  "acceptable s c \<longleftrightarrow>
     (case ff_allow s of AllowAny \<Rightarrow> True | Only names \<Rightarrow> fc_function_name c \<in> names) \<and>
     (\<forall>keys. required_args s (fc_function_name c) = Some keys \<longrightarrow>
        (\<forall>k\<in>set keys. \<exists>m. as_object (fc_arguments c) = Some m \<and> k \<in> fst ` set m))"

definition call_key :: "(json \<Rightarrow> ustr) \<Rightarrow> json function_call \<Rightarrow> ustr" where
  "call_key render c = fc_function_name c @ [58] @ render (fc_arguments c)"

text \<open>The first element of every key that is not in a given set.\<close>

fun first_by :: "('a \<Rightarrow> 'k) \<Rightarrow> 'k set \<Rightarrow> 'a list \<Rightarrow> 'a list" where
  "first_by k S [] = []"
| "first_by k S (x # xs) = (if k x \<in> S then first_by k S xs else x # first_by k (insert (k x) S) xs)"

lemma first_by_append: "first_by k S (xs @ ys) = first_by k S xs @ first_by k (S \<union> k ` set xs) ys"
  by (induction xs arbitrary: S) (auto simp: insert_absorb Un_insert_left Un_insert_right)

definition kept_calls :: "(json \<Rightarrow> ustr) \<Rightarrow> fcall_filter \<Rightarrow> json function_call list \<Rightarrow> json function_call list" where
  "kept_calls render s cs =
     (let ok = filter (acceptable s) cs in if ff_dedup s then first_by (call_key render) (ff_seen s) ok else ok)"

definition after_calls :: "(json \<Rightarrow> ustr) \<Rightarrow> fcall_filter \<Rightarrow> json function_call list \<Rightarrow> fcall_filter" where
  "after_calls render s cs =
     (if ff_dedup s then s\<lparr>ff_seen := ff_seen s \<union> call_key render ` set (filter (acceptable s) cs)\<rparr> else s)"

lemma acceptable_seen [simp]: "acceptable (s\<lparr>ff_seen := S\<rparr>) = acceptable s"
  by (simp add: acceptable_def fun_eq_iff)

lemma permits_spec:
  "permits render s c =
     (if \<not> acceptable s c \<or> (ff_dedup s \<and> call_key render c \<in> ff_seen s) then (s, False)
      else (if ff_dedup s then s\<lparr>ff_seen := insert (call_key render c) (ff_seen s)\<rparr> else s, True))"
proof -
  have req: "(case required_args s (fc_function_name c) of
        None \<Rightarrow> False
      | Some keys \<Rightarrow>
          \<not> list_all (\<lambda>k. case as_object (fc_arguments c) of None \<Rightarrow> False | Some m \<Rightarrow> map_of m k \<noteq> None) keys) \<longleftrightarrow>
      \<not> (\<forall>keys. required_args s (fc_function_name c) = Some keys \<longrightarrow>
        (\<forall>k\<in>set keys. \<exists>m. as_object (fc_arguments c) = Some m \<and> k \<in> fst ` set m))"
    by (cases "required_args s (fc_function_name c)"; cases "as_object (fc_arguments c)")
      (auto simp: list_all_iff map_of_eq_None_iff)
  show ?thesis
    unfolding permits_def req acceptable_def call_key_def by (simp add: Let_def)
qed

lemma keep_permitted_spec: "keep_permitted render s cs = (after_calls render s cs, kept_calls render s cs)"
proof (induction cs arbitrary: s)
  case (Cons c cs)
  show ?case
    by (cases "acceptable s c"; cases "ff_dedup s"; cases "call_key render c \<in> ff_seen s")
      (simp_all add: permits_spec Cons after_calls_def kept_calls_def Let_def insert_absorb)
qed (simp add: after_calls_def kept_calls_def)

lemma kept_calls_append:
  "kept_calls render s (xs @ ys) = kept_calls render s xs @ kept_calls render (after_calls render s xs) ys"
  by (simp add: kept_calls_def after_calls_def Let_def first_by_append)

lemma after_calls_append: "after_calls render s (xs @ ys) = after_calls render (after_calls render s xs) ys"
  by (simp add: after_calls_def image_Un Un_assoc)

definition batch :: "'j frame \<Rightarrow> 'j function_call list" where
  "batch f = (case calls_of f of None \<Rightarrow> [] | Some cs \<Rightarrow> cs)"

lemma fcall_run:
  assumes "l_next l \<noteq> None" and "downstream (\<lambda>e. e) envs"
  shows "\<exists>es. run_frames (fcall_filter_process render) l s envs n =
      Some (after_calls render s (concat (map (\<lambda>e. batch (env_frame e)) envs)), es, n) \<and>
    concat (map batch (sent_frames es)) = kept_calls render s (concat (map (\<lambda>e. batch (env_frame e)) envs)) \<and>
    filter (\<lambda>f. calls_of f = None) (sent_frames es) = filter (\<lambda>f. calls_of f = None) (map env_frame envs) \<and>
    (\<forall>f\<in>set (sent_frames es). calls_of f \<noteq> Some [])"
  using assms(2)
proof (induction envs arbitrary: s)
  case (Cons e envs)
  obtain es where IH: "run_frames (fcall_filter_process render) l s' envs n =
      Some (after_calls render s' (concat (map (\<lambda>e. batch (env_frame e)) envs)), es s', n)"
    "concat (map batch (sent_frames (es s'))) = kept_calls render s' (concat (map (\<lambda>e. batch (env_frame e)) envs))"
    "filter (\<lambda>f. calls_of f = None) (sent_frames (es s')) = filter (\<lambda>f. calls_of f = None) (map env_frame envs)"
    "\<forall>f\<in>set (sent_frames (es s')). calls_of f \<noteq> Some []" for s'
    using Cons.IH Cons.prems by (metis (no_types, lifting) downstream_simps(2))
  have d: "env_direction e = Downstream" using Cons.prems by simp
  show ?case
  proof (cases "calls_of (env_frame e)")
    case None
    then show ?thesis using IH [of s] d assms(1) by (simp add: fcall.unwatched batch_def [of "env_frame e"])
  next
    case (Some cs)
    let ?s = "after_calls render s cs"
    have b: "batch (env_frame e) = cs" using Some by (simp add: batch_def)
    have k: "calls_of (FunctionCallsStarted xs) = Some xs" for xs :: "json function_call list" by (simp add: calls_of_def)
    have "fcall_filter_process render l s e n = Some (?s, if kept_calls render s cs = [] then []
        else push l (env_meta e) (FunctionCallsStarted (kept_calls render s cs)) Downstream, n)"
      using Some d by (simp add: fcall_filter_process_calls keep_permitted_spec)
    then show ?thesis
      using IH [of ?s] assms(1) Some
      by (auto simp: b k kept_calls_append after_calls_append batch_def [of "FunctionCallsStarted _"])
  qed
qed (simp add: after_calls_def kept_calls_def)

section \<open>How far the navigator is\<close>

definition ivr_ok :: "ivr_navigator \<Rightarrow> bool" where
  "ivr_ok s \<longleftrightarrow> iv_cursor s \<le> length (sc_steps (iv_script s)) \<and>
     (\<not> iv_finished s \<longrightarrow> iv_cursor s < length (sc_steps (iv_script s)) \<or> sc_steps (iv_script s) = [])"

text \<open>What has been done once the cursor is at \<open>c\<close>.\<close>

definition ivr_done :: "ivr_navigator \<Rightarrow> 'j frame list" where
  "ivr_done s =
     List.map_filter (\<lambda>st. action_frame (is_action st)) (take (iv_cursor s) (sc_steps (iv_script s))) @
     (if \<not> iv_finished s then []
      else [ivr_status_frame (if iv_cursor s = length (sc_steps (iv_script s)) \<and> sc_steps (iv_script s) \<noteq> []
              then Completed else Stuck)])"

lemma sent_push_opt [simp]:
  "l_next l \<noteq> None \<Longrightarrow> sent_frames (fst (push_opt l n f)) = (case f of None \<Rightarrow> [] | Some x \<Rightarrow> [x])"
  by (auto simp: push_opt_def split: option.split)

lemma ivr_act_done:
  assumes "l_next l \<noteq> None" and "ivr_ok s" and "\<not> iv_finished s" and "ivr_act l s p n = (s', es :: 'j eff list, n')"
  shows "ivr_done s' = (ivr_done s @ sent_frames es :: 'j frame list) \<and> ivr_ok s' \<and> iv_script s' = iv_script s"
proof (cases "\<exists>st. index (sc_steps (iv_script s)) (iv_cursor s) = Some st \<and> ivr_matches st p")
  case True
  let ?steps = "sc_steps (iv_script s)" and ?c = "iv_cursor s"
  have c: "?c < length ?steps" and m: "ivr_matches (?steps ! ?c) p"
    using True by (auto simp: index_def split: if_splits)
  have t: "List.map_filter f (take (Suc ?c) ?steps) =
      List.map_filter f (take ?c ?steps) @ (case f (?steps ! ?c) of None \<Rightarrow> [] | Some y \<Rightarrow> [y])"
    for f :: "ivr_step \<Rightarrow> 'j frame option"
    unfolding take_Suc_conv_app_nth [OF c] by (simp add: List.map_filter_def split: option.split)
  obtain e1 n1 where e1: "push_opt l n (action_frame (is_action (?steps ! ?c)) :: 'j frame option) = (e1, n1)"
    by (metis surj_pair)
  obtain e2 n2 where e2: "push_down l n1 (ivr_status_frame Completed :: 'j frame) = (e2, n2)" by (metis surj_pair)
  have s1: "sent_frames e1 = (case action_frame (is_action (?steps ! ?c)) of None \<Rightarrow> [] | Some x \<Rightarrow> [x])"
    using sent_push_opt [OF assms(1), of n] e1 by (metis fst_conv)
  have s2: "sent_frames e2 = [ivr_status_frame Completed]"
    using sent_frames_push_down [of l n1] assms(1) e2 by (metis fst_conv)
  show ?thesis
    using assms(2-) c m e1 e2 s1 s2 t [of "\<lambda>st. action_frame (is_action st)"]
    by (auto simp: ivr_act_def Let_def ivr_done_def ivr_ok_def split: if_splits)
next
  case False
  obtain e2 n2 where e2: "push_down l n (ivr_status_frame Stuck :: 'j frame) = (e2, n2)" by (metis surj_pair)
  have s2: "sent_frames e2 = [ivr_status_frame Stuck]"
    using sent_frames_push_down [of l n] assms(1) e2 by (metis fst_conv)
  have "ivr_act l s p n =
      (let s1 = s\<lparr>unmatched_streak := unmatched_streak s + 1\<rparr>
       in if stuck_after (iv_script s) > 0 \<and> stuck_after (iv_script s) \<le> unmatched_streak s1
          then (s1\<lparr>iv_finished := True\<rparr>, e2, n2) else (s1, [], n))"
    using False e2 by (auto simp: ivr_act_def Let_def split: option.split)
  then show ?thesis
    using assms(2-) s2 by (auto simp: Let_def ivr_done_def ivr_ok_def split: if_splits)
qed

text \<open>The frames of the navigator's own among those sent: what follows the forwarded prompts.\<close>

lemma ivr_run:
  assumes "l_next l \<noteq> None" and "downstream (\<lambda>e. e) envs" and "ivr_ok s"
  shows "\<exists>s' ess n'. length ess = length envs \<and>
    (\<exists>es. run_frames (ivr_process lower) l s envs n = Some (s', es :: 'j eff list, n') \<and>
       sent_frames es = concat (map2 (\<lambda>e own. env_frame e # own) envs ess)) \<and>
    ivr_done s' = ivr_done s @ concat ess \<and> ivr_ok s' \<and> iv_script s' = iv_script s"
  using assms(2,3)
proof (induction envs arbitrary: s n)
  case (Cons e envs)
  have d: "env_direction e = Downstream" "downstream (\<lambda>e. e) envs" using Cons.prems by simp_all
  obtain s1 own n1 where st: "ivr_process lower l s e n = Some (s1, push_env l e @ own, n1)"
    and dn: "ivr_done s1 = (ivr_done s @ sent_frames own :: 'j frame list)" "ivr_ok s1" "iv_script s1 = iv_script s"
  proof (cases "transcript_of (env_frame e) = None \<or> iv_finished s")
    case True
    then have "ivr_process lower l s e n = Some (s, push_env l e @ [], n)"
      by (auto simp: ivr_process_transcript split: option.split)
    then show ?thesis using that [of s "[]" n] Cons.prems by simp
  next
    case False
    then obtain t where t: "transcript_of (env_frame e) = Some t" "\<not> iv_finished s" by auto
    obtain s1 own n1 where a: "ivr_act l s (lower t) n = (s1, own :: 'j eff list, n1)" by (metis prod_cases3)
    then show ?thesis
      using that [of s1 own n1] ivr_act_done [OF assms(1) Cons.prems(2) t(2) a] t by (simp add: ivr_process_transcript)
  qed
  obtain s' ess n' es where IH: "length ess = length envs" "run_frames (ivr_process lower) l s1 envs n1 = Some (s', es, n')"
    "sent_frames es = concat (map2 (\<lambda>e own. env_frame e # own) envs ess)"
    "ivr_done s' = ivr_done s1 @ concat ess" "ivr_ok s'" "iv_script s' = iv_script s1"
    using Cons.IH [OF d(2) dn(2)] by metis
  show ?case
    using st dn IH d(1) assms(1)
    by (intro exI [of _ s'] exI [of _ "sent_frames own # ess"] exI [of _ n']) simp
qed simp

text \<open>How many steps a sequence of prompts takes, each prompt tried against the next step only.\<close>

fun steps_taken :: "ivr_step list \<Rightarrow> ustr list \<Rightarrow> nat" where
  "steps_taken [] ps = 0"
| "steps_taken (st # sts) [] = 0"
| "steps_taken (st # sts) (p # ps) = (if ivr_matches st p then Suc (steps_taken sts ps) else steps_taken (st # sts) ps)"

definition prompts_of :: "(ustr \<Rightarrow> ustr) \<Rightarrow> 'j envelope list \<Rightarrow> ustr list" where
  "prompts_of lower envs = map lower (List.map_filter (\<lambda>e. transcript_of (env_frame e)) envs)"

lemma prompts_of_simps [simp]:
  "prompts_of lower [] = []"
  "prompts_of lower (e # envs) =
     (case transcript_of (env_frame e) of None \<Rightarrow> [] | Some t \<Rightarrow> [lower t]) @ prompts_of lower envs"
  by (simp_all add: prompts_of_def List.map_filter_simps split: option.split)

lemma steps_taken_Nil [simp]: "steps_taken sts [] = 0"
  by (cases sts) simp_all

lemma ivr_act_cursor:
  assumes "ivr_ok s" and "\<not> iv_finished s" and "ivr_act l s p n = (s', es, n')"
  shows "if iv_cursor s < length (sc_steps (iv_script s)) \<and> ivr_matches (sc_steps (iv_script s) ! iv_cursor s) p
    then iv_cursor s' = Suc (iv_cursor s) \<and> (iv_finished s' \<longrightarrow> Suc (iv_cursor s) = length (sc_steps (iv_script s)))
    else iv_cursor s' = iv_cursor s"
  using assms by (auto simp: ivr_act_def Let_def index_def split: if_splits prod.splits)

lemma ivr_run_cursor:
  assumes "l_next l \<noteq> None" and "ivr_ok s" and "\<not> iv_finished s"
    and "run_frames (ivr_process lower) l s envs n = Some (s', es :: 'j eff list, n')"
  shows "\<exists>k. iv_cursor s' = iv_cursor s + steps_taken (drop (iv_cursor s) (sc_steps (iv_script s))) (take k (prompts_of lower envs)) \<and>
    (length (prompts_of lower envs) \<le> k \<or> iv_finished s' \<and> (iv_cursor s' < length (sc_steps (iv_script s)) \<or> sc_steps (iv_script s) = []))"
  using assms(2-)
proof (induction envs arbitrary: s n es)
  case (Cons e envs)
  let ?steps = "sc_steps (iv_script s)" and ?c = "iv_cursor s"
  show ?case
  proof (cases "transcript_of (env_frame e)")
    case None
    then show ?thesis using Cons by (auto simp: ivr.unwatched split: Option.bind_splits)
  next
    case (Some t)
    obtain s1 own n1 where a: "ivr_act l s (lower t) n = (s1, own :: 'j eff list, n1)" by (metis prod_cases3)
    have "ivr_process lower l s e n = Some (s1, push_env l e @ own, n1)"
      using Some a Cons.prems(2) by (simp add: ivr_process_transcript)
    then obtain e2 where r: "run_frames (ivr_process lower) l s1 envs n1 = Some (s', e2, n')"
      using Cons.prems(3) by (auto split: Option.bind_splits)
    have ok: "ivr_ok s1" "iv_script s1 = iv_script s"
      using ivr_act_done [OF assms(1) Cons.prems(1,2) a] by simp_all
    note cur = ivr_act_cursor [OF Cons.prems(1,2) a]
    have fin: "s' = s1" if "iv_finished s1" using r that by (simp add: ivr.run_over)
    have step: "steps_taken (drop ?c ?steps) (lower t # ps) =
        (iv_cursor s1 - ?c) + steps_taken (drop (iv_cursor s1) ?steps) ps \<and> ?c \<le> iv_cursor s1" for ps
    proof (cases "?c < length ?steps")
      case True
      then show ?thesis using cur by (cases "drop ?c ?steps") (auto simp: Cons_nth_drop_Suc [symmetric])
    next
      case False
      then show ?thesis using cur by simp
    qed
    show ?thesis
    proof (cases "iv_finished s1")
      case True
      show ?thesis
      proof (cases "iv_cursor s1 = ?c")
        case same: True
        have "?c < length ?steps \<or> ?steps = []" using Cons.prems(1,2) by (auto simp: ivr_ok_def)
        then show ?thesis using same fin [OF True] True Some step [of "[]"] by (intro exI [of _ 1]) auto
      next
        case False
        then have "iv_cursor s1 = length ?steps" using cur True by (auto split: if_splits)
        then show ?thesis
          using fin [OF True] Some step [of "prompts_of lower envs"]
          by (intro exI [of _ "Suc (length (prompts_of lower envs))"]) simp
      qed
    next
      case False
      obtain k where k: "iv_cursor s' = iv_cursor s1 + steps_taken (drop (iv_cursor s1) ?steps) (take k (prompts_of lower envs))"
        "length (prompts_of lower envs) \<le> k \<or> iv_finished s' \<and> (iv_cursor s' < length ?steps \<or> ?steps = [])"
        using Cons.IH [OF ok(1) False r] ok(2) by auto
      then show ?thesis using Some step [of "take k (prompts_of lower envs)"] by (intro exI [of _ "Suc k"]) auto
    qed
  qed
qed simp

section \<open>A worked script\<close>

definition demo_env_of :: "'j frame \<Rightarrow> 'j envelope" where
  "demo_env_of f = fst (envelope_new 0 f Downstream)"

lemma demo_env_of_simps [simp]: "env_direction (demo_env_of f) = Downstream" "env_frame (demo_env_of f) = f"
  by (simp_all add: demo_env_of_def envelope_new_def Let_def case_prod_unfold)

section \<open>Properties\<close>

text \<open>The function-call filter lets through exactly the calls that are allow-listed, carry their required
  argument keys and (unless de-duplication is off) are the first of their name and printed arguments, in
  order and across batches; it never sends an empty batch, and every other frame is forwarded in order.\<close>

lemma fcall_filter_exact:
  assumes "l_next l \<noteq> None" and "downstream (\<lambda>e. e) envs" and "ff_seen s = {}"
  shows "\<exists>s' es n'. run_frames (fcall_filter_process render) l s envs n = Some (s', es, n') \<and>
    concat (map batch (sent_frames es)) =
      (let ok = filter (acceptable s) (concat (map (\<lambda>e. batch (env_frame e)) envs))
       in if ff_dedup s then first_by (call_key render) {} ok else ok) \<and>
    filter (\<lambda>f. calls_of f = None) (sent_frames es) = filter (\<lambda>f. calls_of f = None) (map env_frame envs) \<and>
    (\<forall>f\<in>set (sent_frames es). calls_of f \<noteq> Some [])"
  using fcall_run [OF assms(1,2), of render s n] assms(3) by (auto simp: kept_calls_def Let_def)

text \<open>The navigator follows its script: it forwards every frame and adds the actions of a prefix of the
  script's steps in order, then one status frame exactly when it is finished, \<open>Completed\<close> when every step
  has been taken and \<open>Stuck\<close> otherwise. The length of that prefix is what the prompts trigger, each tried
  against the next step only, up to the prompt at which it gave up, if it did.\<close>

lemma ivr_follows_script:
  assumes "l_next l \<noteq> None" and "downstream (\<lambda>e. e) envs"
  shows "\<exists>s' es n' ess k. run_frames (ivr_process lower) l (ivr_new sc) envs n = Some (s', es :: 'j eff list, n') \<and>
    length ess = length envs \<and> sent_frames es = concat (map2 (\<lambda>e own. env_frame e # own) envs ess) \<and>
    concat ess =
      List.map_filter (\<lambda>st. action_frame (is_action st)) (take (iv_cursor s') (sc_steps sc)) @
      (if \<not> iv_finished s' then []
       else [ivr_status_frame (if iv_cursor s' = length (sc_steps sc) \<and> sc_steps sc \<noteq> [] then Completed else Stuck)]) \<and>
    (iv_cursor s' = length (sc_steps sc) \<and> sc_steps sc \<noteq> [] \<longrightarrow> iv_finished s') \<and>
    iv_cursor s' = steps_taken (sc_steps sc) (take k (prompts_of lower envs)) \<and>
    (length (prompts_of lower envs) \<le> k \<or> iv_finished s' \<and> (iv_cursor s' < length (sc_steps sc) \<or> sc_steps sc = []))"
proof -
  let ?s = "ivr_new sc"
  have new: "ivr_ok ?s" "ivr_done ?s = ([] :: 'j frame list)" "\<not> iv_finished ?s" "iv_cursor ?s = 0" "iv_script ?s = sc"
    by (auto simp: ivr_ok_def ivr_new_def ivr_done_def List.map_filter_simps)
  obtain s' ess n' es where r: "length ess = length envs" "run_frames (ivr_process lower) l ?s envs n = Some (s', es, n')"
    "sent_frames es = concat (map2 (\<lambda>e own. env_frame e # own) envs ess)"
    "ivr_done s' = concat ess" "ivr_ok s'" "iv_script s' = sc"
    using ivr_run [OF assms new(1), of lower n] new(2,5) by auto
  obtain k where "iv_cursor s' = steps_taken (sc_steps sc) (take k (prompts_of lower envs))"
    "length (prompts_of lower envs) \<le> k \<or> iv_finished s' \<and> (iv_cursor s' < length (sc_steps sc) \<or> sc_steps sc = [])"
    using ivr_run_cursor [OF assms(1) new(1,3) r(2)] new(4,5) by auto
  moreover have "iv_cursor s' = length (sc_steps sc) \<and> sc_steps sc \<noteq> [] \<longrightarrow> iv_finished s'"
    using r(5,6) by (auto simp: ivr_ok_def)
  ultimately show ?thesis
    using r(1-3) r(4) [unfolded ivr_done_def r(6), symmetric] by blast
qed

end
