(* ===== verification/Voicemail.thy ===== *)
theory Voicemail
  imports Frame_Taps Vad
begin

text \<open>
  The voicemail detector, \<^verbatim>\<open>flowcat-core/src/agent/voicemail.rs\<close>: phrase and long-first-turn heuristics over
  transcripts and voice activity edges, one decision, silence afterwards.

  A \<open>Duration\<close> is its number of nanoseconds; \<open>from_secs_f32\<close> rounds to the nearest one and panics (\<open>None\<close>) on
  a value that is negative, not finite or at least \<open>2^64\<close> seconds. \<open>lower\<close> is \<open>str::to_lowercase\<close>.
\<close>

section \<open>The detector\<close>

datatype classification = Conversation | Voicemail

datatype decision_reason = GreetingPhrase | LongFirstTurn | HumanResponse

record voicemail_decision =
  vd_classification :: classification
  vd_reason :: decision_reason

definition voicemail_frame :: "voicemail_decision \<Rightarrow> 'j frame" where
  "voicemail_frame d =
     Custom \<lparr>cf_class = Control, cf_uninterruptible = False, cf_name = ''VoicemailDecision'',
       cf_any = (case vd_classification d of Conversation \<Rightarrow> 0 | Voicemail \<Rightarrow> 3) +
                (case vd_reason d of GreetingPhrase \<Rightarrow> 0 | LongFirstTurn \<Rightarrow> 1 | HumanResponse \<Rightarrow> 2), cf_value = None\<rparr>"

definition as_voicemail_decision :: "'j frame \<Rightarrow> voicemail_decision option" where
  "as_voicemail_decision f =
     (case f of
        Custom c \<Rightarrow>
          if cf_name c = ''VoicemailDecision'' then
            Some \<lparr>vd_classification = (if cf_any c < 3 then Conversation else Voicemail),
                  vd_reason = (if cf_any c mod 3 = 0 then GreetingPhrase else if cf_any c mod 3 = 1 then LongFirstTurn
                               else HumanResponse)\<rparr>
          else None
      | _ \<Rightarrow> None)"

record voicemail_params =
  long_first_turn :: nat
  long_first_turn_words :: nat

definition voicemail_params_default :: voicemail_params where
  "voicemail_params_default = \<lparr>long_first_turn = 5 * 10 ^ 9, long_first_turn_words = 12\<rparr>"

definition voicemail_phrases :: "ustr list" where
  "voicemail_phrases =
     [lit ''please leave a message'', lit ''leave a message'', lit ''leave your name and number'',
      lit ''leave your message after'', lit ''after the tone'', lit ''after the beep'',
      lit ''you'' @ [39] @ lit ''ve reached'', lit ''you have reached'', lit ''the person you are trying to reach'',
      lit ''is not available'', lit ''not available right now'', lit ''i'' @ [39] @ lit ''m not available'',
      lit ''is unavailable'', lit ''the number you have dialed'', lit ''the number you dialed'',
      lit ''is not in service'', lit ''the mailbox'', lit ''mailbox is full'', lit ''has not been set up'',
      lit ''voicemail'', lit ''voice mail'', lit ''all circuits are busy'', lit ''record your message'',
      lit ''i'' @ [39] @ lit ''ll get back to you'', lit ''call me back'', lit ''our office is currently closed'',
      lit ''please record'', lit ''at the tone'']"

record voicemail_detector =
  vm_params :: voicemail_params
  vm_transcript :: ustr
  turn_started_secs :: "f32 option"
  first_turn :: bool
  vm_decided :: bool

definition voicemail_new :: "voicemail_params \<Rightarrow> voicemail_detector" where
  "voicemail_new ps =
     \<lparr>vm_params = ps, vm_transcript = [], turn_started_secs = None, first_turn = True, vm_decided = False\<rparr>"

definition classify_transcript :: "(ustr \<Rightarrow> ustr) \<Rightarrow> ustr \<Rightarrow> decision_reason option" where
  "classify_transcript lower t =
     (if list_ex (\<lambda>p. str_contains (lower t) p) voicemail_phrases then Some GreetingPhrase else None)"

definition vm_decide ::
  "voicemail_detector \<Rightarrow> classification \<Rightarrow> decision_reason \<Rightarrow> voicemail_detector \<times> voicemail_decision option" where
  "vm_decide d c r = (d\<lparr>vm_decided := True\<rparr>, Some \<lparr>vd_classification = c, vd_reason = r\<rparr>)"

definition duration_from_secs_f32 :: "f32 \<Rightarrow> nat option" where
  "duration_from_secs_f32 x =
     (case x of
        FNum r \<Rightarrow> if 0 \<le> r \<and> r < 2 ^ 64 then Some (nat (round_half_even (r * 10 ^ 9))) else None
      | _ \<Rightarrow> None)"

definition on_transcript ::
  "(ustr \<Rightarrow> ustr) \<Rightarrow> voicemail_detector \<Rightarrow> ustr \<Rightarrow> voicemail_detector \<times> voicemail_decision option" where
  "on_transcript lower d t =
     (let tr = (if vm_transcript d \<noteq> [] then vm_transcript d @ [32] else vm_transcript d) @ t;
          d1 = d\<lparr>vm_transcript := tr\<rparr>
      in case classify_transcript lower tr of
           Some reason \<Rightarrow> vm_decide d1 Voicemail reason
         | None \<Rightarrow>
             if first_turn d1 \<and> long_first_turn_words (vm_params d1) \<le> length (split_whitespace tr)
             then vm_decide d1 Voicemail LongFirstTurn
             else (d1, None))"

definition on_speech_stop :: "voicemail_detector \<Rightarrow> f32 \<Rightarrow> (voicemail_detector \<times> voicemail_decision option) option" where
  "on_speech_stop d stop = do {
     (d1, decision) \<leftarrow>
       (case turn_started_secs d of
          None \<Rightarrow> Some (d, None)
        | Some start \<Rightarrow> do {
            dur \<leftarrow> duration_from_secs_f32 (fl_max (fl_sub f32_fmt stop start) (FNum 0));
            let d0 = d\<lparr>turn_started_secs := None\<rparr>;
            Some (if first_turn d0 \<and> long_first_turn (vm_params d0) \<le> dur
                  then vm_decide d0 Voicemail LongFirstTurn else (d0, None))
          });
     let (d2, decision2) = (if decision = None \<and> first_turn d1 then vm_decide d1 Conversation HumanResponse
                            else (d1, decision));
     Some (d2\<lparr>first_turn := False\<rparr>, decision2)
   }"

definition voicemail_observe ::
  "(ustr \<Rightarrow> ustr) \<Rightarrow> voicemail_detector \<Rightarrow> 'j frame \<Rightarrow> (voicemail_detector \<times> voicemail_decision option) option" where
  "voicemail_observe lower d f =
     (case f of
        Transcription text _ _ _ \<Rightarrow> Some (on_transcript lower d text)
      | InterimTranscription text _ _ \<Rightarrow> Some (on_transcript lower d text)
      | VadUserStartedSpeaking start \<Rightarrow>
          Some (if turn_started_secs d = None then d\<lparr>turn_started_secs := Some start\<rparr> else d, None)
      | VadUserStoppedSpeaking stop \<Rightarrow> on_speech_stop d stop
      | _ \<Rightarrow> Some (d, None))"

definition voicemail_process :: "(ustr \<Rightarrow> ustr) \<Rightarrow> (voicemail_detector, 'j envelope, 'j) tap_step" where
  "voicemail_process lower l d env n =
     (if vm_decided d then Some (d, push_env l env, n)
      else do {
        (d', decision) \<leftarrow> voicemail_observe lower d (env_frame env);
        let (es, n') = (case decision of None \<Rightarrow> ([], n) | Some x \<Rightarrow> push_down l n (voicemail_frame x));
        Some (d', push_env l env @ es, n')
      })"

section \<open>A one-shot tap\<close>

text \<open>The frames the detector looks at, as what it sees in them.\<close>

datatype vm_view = Heard ustr | SpeechStart f32 | SpeechStop f32

definition vm_view_of :: "'j frame \<Rightarrow> vm_view option" where
  "vm_view_of f =
     (case f of
        Transcription text _ _ _ \<Rightarrow> Some (Heard text)
      | InterimTranscription text _ _ \<Rightarrow> Some (Heard text)
      | VadUserStartedSpeaking start \<Rightarrow> Some (SpeechStart start)
      | VadUserStoppedSpeaking stop \<Rightarrow> Some (SpeechStop stop)
      | _ \<Rightarrow> None)"

lemma voicemail_observe_view:
  "voicemail_observe lower d f =
     (case vm_view_of f of
        None \<Rightarrow> Some (d, None)
      | Some (Heard t) \<Rightarrow> Some (on_transcript lower d t)
      | Some (SpeechStart x) \<Rightarrow> Some (if turn_started_secs d = None then d\<lparr>turn_started_secs := Some x\<rparr> else d, None)
      | Some (SpeechStop x) \<Rightarrow> on_speech_stop d x)"
  by (cases f) (simp_all add: voicemail_observe_def vm_view_of_def)

interpretation vm: one_shot_tap "voicemail_process lower" "\<lambda>e. e" "\<lambda>f. vm_view_of f \<noteq> None" vm_decided for lower
  by unfold_locales (simp_all add: voicemail_process_def voicemail_observe_view)

lemma as_voicemail_decision_frame [simp]: "as_voicemail_decision (voicemail_frame d) = Some d"
  by (cases d; cases "vd_classification d"; cases "vd_reason d") (auto simp: as_voicemail_decision_def voicemail_frame_def)

section \<open>One decision\<close>

text \<open>A turn the clock can measure.\<close>

definition span_ok :: "f32 \<Rightarrow> f32 \<Rightarrow> bool" where
  "span_ok start stop \<longleftrightarrow> duration_from_secs_f32 (fl_max (fl_sub f32_fmt stop start) (FNum 0)) \<noteq> None"

lemma on_transcript_decided:
  "\<not> vm_decided d \<Longrightarrow> on_transcript lower d t = (d', dec) \<Longrightarrow>
     vm_decided d' = (dec \<noteq> None) \<and> first_turn d' = first_turn d \<and> turn_started_secs d' = turn_started_secs d \<and>
     vm_params d' = vm_params d"
  by (auto simp: on_transcript_def Let_def vm_decide_def split: option.splits if_splits)

lemma on_speech_stop_decided:
  assumes "\<not> vm_decided d" and "first_turn d" and "\<forall>x. turn_started_secs d = Some x \<longrightarrow> span_ok x stop"
  shows "\<exists>d' dec. on_speech_stop d stop = Some (d', Some dec) \<and> vm_decided d'"
proof (cases "turn_started_secs d")
  case None
  then show ?thesis using assms by (simp add: on_speech_stop_def vm_decide_def)
next
  case (Some x)
  then obtain dur where "duration_from_secs_f32 (fl_max (fl_sub f32_fmt stop x) (FNum 0)) = Some dur"
    using assms(3) by (auto simp: span_ok_def)
  then show ?thesis using assms(1,2) Some by (simp add: on_speech_stop_def vm_decide_def Let_def)
qed

definition decisions :: "'j frame list \<Rightarrow> voicemail_decision list" where
  "decisions fs = List.map_filter as_voicemail_decision fs"

lemma decisions_simps [simp]:
  "decisions [] = []"
  "decisions (f # fs) = (case as_voicemail_decision f of None \<Rightarrow> decisions fs | Some d \<Rightarrow> d # decisions fs)"
  "decisions (fs @ gs) = decisions fs @ decisions gs"
  by (simp_all add: decisions_def List.map_filter_simps List.map_filter_def split: option.split)

text \<open>Every start that may meet a stop does so over a span that can be measured.\<close>

definition spans_ok :: "f32 option \<Rightarrow> 'j frame list \<Rightarrow> bool" where
  "spans_ok cur fs \<longleftrightarrow>
     (\<forall>x y. (cur = Some x \<or> VadUserStartedSpeaking x \<in> set fs) \<and> VadUserStoppedSpeaking y \<in> set fs \<longrightarrow> span_ok x y)"

lemma view_start: "vm_view_of f = Some (SpeechStart x) \<longleftrightarrow> f = VadUserStartedSpeaking x"
  by (cases f) (auto simp: vm_view_of_def)

lemma view_stop: "vm_view_of f = Some (SpeechStop x) \<longleftrightarrow> f = VadUserStoppedSpeaking x"
  by (cases f) (auto simp: vm_view_of_def)

lemma observe_step:
  assumes "\<not> vm_decided d" and "first_turn d" and "spans_ok (turn_started_secs d) (f # fs)"
  shows "\<exists>d' dec. voicemail_observe lower d f = Some (d', dec) \<and> vm_decided d' = (dec \<noteq> None) \<and>
    (dec = None \<longrightarrow> first_turn d' \<and> spans_ok (turn_started_secs d') fs \<and> (\<nexists>x. f = VadUserStoppedSpeaking x))"
proof (cases "vm_view_of f")
  case None
  then show ?thesis using assms by (auto simp: voicemail_observe_view spans_ok_def vm_view_of_def)
next
  case (Some v)
  show ?thesis
  proof (cases v)
    case (Heard t)
    obtain d' dec where o: "on_transcript lower d t = (d', dec)" by (cases "on_transcript lower d t")
    have "\<nexists>x. f = VadUserStoppedSpeaking x" using Some Heard by (auto simp: vm_view_of_def)
    then show ?thesis
      using on_transcript_decided [OF assms(1) o] o Some Heard assms(2,3)
      by (auto simp: voicemail_observe_view spans_ok_def)
  next
    case (SpeechStart x)
    then have "f = VadUserStartedSpeaking x" using Some by (simp add: view_start)
    then show ?thesis
      using Some SpeechStart assms by (cases "turn_started_secs d") (auto simp: voicemail_observe_view spans_ok_def)
  next
    case (SpeechStop x)
    then have "f = VadUserStoppedSpeaking x" using Some by (simp add: view_stop)
    then have "\<forall>y. turn_started_secs d = Some y \<longrightarrow> span_ok y x" using assms(3) by (simp add: spans_ok_def)
    then show ?thesis
      using on_speech_stop_decided [OF assms(1,2), of x] Some SpeechStop by (auto simp: voicemail_observe_view)
  qed
qed

lemma vm_run_decisions:
  assumes "l_next l \<noteq> None" and "downstream (\<lambda>e. e) envs"
    and "\<forall>e\<in>set envs. as_voicemail_decision (env_frame e) = None"
    and "\<not> vm_decided d" and "first_turn d" and "spans_ok (turn_started_secs d) (map env_frame envs)"
  shows "\<exists>d' es n'. run_frames (voicemail_process lower) l d envs n = Some (d', es :: 'j eff list, n') \<and>
    filter (\<lambda>f. as_voicemail_decision f = None) (sent_frames es) = map env_frame envs \<and>
    length (decisions (sent_frames es)) \<le> 1 \<and>
    ((\<exists>x. VadUserStoppedSpeaking x \<in> env_frame ` set envs) \<longrightarrow> decisions (sent_frames es) \<noteq> [])"
  using assms(2-)
proof (induction envs arbitrary: d n)
  case (Cons e envs)
  have dn: "env_direction e = Downstream" "downstream (\<lambda>e. e) envs"
    and nd: "as_voicemail_decision (env_frame e) = None" "\<forall>e\<in>set envs. as_voicemail_decision (env_frame e) = None"
    using Cons.prems by simp_all
  obtain d' dec where o: "voicemail_observe lower d (env_frame e) = Some (d', dec)" "vm_decided d' = (dec \<noteq> None)"
    "dec = None \<longrightarrow> first_turn d' \<and> spans_ok (turn_started_secs d') (map env_frame envs) \<and>
      (\<nexists>x. env_frame e = VadUserStoppedSpeaking x)"
    using observe_step [OF Cons.prems(3,4), of "env_frame e" "map env_frame envs" lower] Cons.prems(5) by auto
  show ?case
  proof (cases dec)
    case None
    have "voicemail_process lower l d e n = Some (d', push_env l e, n)"
      using o(1) None Cons.prems(3) by (simp add: voicemail_process_def)
    moreover obtain d2 es n2 where "run_frames (voicemail_process lower) l d' envs n = Some (d2, es, n2)"
      "filter (\<lambda>f. as_voicemail_decision f = None) (sent_frames es) = map env_frame envs"
      "length (decisions (sent_frames es)) \<le> 1"
      "(\<exists>x. VadUserStoppedSpeaking x \<in> env_frame ` set envs) \<longrightarrow> decisions (sent_frames es) \<noteq> []"
      using Cons.IH [OF dn(2) nd(2), of d' n] o(2,3) None by auto
    moreover have "VadUserStoppedSpeaking x \<noteq> env_frame e" for x using o(3) None by metis
    ultimately show ?thesis using dn(1) nd(1) assms(1) by auto
  next
    case (Some x)
    obtain es n1 where p: "push_down l n (voicemail_frame x :: 'j frame) = (es, n1)" by (metis surj_pair)
    have "sent_frames es = [voicemail_frame x]" using sent_frames_push_down [of l n] assms(1) p by (metis fst_conv)
    moreover have "voicemail_process lower l d e n = Some (d', push_env l e @ es, n1)"
      using o(1) Some p Cons.prems(3) by (simp add: voicemail_process_def)
    moreover have "run_frames (voicemail_process lower) l d' envs n1 = Some (d', concat (map (push_env l) envs), n1)"
      "sent_frames (concat (map (push_env l) envs)) = map env_frame envs"
      using vm.run_over_sends [of d' l envs lower n1] o(2) Some assms(1) dn(2) by simp_all
    moreover have "decisions (map env_frame envs) = []" "filter (\<lambda>f. as_voicemail_decision f = None) (map env_frame envs) = map env_frame envs"
      using nd(2) by (induction envs) simp_all
    ultimately show ?thesis using dn(1) nd(1) assms(1) by simp
  qed
qed simp

section \<open>Behind the voice activity detector\<close>

lemma span_zero: "fl_max (fl_sub f32_fmt w w) (FNum 0) = FNum 0"
  by (cases w) (simp_all add: fl_round_def)

lemma duration_zero: "duration_from_secs_f32 (FNum 0) = Some 0"
  by (simp add: duration_from_secs_f32_def round_half_even_def)

abbreviation human :: voicemail_decision where
  "human \<equiv> \<lparr>vd_classification = Conversation, vd_reason = HumanResponse\<rparr>"

text \<open>The frames of a voice activity detector whose windows last \<open>w\<close>: no transcript, and every edge carries \<open>w\<close>.\<close>

definition vad_frame :: "f32 \<Rightarrow> 'j frame \<Rightarrow> bool" where
  "vad_frame w f \<longleftrightarrow> vm_view_of f \<in> {None, Some (SpeechStart w), Some (SpeechStop w)} \<and> as_voicemail_decision f = None"

lemma observe_vad_frame:
  assumes "vad_frame w f" and "0 < long_first_turn (vm_params d)" and "\<not> vm_decided d" and "first_turn d"
    and "turn_started_secs d \<in> {None, Some w}"
  shows "(\<exists>d'. voicemail_observe lower d f = Some (d', Some human) \<and> vm_decided d') \<or>
    (\<exists>d'. voicemail_observe lower d f = Some (d', None) \<and> \<not> vm_decided d' \<and> first_turn d' \<and>
       turn_started_secs d' \<in> {None, Some w} \<and> vm_params d' = vm_params d)"
  using assms
  by (auto simp: vad_frame_def voicemail_observe_view on_speech_stop_def span_zero duration_zero vm_decide_def)

lemma vm_run_vad_frames:
  assumes "l_next l \<noteq> None" and "downstream (\<lambda>e. e) envs" and "\<forall>e\<in>set envs. vad_frame w (env_frame e)"
    and "0 < long_first_turn (vm_params d)" and "\<not> vm_decided d" and "first_turn d"
    and "turn_started_secs d \<in> {None, Some w}"
  shows "\<exists>d' es n'. run_frames (voicemail_process lower) l d envs n = Some (d', es :: 'j eff list, n') \<and>
    set (decisions (sent_frames es)) \<subseteq> {human}"
  using assms(2-)
proof (induction envs arbitrary: d n)
  case (Cons e envs)
  have dn: "env_direction e = Downstream" "downstream (\<lambda>e. e) envs" "vad_frame w (env_frame e)"
    "\<forall>e\<in>set envs. vad_frame w (env_frame e)" using Cons.prems by simp_all
  have nd: "as_voicemail_decision (env_frame e) = None" using dn(3) by (simp add: vad_frame_def)
  from observe_vad_frame [OF dn(3) Cons.prems(3-), of lower] show ?case
  proof (elim disjE exE conjE)
    fix d' assume o: "voicemail_observe lower d (env_frame e) = Some (d', Some human)" "vm_decided d'"
    obtain es n1 where p: "push_down l n (voicemail_frame human :: 'j frame) = (es, n1)" by (metis surj_pair)
    have "sent_frames es = [voicemail_frame human]" using sent_frames_push_down [of l n] assms(1) p by (metis fst_conv)
    moreover have "voicemail_process lower l d e n = Some (d', push_env l e @ es, n1)"
      using o(1) p Cons.prems(4) by (simp add: voicemail_process_def)
    moreover have "decisions (map env_frame envs) = []"
      using dn(4) by (induction envs) (simp_all add: vad_frame_def)
    ultimately show ?case
      using vm.run_over_sends [of d' l envs lower n1] o(2) assms(1) dn(1,2) nd by simp
  next
    fix d' assume o: "voicemail_observe lower d (env_frame e) = Some (d', None)" "\<not> vm_decided d'" "first_turn d'"
      "turn_started_secs d' \<in> {None, Some w}" "vm_params d' = vm_params d"
    have "voicemail_process lower l d e n = Some (d', push_env l e, n)"
      using o(1) Cons.prems(4) by (simp add: voicemail_process_def)
    moreover obtain d2 es n2 where "run_frames (voicemail_process lower) l d' envs n = Some (d2, es, n2)"
      "set (decisions (sent_frames es)) \<subseteq> {human}"
      using Cons.IH [OF dn(2,4) _ o(2,3,4), of n] Cons.prems(3) o(5) by auto
    ultimately show ?case using dn(1) nd assms(1) by simp
  qed
qed simp

text \<open>What the voice activity processor sends.\<close>

fun sent_down :: "'j eff list \<Rightarrow> 'j envelope list" where
  "sent_down [] = []"
| "sent_down (Send tx e # es) = (if env_direction e = Downstream then e # sent_down es else sent_down es)"
| "sent_down (_ # es) = sent_down es"

lemma sent_down_downstream: "downstream (\<lambda>e. e) (sent_down es)"
  by (induction es rule: sent_down.induct) simp_all

lemma sent_down_frames: "e \<in> set (sent_down es) \<Longrightarrow> env_frame e \<in> set (sent_frames es)"
  by (induction es rule: sent_down.induct) (auto split: if_splits)

lemma vad_frame_own:
  "vad_frame w (VadUserStartedSpeaking w)" "vad_frame w (VadUserStoppedSpeaking w)" "vad_frame w UserStartedSpeaking"
  "vad_frame w UserStoppedSpeaking" "vad_frame w Interruption"
  by (simp_all add: vad_frame_def vm_view_of_def as_voicemail_decision_def)

lemma sent_frames_broadcast: "set (sent_frames (fst (broadcast l n f))) \<subseteq> {f}"
  by (simp add: broadcast_def Let_def case_prod_unfold)

definition same_window :: "'a vad_processor \<Rightarrow> 'a vad_processor \<Rightarrow> bool" where
  "same_window p p' \<longleftrightarrow> vp_window_samples p' = vp_window_samples p \<and> vp_sample_rate p' = vp_sample_rate p"

lemma same_window_secs: "same_window p p' \<Longrightarrow> window_secs p' = window_secs p"
  by (simp add: same_window_def window_secs_def)

lemma vad_edge_sends:
  fixes p :: "'a vad_processor"
  assumes "vad_edge l p s n = (p', es :: 'j eff list, n')"
  shows "(\<forall>f\<in>set (sent_frames es). vad_frame (window_secs p) f) \<and> same_window p p'"
proof -
  have b: "\<forall>f\<in>set (sent_frames (fst (snd (barge_in l p k)) :: 'j eff list)). vad_frame w f" for k w
    using sent_frames_broadcast [of l k "Interruption :: 'j frame"] vad_frame_own(5) [of w]
    by (auto simp: barge_in_def Let_def case_prod_unfold)
  have "es = fst (snd (vad_edge l p s n))" "p' = fst (vad_edge l p s n :: 'a vad_processor \<times> 'j eff list \<times> u64)" by (simp_all add: assms)
  then show ?thesis
    using b vad_frame_own
    by (auto simp: vad_edge_def same_window_def barge_in_def Let_def case_prod_unfold)
qed

lemma vad_drain_sends:
  assumes "vad_drain_windows analyze l p n = (p', es :: 'j eff list, n')"
  shows "(\<forall>f\<in>set (sent_frames es). vad_frame (window_secs p) f) \<and> same_window p p'"
  using assms
proof (induction "length (vp_buffer p)" arbitrary: p n es p' n' rule: less_induct)
  case less
  let ?w = "vp_window_samples p"
  show ?case
  proof (cases "0 < ?w \<and> ?w \<le> length (vp_buffer p)")
    case False
    then show ?thesis using less.prems by (auto simp: vad_drain_windows.simps Let_def same_window_def)
  next
    case True
    define s where "s = snd (analyze (vp_analyzer p) (mono (take ?w (vp_buffer p)) (vp_sample_rate p)))"
    define p1 where "p1 = p\<lparr>vp_buffer := drop ?w (vp_buffer p),
      vp_analyzer := fst (analyze (vp_analyzer p) (mono (take ?w (vp_buffer p)) (vp_sample_rate p)))\<rparr>"
    obtain p2 e1 n1 where e: "vad_edge l p1 s n = (p2, e1 :: 'j eff list, n1)" by (metis prod_cases3)
    obtain p3 e2 n2 where d: "vad_drain_windows analyze l (p2\<lparr>last_state := s\<rparr>) n1 = (p3, e2 :: 'j eff list, n2)"
      by (metis prod_cases3)
    have res: "p' = p3" "es = e1 @ e2"
      using less.prems True e d
      by (subst (asm) vad_drain_windows.simps, simp add: Let_def case_prod_unfold p1_def s_def)+
    have sw: "same_window p (p2\<lparr>last_state := s\<rparr>)"
      using vad_edge_sends [OF e] by (simp add: same_window_def p1_def)
    have "length (vp_buffer (p2\<lparr>last_state := s\<rparr>)) < length (vp_buffer p)"
      using vad_edge_fields [OF e] True by (auto simp: p1_def)
    note IH = less.hyps [OF this d]
    have "window_secs p1 = window_secs p" by (simp add: window_secs_def p1_def)
    then show ?thesis
      using IH vad_edge_sends [OF e] res sw same_window_secs [OF sw] by (auto simp: same_window_def)
  qed
qed

lemma vad_process_sends:
  assumes "vad_process analyze l p e n = (p', es :: 'j eff list, n', r)" and "vad_frame (window_secs p) (env_frame e)"
  shows "(\<forall>f\<in>set (sent_frames es). vad_frame (window_secs p) f) \<and> same_window p p'"
proof -
  have pe: "\<forall>f\<in>set (sent_frames (push_env l e)). vad_frame (window_secs p) f" using assms(2) by simp
  show ?thesis
  proof (cases "\<exists>audio. env_frame e = InputAudio audio")
    case True
    then obtain audio where f: "env_frame e = InputAudio audio" by blast
    obtain p1 e1 n1 where d: "vad_drain_windows analyze l (p\<lparr>vp_buffer := vp_buffer p @ pcm audio\<rparr>) n = (p1, e1 :: 'j eff list, n1)"
      by (metis prod_cases3)
    have "window_secs (p\<lparr>vp_buffer := vp_buffer p @ pcm audio\<rparr>) = window_secs p" by (simp add: window_secs_def)
    then show ?thesis
      using vad_drain_sends [OF d] assms(1) d f pe by (auto simp: vad_process_def Let_def same_window_def)
  next
    case False
    have "\<exists>b. p' = p\<lparr>bot_speaking := b\<rparr> \<and> es = push_env l e"
    proof (cases "env_frame e = BotStartedSpeaking \<or> env_frame e = BotStoppedSpeaking")
      case True
      then show ?thesis using assms(1) by (auto simp: vad_process_def)
    next
      case False
      then have "p' = p\<lparr>bot_speaking := bot_speaking p\<rparr>" "es = push_env l e"
        using assms(1) \<open>\<not> (\<exists>audio. env_frame e = InputAudio audio)\<close>
        by (cases "env_frame e"; simp add: vad_process_def)+
      then show ?thesis by blast
    qed
    then show ?thesis using pe by (auto simp: same_window_def)
  qed
qed

lemma vad_run_sends:
  assumes "vad_run analyze l p envs n = (p', es :: 'j eff list, n')" and "\<forall>e\<in>set envs. vad_frame (window_secs p) (env_frame e)"
  shows "\<forall>f\<in>set (sent_frames es). vad_frame (window_secs p) f"
  using assms
proof (induction envs arbitrary: p n es p' n')
  case (Cons e envs)
  obtain p1 x n1 r where s: "vad_process analyze l p e n = (p1, x :: 'j eff list, n1, r)" by (metis prod_cases4)
  obtain p2 y n2 where t: "vad_run analyze l p1 envs n1 = (p2, y :: 'j eff list, n2)" by (metis prod_cases3)
  have x: "\<forall>f\<in>set (sent_frames x). vad_frame (window_secs p) f" "window_secs p1 = window_secs p"
    using vad_process_sends [OF s] Cons.prems(2) same_window_secs by auto
  have "\<forall>f\<in>set (sent_frames y). vad_frame (window_secs p) f" using Cons.IH [OF t] Cons.prems(2) x(2) by simp
  then show ?case using Cons.prems(1) s t x(1) by auto
qed simp

section \<open>A worked call\<close>

definition demo_speech :: "unit envelope list" where
  "demo_speech = map (\<lambda>f. fst (envelope_new 0 f Downstream))
     [VadUserStartedSpeaking (FNum 1), InterimTranscription (lit ''hello'') [] None, VadUserStoppedSpeaking (FNum 1)]"

section \<open>Properties\<close>

text \<open>C18. The detector decides at most once, and has decided by the end of the first turn: whatever frames
  arrive (their spans measurable, none a decision itself), it forwards all of them in order and adds at most
  one decision, exactly one if the voice activity detector reported an end of speech.\<close>

theorem voicemail_decides_once:
  assumes "l_next l \<noteq> None" and "downstream (\<lambda>e. e) envs"
    and "\<forall>e\<in>set envs. as_voicemail_decision (env_frame e) = None"
    and "spans_ok None (map env_frame envs)"
  shows "\<exists>d' es n'. run_frames (voicemail_process lower) l (voicemail_new ps) envs n = Some (d', es, n') \<and>
    filter (\<lambda>f. as_voicemail_decision f = None) (sent_frames es) = map env_frame envs \<and>
    length (decisions (sent_frames es)) \<le> 1 \<and>
    ((\<exists>x. VadUserStoppedSpeaking x \<in> env_frame ` set envs) \<longrightarrow> length (decisions (sent_frames es)) = 1)"
proof -
  obtain d' es n' where r: "run_frames (voicemail_process lower) l (voicemail_new ps) envs n = Some (d', es, n')"
    "filter (\<lambda>f. as_voicemail_decision f = None) (sent_frames es) = map env_frame envs"
    "length (decisions (sent_frames es)) \<le> 1"
    "(\<exists>x. VadUserStoppedSpeaking x \<in> env_frame ` set envs) \<longrightarrow> decisions (sent_frames es) \<noteq> []"
    using vm_run_decisions [OF assms(1-3), of "voicemail_new ps" lower n] assms(4) by (auto simp: voicemail_new_def)
  moreover have "length (decisions (sent_frames es)) = 1" if "decisions (sent_frames es) \<noteq> []"
    using that r(3) by (cases "decisions (sent_frames es)") simp_all
  ultimately show ?thesis by blast
qed

theorem voicemail_decides_once_witness:
  "\<exists>d' es n'. run_frames (voicemail_process (\<lambda>s. s)) demo_link (voicemail_new voicemail_params_default) demo_speech 0 =
      Some (d', es, n') \<and> length (decisions (sent_frames es)) = 1"
proof -
  have fs: "map env_frame demo_speech =
      [VadUserStartedSpeaking (FNum 1), InterimTranscription (lit ''hello'') [] None, VadUserStoppedSpeaking (FNum 1)]"
    and d: "downstream (\<lambda>e. e) demo_speech"
    by (simp_all add: demo_speech_def envelope_new_def Let_def case_prod_unfold)
  have span: "span_ok (FNum 1) (FNum 1)" unfolding span_ok_def span_zero duration_zero by simp
  have sp: "spans_ok None (map env_frame demo_speech)" using span by (auto simp: fs spans_ok_def)
  have nd: "\<forall>e\<in>set demo_speech. as_voicemail_decision (env_frame e) = None"
    by (simp add: demo_speech_def envelope_new_def Let_def case_prod_unfold as_voicemail_decision_def)
  have st: "\<exists>x. VadUserStoppedSpeaking x \<in> env_frame ` set demo_speech"
    unfolding set_map [symmetric] fs by auto
  have "l_next demo_link \<noteq> None" by (simp add: demo_link_def)
  from voicemail_decides_once [OF this d nd sp, of "\<lambda>s. s" voicemail_params_default 0] st
  show ?thesis by blast
qed

text \<open>Behind the voice activity processor the duration heuristic is dead: both edges carry the length of
  one analysis window, so the difference the detector takes is zero. Without transcripts it classifies a first
  turn of any length as a human answering, whatever positive threshold is configured.\<close>

lemma voicemail_duration_never_fires:
  assumes "vad_run analyze l p envs n = (p', es, n')" and "\<forall>e\<in>set envs. vad_frame (window_secs p) (env_frame e)"
    and "l_next l' \<noteq> None" and "0 < long_first_turn ps"
  shows "\<exists>d' out m'. run_frames (voicemail_process lower) l' (voicemail_new ps) (sent_down es) m = Some (d', out, m') \<and>
    set (decisions (sent_frames out)) \<subseteq> {\<lparr>vd_classification = Conversation, vd_reason = HumanResponse\<rparr>}"
  using vm_run_vad_frames [OF assms(3) sent_down_downstream, of es "window_secs p" "voicemail_new ps" lower m]
    vad_run_sends [OF assms(1,2)] sent_down_frames [of _ es] assms(4)
  by (auto simp: voicemail_new_def)

end
