(* ===== verification/Wake_Word.thy ===== *)
theory Wake_Word
  imports Frame_Taps
begin

text \<open>
  Wake-word gating, \<^verbatim>\<open>flowcat-core/src/agent/wakeword.rs\<close>: the filter that withholds a user's transcripts until a
  wake phrase is heard, and the notifier that calls back on matching frames.

  \<open>lower\<close> is \<open>str::to_lowercase\<close> (Unicode data beyond ASCII). Times are nanoseconds read from the filter's
  clock, one reading per transcript. Offsets are in bytes, as in the source: a slice off a character
  boundary is the panic \<open>None\<close>.
\<close>

section \<open>The filter\<close>

datatype wake_state = Idle | Awake

record participant_state =
  wake_st :: wake_state
  wake_timer :: nat
  wake_acc :: ustr

definition participant_new :: participant_state where
  "participant_new = \<lparr>wake_st = Idle, wake_timer = 0, wake_acc = []\<rparr>"

record wake_filter =
  wake_phrases :: "ustr list list"
  wake_keepalive :: nat
  participants :: "ustr \<rightharpoonup> participant_state"

definition wake_filter_new :: "(ustr \<Rightarrow> ustr) \<Rightarrow> ustr list \<Rightarrow> nat \<Rightarrow> wake_filter" where
  "wake_filter_new lower phrases keepalive =
     \<lparr>wake_phrases = map (\<lambda>p. map lower (split_whitespace p)) phrases, wake_keepalive = keepalive,
      participants = (\<lambda>_. None)\<rparr>"

text \<open>\<open>word_offsets\<close>: the words with the byte offsets at which a search from the last word's end finds them.\<close>

fun word_offsets_from :: "ustr \<Rightarrow> nat \<Rightarrow> ustr list \<Rightarrow> (nat \<times> ustr) list option" where
  "word_offsets_from s idx [] = Some []"
| "word_offsets_from s idx (w # ws) = do {
     (_, rest) \<leftarrow> split_at_byte idx s;
     (case find_split w rest of
        Some (pre, _) \<Rightarrow> do {
          let pos = idx + byte_len pre;
          out \<leftarrow> word_offsets_from s (pos + byte_len w) ws;
          Some ((pos, w) # out)
        }
      | None \<Rightarrow> word_offsets_from s idx ws)
   }"

definition word_offsets :: "ustr \<Rightarrow> (nat \<times> ustr) list option" where
  "word_offsets s = word_offsets_from s 0 (split_whitespace s)"

text \<open>The phrase at the head of the words, slid over all starts.\<close>

fun match_phrase :: "ustr list \<Rightarrow> (nat \<times> ustr) list \<Rightarrow> nat option" where
  "match_phrase phrase [] = None"
| "match_phrase phrase (w # ws) =
     (if length (w # ws) < length phrase then None
      else if list_all2 (\<lambda>x p. snd x = p) (take (length phrase) (w # ws)) phrase then Some (fst w)
      else match_phrase phrase ws)"

fun match_phrases :: "ustr list list \<Rightarrow> (nat \<times> ustr) list \<Rightarrow> nat option" where
  "match_phrases [] ws = None"
| "match_phrases (p # ps) ws =
     (if p = [] then match_phrases ps ws
      else case match_phrase p ws of Some i \<Rightarrow> Some i | None \<Rightarrow> match_phrases ps ws)"

definition match_wake :: "(ustr \<Rightarrow> ustr) \<Rightarrow> ustr list list \<Rightarrow> ustr \<Rightarrow> nat option option" where
  "match_wake lower phrases haystack = do {
     words \<leftarrow> word_offsets (lower haystack);
     Some (match_phrases phrases words)
   }"

definition append_fragment :: "ustr \<Rightarrow> ustr \<Rightarrow> ustr" where
  "append_fragment acc text =
     (if acc \<noteq> [] \<and> \<not> is_whitespace (last acc) then acc @ [32] else acc) @ text"

text \<open>One transcript of one participant: whether it passes, and as what text.\<close>

definition wake_hear ::
  "(ustr \<Rightarrow> ustr) \<Rightarrow> ustr list list \<Rightarrow> nat \<Rightarrow> nat \<Rightarrow> participant_state \<Rightarrow> ustr \<Rightarrow>
     (participant_state \<times> ustr option) option" where
  "wake_hear lower phrases keepalive now p text =
     (if wake_st p = Awake \<and> now - wake_timer p < keepalive then Some (p\<lparr>wake_timer := now\<rparr>, Some text)
      else do {
        let p1 = p\<lparr>wake_st := Idle, wake_acc := append_fragment (wake_acc p) text\<rparr>;
        m \<leftarrow> match_wake lower phrases (wake_acc p1);
        (case m of
           None \<Rightarrow> Some (p1, None)
         | Some start \<Rightarrow> do {
             (_, gated) \<leftarrow> split_at_byte start (wake_acc p1);
             Some (p1\<lparr>wake_st := Awake, wake_timer := now, wake_acc := []\<rparr>, Some gated)
           })
      })"

definition wake_process :: "(ustr \<Rightarrow> ustr) \<Rightarrow> (wake_filter, nat \<times> 'j envelope, 'j) tap_step" where
  "wake_process lower l s x n =
     (let (now, env) = x
      in case env_frame env of
           Transcription text user_id language final \<Rightarrow> do {
             let p = (case participants s user_id of Some p \<Rightarrow> p | None \<Rightarrow> participant_new);
             (p', out) \<leftarrow> wake_hear lower (wake_phrases s) (wake_keepalive s) now p text;
             let s' = s\<lparr>participants := (participants s)(user_id \<mapsto> p')\<rparr>;
             Some (s', case out of
                None \<Rightarrow> []
              | Some t \<Rightarrow> push l (env_meta env) (Transcription t user_id language final) (env_direction env), n)
           }
         | _ \<Rightarrow> Some (s, push_env l env, n))"

section \<open>The notifier\<close>

record 'j wake_notifier =
  wn_kinds :: "frame_kind list"
  wn_predicate :: "'j frame \<Rightarrow> bool"

text \<open>The number of calls of the notifier, and the forwarded frame.\<close>

definition wake_notifier_process ::
  "'j wake_notifier \<Rightarrow> link \<Rightarrow> 'j envelope \<Rightarrow> nat \<times> 'j eff list" where
  "wake_notifier_process w l env =
     (if kind (env_frame env) \<in> set (wn_kinds w) \<and> wn_predicate w (env_frame env) then 1 else 0, push_env l env)"

section \<open>The filter is a tap\<close>

definition spoken :: "'j frame \<Rightarrow> (ustr \<times> ustr) option" where
  "spoken f = (case f of Transcription text user_id _ _ \<Rightarrow> Some (text, user_id) | _ \<Rightarrow> None)"

interpretation wake: frame_tap "wake_process lower" snd "\<lambda>f. spoken f \<noteq> None" for lower
proof
  fix x :: "nat \<times> 'j envelope" and lower l s n
  assume "\<not> spoken (env_frame (snd x)) \<noteq> None"
  then show "wake_process lower l s x n = Some (s, push_env l (snd x), n)"
    by (cases x; cases "env_frame (snd x)") (simp_all add: wake_process_def spoken_def)
qed

section \<open>Offsets of words\<close>

lemma find_split_word:
  assumes "\<forall>c\<in>set ws. is_whitespace c" and "w \<noteq> []" and "\<not> is_whitespace (hd w)"
  shows "find_split w (ws @ w @ r) = Some (ws, r)"
  using assms(1)
proof (induction ws)
  case Nil
  obtain c cs where "w = c # cs" using assms(2) by (cases w) auto
  then show ?case using strip_prefix_append [of w r] by simp
next
  case (Cons c ws)
  obtain d ds where w: "w = d # ds" using assms(2) by (cases w) auto
  then have "d \<noteq> c" using Cons.prems assms(3) by auto
  then show ?case using Cons w by simp
qed

lemma split_whitespace_step:
  assumes "dropWhile is_whitespace s \<noteq> []"
  obtains ws w r where "s = ws @ w @ r" "\<forall>c\<in>set ws. is_whitespace c" "w \<noteq> []" "\<not> is_whitespace (hd w)"
    "split_whitespace s = w # split_whitespace r" "split_whitespace (w @ r) = split_whitespace s"
    "length r < length s"
proof -
  let ?t = "dropWhile is_whitespace s"
  let ?w = "takeWhile (\<lambda>c. \<not> is_whitespace c) ?t" and ?r = "dropWhile (\<lambda>c. \<not> is_whitespace c) ?t"
  have h: "\<not> is_whitespace (hd ?t)" using assms by (rule hd_dropWhile)
  have w: "?w \<noteq> []" "hd ?w = hd ?t" using assms h by (cases ?t; simp)+
  have s: "s = takeWhile is_whitespace s @ ?w @ ?r" by simp
  have sw: "split_whitespace s = ?w # split_whitespace ?r"
    using assms by (subst split_whitespace.simps) (simp add: Let_def)
  have "dropWhile is_whitespace ?t = ?t" using h assms by (cases ?t) simp_all
  then have "split_whitespace ?t = ?w # split_whitespace ?r"
    using assms by (subst split_whitespace.simps) (simp add: Let_def)
  moreover have "length ?r < length s"
    using arg_cong [OF s, of length] w(1) by (metis add_less_cancel_right add_lessD1 length_append length_greater_0_conv less_add_same_cancel2 trans_less_add2)
  ultimately show ?thesis using that [OF s _ w(1)] h w(2) sw by (auto dest: set_takeWhileD)
qed

lemma word_offsets_from_ok:
  "\<exists>offs. word_offsets_from (dn @ s) (byte_len dn) (split_whitespace s) = Some offs \<and>
     map snd offs = split_whitespace s \<and>
     (\<forall>k<length offs. \<exists>pre post. dn @ s = pre @ post \<and> byte_len pre = fst (offs ! k) \<and>
        split_whitespace post = drop k (split_whitespace s))"
proof (induction "length s" arbitrary: dn s rule: less_induct)
  case less
  show ?case
  proof (cases "dropWhile is_whitespace s = []")
    case True
    then show ?thesis by (simp add: split_whitespace.simps [of s])
  next
    case False
    then obtain ws w r where s: "s = ws @ w @ r" "\<forall>c\<in>set ws. is_whitespace c" "w \<noteq> []" "\<not> is_whitespace (hd w)"
      "split_whitespace s = w # split_whitespace r" "split_whitespace (w @ r) = split_whitespace s" "length r < length s"
      by (rule split_whitespace_step)
    obtain offs where o: "word_offsets_from ((dn @ ws @ w) @ r) (byte_len (dn @ ws @ w)) (split_whitespace r) = Some offs"
      "map snd offs = split_whitespace r"
      "\<forall>k<length offs. \<exists>pre post. (dn @ ws @ w) @ r = pre @ post \<and> byte_len pre = fst (offs ! k) \<and>
        split_whitespace post = drop k (split_whitespace r)"
      using less.hyps [OF s(7), of "dn @ ws @ w"] by blast
    let ?offs = "(byte_len dn + byte_len ws, w) # offs"
    have run: "word_offsets_from (dn @ s) (byte_len dn) (split_whitespace s) = Some ?offs"
      using o(1) find_split_word [OF s(2-4), of r] unfolding s(5) by (simp add: s(1) add.assoc)
    have "\<exists>pre post. dn @ s = pre @ post \<and> byte_len pre = fst (?offs ! k) \<and>
        split_whitespace post = drop k (split_whitespace s)" if kl: "k < length ?offs" for k
    proof (cases k)
      case 0
      then show ?thesis using s(1,6) by (intro exI [of _ "dn @ ws"] exI [of _ "w @ r"]) simp
    next
      case (Suc j)
      then obtain pre post where "(dn @ ws @ w) @ r = pre @ post" "byte_len pre = fst (offs ! j)"
        "split_whitespace post = drop j (split_whitespace r)"
        using o(3) kl by auto
      then show ?thesis using Suc s(1,5) by (intro exI [of _ pre] exI [of _ post]) simp
    qed
    then show ?thesis using run o(2) s(5) by (intro exI [of _ ?offs]) simp
  qed
qed

lemma word_offsets_ok:
  obtains offs where "word_offsets s = Some offs" "map snd offs = split_whitespace s"
    "\<And>k. k < length offs \<Longrightarrow> \<exists>pre post. s = pre @ post \<and> byte_len pre = fst (offs ! k) \<and>
       split_whitespace post = drop k (split_whitespace s)"
  using word_offsets_from_ok [of "[]" s] by (auto simp: word_offsets_def)

section \<open>Phrases\<close>

definition says :: "ustr list \<Rightarrow> ustr list \<Rightarrow> bool" where
  "says phrase ws \<longleftrightarrow> (\<exists>rest. ws = phrase @ rest)"

lemma take_says: "says phrase ws \<longleftrightarrow> take (length phrase) ws = phrase"
  by (auto simp: says_def) (metis append_take_drop_id)

lemma all2_snd: "list_all2 (\<lambda>x p. snd x = p) xs ps \<longleftrightarrow> map snd xs = ps"
  by (auto simp: list_all2_conv_all_nth list_eq_iff_nth_eq)

lemma match_phrase_None: "phrase \<noteq> [] \<Longrightarrow> match_phrase phrase ws = None \<longleftrightarrow> (\<forall>k. \<not> says phrase (drop k (map snd ws)))"
proof (induction phrase ws rule: match_phrase.induct)
  case (1 phrase)
  then show ?case by (simp add: says_def)
next
  case (2 phrase w ws)
  have all: "(\<forall>k. \<not> says phrase (drop k (map snd (w # ws)))) \<longleftrightarrow>
      \<not> says phrase (map snd (w # ws)) \<and> (\<forall>k. \<not> says phrase (drop k (map snd ws)))"
    by (metis drop0 drop_Suc_Cons list.simps(9) not0_implies_Suc)
  show ?case
  proof (cases "length (w # ws) < length phrase")
    case True
    then have "\<not> says phrase (drop k (map snd (w # ws)))" for k
      by (auto simp: says_def dest!: arg_cong [of _ _ length])
    then show ?thesis using True by simp
  next
    case False
    then show ?thesis
      using 2 all by (auto simp: all2_snd take_map [symmetric] take_says)
  qed
qed

lemma match_phrase_Some:
  "match_phrase phrase ws = Some i \<Longrightarrow> \<exists>k<length ws. i = fst (ws ! k) \<and> says phrase (drop k (map snd ws))"
proof (induction phrase ws rule: match_phrase.induct)
  case (2 phrase w ws)
  show ?case
  proof (cases "says phrase (map snd (w # ws))")
    case True
    then show ?thesis using 2 by (intro exI [of _ 0]) (auto simp: all2_snd take_map [symmetric] take_says split: if_splits)
  next
    case False
    then have "match_phrase phrase ws = Some i" "\<not> length (w # ws) < length phrase"
      using "2.prems" by (auto simp: all2_snd take_map [symmetric] take_says split: if_splits)
    then obtain k where "k < length ws" "i = fst (ws ! k)" "says phrase (drop k (map snd ws))"
      using 2 False by (auto simp: all2_snd take_map [symmetric] take_says)
    then show ?thesis by (intro exI [of _ "Suc k"]) simp
  qed
qed simp

lemma match_phrases_None:
  "match_phrases ps ws = None \<longleftrightarrow> (\<forall>p\<in>set ps. p \<noteq> [] \<longrightarrow> (\<forall>k. \<not> says p (drop k (map snd ws))))"
proof (induction ps)
  case (Cons p ps)
  then show ?case using match_phrase_None [of p ws] by (cases "p = []"; cases "match_phrase p ws") simp_all
qed simp

lemma match_phrases_Some:
  "match_phrases ps ws = Some i \<Longrightarrow>
     \<exists>p\<in>set ps. p \<noteq> [] \<and> (\<exists>k<length ws. i = fst (ws ! k) \<and> says p (drop k (map snd ws)))"
  by (induction ps) (auto split: if_splits option.splits dest: match_phrase_Some)

section \<open>What is heard\<close>

text \<open>Some wake phrase occurs as consecutive whole words.\<close>

definition woken :: "ustr list list \<Rightarrow> ustr list \<Rightarrow> bool" where
  "woken phrases ws \<longleftrightarrow> (\<exists>p\<in>set phrases. p \<noteq> [] \<and> (\<exists>before rest. ws = before @ p @ rest))"

lemma woken_drop: "woken phrases ws \<longleftrightarrow> (\<exists>p\<in>set phrases. p \<noteq> [] \<and> (\<exists>k. says p (drop k ws)))"
proof -
  have "(\<exists>before rest. ws = before @ p @ rest) \<longleftrightarrow> (\<exists>k. says p (drop k ws))" for p
  proof
    assume "\<exists>before rest. ws = before @ p @ rest"
    then obtain before rest where "ws = before @ p @ rest" by blast
    then have "says p (drop (length before) ws)" by (simp add: says_def)
    then show "\<exists>k. says p (drop k ws)" ..
  next
    assume "\<exists>k. says p (drop k ws)"
    then obtain k rest where "drop k ws = p @ rest" by (auto simp: says_def)
    then have "ws = take k ws @ p @ rest" by (metis append_take_drop_id)
    then show "\<exists>before rest. ws = before @ p @ rest" by blast
  qed
  then show ?thesis by (simp add: woken_def)
qed

lemma match_wake_ok:
  shows "(\<exists>m. match_wake lower phrases h = Some m \<and> (m = None \<longleftrightarrow> \<not> woken phrases (split_whitespace (lower h))) \<and>
    (\<forall>i. m = Some i \<longrightarrow> (\<exists>pre post. lower h = pre @ post \<and> byte_len pre = i \<and>
       (\<exists>p\<in>set phrases. p \<noteq> [] \<and> says p (split_whitespace post)))))"
proof -
  obtain offs where o: "word_offsets (lower h) = Some offs" "map snd offs = split_whitespace (lower h)"
    "\<And>k. k < length offs \<Longrightarrow> \<exists>pre post. lower h = pre @ post \<and> byte_len pre = fst (offs ! k) \<and>
       split_whitespace post = drop k (split_whitespace (lower h))"
    by (rule word_offsets_ok [of "lower h"]) blast
  have "match_phrases phrases offs = None \<longleftrightarrow> \<not> woken phrases (split_whitespace (lower h))"
    by (auto simp: match_phrases_None woken_drop o(2))
  moreover have "\<exists>pre post. lower h = pre @ post \<and> byte_len pre = i \<and>
       (\<exists>p\<in>set phrases. p \<noteq> [] \<and> says p (split_whitespace post))" if mp: "match_phrases phrases offs = Some i" for i
  proof -
    obtain p k where "p \<in> set phrases" "p \<noteq> []" "k < length offs" "i = fst (offs ! k)"
      "says p (drop k (split_whitespace (lower h)))"
      using match_phrases_Some [OF mp] o(2) by auto
    then show ?thesis using o(3) [of k] by metis
  qed
  ultimately show ?thesis by (simp add: match_wake_def o(1))
qed

text \<open>Where lower-casing keeps every character's width, its byte offsets are those of the original.\<close>

definition same_widths :: "ustr \<Rightarrow> ustr \<Rightarrow> bool" where
  "same_widths s t \<longleftrightarrow> map len_utf8 s = map len_utf8 t"

lemma split_same_widths:
  assumes "same_widths (pre @ post) t"
  shows "\<exists>a b. t = a @ b \<and> split_at_byte (byte_len pre) t = Some (a, b) \<and> length a = length pre"
proof -
  let ?a = "take (length pre) t"
  have "map len_utf8 ?a = map len_utf8 pre"
    using assms by (simp add: same_widths_def take_map [symmetric]) (metis append_eq_conv_conj length_map)
  then have "byte_len ?a = byte_len pre" "length ?a = length pre"
    unfolding byte_len_def by (metis, metis length_map)
  then show ?thesis
    using split_at_byte_append [of ?a "drop (length pre) t"] by (intro exI [of _ ?a] exI [of _ "drop (length pre) t"]) simp
qed

definition demo_lower :: "ustr \<Rightarrow> ustr" where
  "demo_lower s = concat (map (\<lambda>c. if c = 304 then [105, 775] else if 65 \<le> c \<and> c \<le> 90 then [c + 32] else [c]) s)"

definition demo_gate :: wake_filter where
  "demo_gate = wake_filter_new demo_lower [[233]] 5"

section \<open>Properties\<close>

text \<open>The gate opens exactly on a wake phrase. For a user who is not awake within the keepalive window, and
  whose accumulated text keeps its character widths when lower-cased: the filter does not panic; if no wake
  phrase occurs as whole words in the accumulated text, the transcript is withheld and the text kept; otherwise
  the end of the accumulated text from a wake phrase on passes, the text is dropped and the user is awake.\<close>

lemma wake_gate_exact:
  assumes "\<not> (wake_st p = Awake \<and> now - wake_timer p < keepalive)"
    and "same_widths (lower (append_fragment (wake_acc p) text)) (append_fragment (wake_acc p) text)"
  shows "\<exists>p' out. wake_hear lower phrases keepalive now p text = Some (p', out) \<and>
    (if woken phrases (split_whitespace (lower (append_fragment (wake_acc p) text)))
     then p' = \<lparr>wake_st = Awake, wake_timer = now, wake_acc = []\<rparr> \<and>
       (\<exists>before gated. out = Some gated \<and> append_fragment (wake_acc p) text = before @ gated \<and>
          (\<exists>ph\<in>set phrases. ph \<noteq> [] \<and> says ph (split_whitespace
             (drop (length before) (lower (append_fragment (wake_acc p) text))))))
     else out = None \<and> p' = p\<lparr>wake_st := Idle, wake_acc := append_fragment (wake_acc p) text\<rparr>)"
proof -
  let ?acc = "append_fragment (wake_acc p) text"
  obtain m where m: "match_wake lower phrases ?acc = Some m"
    "m = None \<longleftrightarrow> \<not> woken phrases (split_whitespace (lower ?acc))"
    "\<And>i. m = Some i \<Longrightarrow> \<exists>pre post. lower ?acc = pre @ post \<and> byte_len pre = i \<and>
       (\<exists>ph\<in>set phrases. ph \<noteq> [] \<and> says ph (split_whitespace post))"
    using match_wake_ok [of lower phrases ?acc] by metis
  show ?thesis
  proof (cases m)
    case None
    then show ?thesis using assms(1) m(1,2) by (auto simp: wake_hear_def Let_def)
  next
    case (Some i)
    obtain pre post ph where d: "lower ?acc = pre @ post" "byte_len pre = i" "ph \<in> set phrases" "ph \<noteq> []"
      "says ph (split_whitespace post)" using m(3) [OF Some] by blast
    obtain a b where ab: "?acc = a @ b" "split_at_byte i ?acc = Some (a, b)" "length a = length pre"
      using split_same_widths [of pre post ?acc] assms(2) d(1,2) by auto
    have "drop (length a) (lower ?acc) = post" using d(1) ab(3) by simp
    moreover have "wake_hear lower phrases keepalive now p text =
        Some (\<lparr>wake_st = Awake, wake_timer = now, wake_acc = []\<rparr>, Some b)"
      using assms(1) m(1) Some ab(2) by (cases p) (auto simp: wake_hear_def Let_def)
    moreover have "woken phrases (split_whitespace (lower ?acc))" using m(2) Some by simp
    ultimately show ?thesis using ab(1) d(3-5) by auto
  qed
qed

text \<open>The offset of a wake phrase is taken in the lower-cased text and used in the original. Where
  lower-casing changes widths, as it does for the Turkish capital dotted I, the two differ: with a wake phrase that is
  a single accented letter (two bytes), a transcript of that capital, a space and the letter slices inside a character and the filter panics.\<close>

lemma wake_offset_panics:
  assumes "lower [304, 32, 233] = [105, 775, 32, 233]" and "wake_phrases s = [[[233]]]"
    and "participants s user = None" and "env_frame env = Transcription [304, 32, 233] user lang fin"
  shows "wake_process lower l s (now, env) n = None"
proof -
  have sw: "split_whitespace [105, 775, 32, 233] = [[105, 775], [233]]"
    by (simp add: split_whitespace.simps is_whitespace_def Let_def)
  have "match_wake lower [[[233]]] [304, 32, 233] = Some (Some 4)"
    by (simp add: match_wake_def assms(1) word_offsets_def sw split_at_byte.simps len_utf8_def)
  moreover have "split_at_byte 4 [304, 32, 233] = None"
    by (simp add: split_at_byte.simps len_utf8_def)
  ultimately show ?thesis
    using assms(2-) by (simp add: wake_process_def wake_hear_def participant_new_def append_fragment_def)
qed

end
