(* ===== verification/Transcript.thy ===== *)
theory Transcript
  imports Json
begin

text \<open>
  The call transcript, \<^verbatim>\<open>flowcat-core/src/transcript.rs\<close>: streamed deltas merged into one line per turn, turn counts, and the
  rendered artifact.
\<close>

datatype speaker = User | Bot

record transcript_line =
  tl_speaker :: speaker
  tl_text :: ustr

type_synonym transcript = "transcript_line list"

definition transcript_push :: "transcript \<Rightarrow> speaker \<Rightarrow> ustr \<Rightarrow> transcript" where
  "transcript_push ls sp t =
     (if t = [] then ls
      else if ls \<noteq> [] \<and> tl_speaker (last ls) = sp
      then butlast ls @ [(last ls)\<lparr>tl_text := tl_text (last ls) @ t\<rparr>]
      else ls @ [\<lparr>tl_speaker = sp, tl_text = t\<rparr>])"

definition push_user :: "transcript \<Rightarrow> ustr \<Rightarrow> transcript" where
  "push_user ls t = transcript_push ls User t"

definition push_bot :: "transcript \<Rightarrow> ustr \<Rightarrow> transcript" where
  "push_bot ls t = transcript_push ls Bot t"

definition user_turns :: "transcript \<Rightarrow> u64" where
  "user_turns ls = word_of_nat (length (filter (\<lambda>l. tl_speaker l = User) ls))"

definition bot_turns :: "transcript \<Rightarrow> u64" where
  "bot_turns ls = word_of_nat (length (filter (\<lambda>l. tl_speaker l = Bot) ls))"

text \<open>The JSON value that \<open>render\<close> serialises.\<close>

definition transcript_render :: "transcript \<Rightarrow> json" where
  "transcript_render ls =
     JArr (map (\<lambda>l. JObj [(lit ''role'', JStr (case tl_speaker l of User \<Rightarrow> lit ''user'' | Bot \<Rightarrow> lit ''bot'')),
                         (lit ''text'', JStr (tl_text l))]) ls)"

section \<open>The reference: maximal runs\<close>

text \<open>A finished call's transcript, seen from its deltas: the non-empty ones, grouped into maximal runs of one speaker.\<close>

definition say_before :: "speaker \<Rightarrow> ustr \<Rightarrow> transcript \<Rightarrow> transcript" where
  "say_before sp t ls =
     (if t = [] then ls
      else case ls of
        [] \<Rightarrow> [\<lparr>tl_speaker = sp, tl_text = t\<rparr>]
      | l # ls' \<Rightarrow>
          if tl_speaker l = sp then l\<lparr>tl_text := t @ tl_text l\<rparr> # ls'
          else \<lparr>tl_speaker = sp, tl_text = t\<rparr> # l # ls')"

fun turns_of :: "(speaker \<times> ustr) list \<Rightarrow> transcript" where
  "turns_of [] = []"
| "turns_of ((sp, t) # ds) = say_before sp t (turns_of ds)"

definition conversation_of :: "(speaker \<times> ustr) list \<Rightarrow> transcript" where
  "conversation_of ds = foldl (\<lambda>ls (sp, t). transcript_push ls sp t) [] ds"

definition alternating :: "transcript \<Rightarrow> bool" where
  "alternating ls \<longleftrightarrow> distinct_adj (map tl_speaker ls)"

definition said :: "speaker \<Rightarrow> transcript \<Rightarrow> ustr" where
  "said sp ls = concat (map tl_text (filter (\<lambda>l. tl_speaker l = sp) ls))"

lemma say_before_push: "say_before sp t (transcript_push ls sq u) = transcript_push (say_before sp t ls) sq u"
proof (cases ls)
  case Nil
  then show ?thesis by (simp add: say_before_def transcript_push_def)
next
  case (Cons l ls')
  then show ?thesis by (cases "ls' = []") (simp_all add: say_before_def transcript_push_def)
qed

lemma turns_of_snoc: "turns_of (ds @ [(sp, t)]) = transcript_push (turns_of ds) sp t"
  by (induction ds rule: turns_of.induct) (simp_all add: say_before_push, simp add: say_before_def transcript_push_def)

lemma conversation_of_turns: "conversation_of ds = turns_of ds"
proof (induction ds rule: rev_induct)
  case (snoc d ds)
  then show ?case by (cases d) (simp add: conversation_of_def turns_of_snoc)
qed (simp add: conversation_of_def)

lemma transcript_push_alternating: "alternating ls \<Longrightarrow> alternating (transcript_push ls sp t)"
  by (cases ls rule: rev_cases) (auto simp: alternating_def transcript_push_def distinct_adj_append_iff)

lemma transcript_push_said:
  "said who (transcript_push ls sp t) = said who ls @ (if who = sp then t else [])"
  by (cases ls rule: rev_cases) (auto simp: said_def transcript_push_def)

lemma transcript_push_nonempty:
  "\<forall>l\<in>set ls. tl_text l \<noteq> [] \<Longrightarrow> \<forall>l\<in>set (transcript_push ls sp t). tl_text l \<noteq> []"
  by (cases ls rule: rev_cases) (auto simp: transcript_push_def)

text \<open>The transcript is exactly the conversation: pushing the streamed deltas one by one gives the maximal runs of one
  speaker, so neighbouring lines have different speakers, no line is empty, each speaker's lines spell out what that
  speaker's deltas said, and cutting an utterance into more deltas changes nothing.\<close>

lemma transcript_is_conversation:
  "conversation_of ds = turns_of ds \<and> alternating (conversation_of ds) \<and> (\<forall>l\<in>set (conversation_of ds). tl_text l \<noteq> []) \<and>
   said who (conversation_of ds) = concat (map snd (filter (\<lambda>d. fst d = who) ds)) \<and>
   conversation_of (ds @ [(sp, a), (sp, b)]) = conversation_of (ds @ [(sp, a @ b)])"
proof -
  have "alternating (turns_of ds) \<and> (\<forall>l\<in>set (turns_of ds). tl_text l \<noteq> []) \<and>
      said who (turns_of ds) = concat (map snd (filter (\<lambda>d. fst d = who) ds))"
  proof (induction ds rule: rev_induct)
    case Nil
    show ?case by (simp add: alternating_def said_def)
  next
    case (snoc d ds)
    obtain a b where d: "d = (a, b)" by (cases d)
    show ?case
      unfolding d turns_of_snoc using snoc
      by (intro conjI transcript_push_alternating transcript_push_nonempty) (simp_all add: transcript_push_said)
  qed
  moreover have "transcript_push (transcript_push ls sp a) sp b = transcript_push ls sp (a @ b)" for ls
    by (cases ls rule: rev_cases) (auto simp: transcript_push_def butlast_append)
  ultimately show ?thesis
    using turns_of_snoc [of "ds @ [(sp, a)]" sp b] by (simp add: conversation_of_turns turns_of_snoc)
qed

end
