(* ===== verification/Audio_Codec.thy ===== *)
theory Audio_Codec
  imports Frames Json
begin

text \<open>
  The codec helpers of \<^verbatim>\<open>flowcat-core/src/codec.rs\<close>, with the crate's error type of
  \<^verbatim>\<open>flowcat-core/src/error.rs\<close>: G.711 streams, and the streaming resampler that cuts an arbitrary chunk
  sequence into blocks of 256 samples.

  The two third-party engines are arguments: the per-sample G.711 functions of \<open>audio-codec-algorithms\<close>, and
  \<open>rubato\<close> as a record of its constructor and of one fixed-size block call. The scratch vectors, which every
  call overwrites, are not kept.
\<close>

section \<open>Errors\<close>

datatype flowcat_error =
    ErrTransport ustr
  | ErrSerializer ustr
  | ErrRealtime ustr
  | ErrCodec ustr
  | ErrSession ustr
  | ErrNetwork ustr
  | ErrProtocol ustr
  | ErrJson ustr
  | ErrIo ustr
  | ErrOther ustr

definition error_text :: "flowcat_error \<Rightarrow> ustr" where
  "error_text e =
     (case e of
        ErrTransport m \<Rightarrow> lit ''transport error: '' @ m
      | ErrSerializer m \<Rightarrow> lit ''serializer error: '' @ m
      | ErrRealtime m \<Rightarrow> lit ''realtime LLM error: '' @ m
      | ErrCodec m \<Rightarrow> lit ''codec error: '' @ m
      | ErrSession m \<Rightarrow> lit ''session error: '' @ m
      | ErrNetwork m \<Rightarrow> lit ''network error: '' @ m
      | ErrProtocol m \<Rightarrow> lit ''protocol error: '' @ m
      | ErrJson m \<Rightarrow> lit ''json error: '' @ m
      | ErrIo m \<Rightarrow> lit ''io error: '' @ m
      | ErrOther m \<Rightarrow> m)"

section \<open>G.711\<close>

record g711 =
  decode_ulaw :: "u8 \<Rightarrow> i16"
  encode_ulaw :: "i16 \<Rightarrow> u8"
  decode_alaw :: "u8 \<Rightarrow> i16"
  encode_alaw :: "i16 \<Rightarrow> u8"

definition ulaw_to_pcm16 :: "g711 \<Rightarrow> u8 list \<Rightarrow> i16 list" where
  "ulaw_to_pcm16 G bs = map (decode_ulaw G) bs"

definition pcm16_to_ulaw :: "g711 \<Rightarrow> i16 list \<Rightarrow> u8 list" where
  "pcm16_to_ulaw G ss = map (encode_ulaw G) ss"

definition alaw_to_pcm16 :: "g711 \<Rightarrow> u8 list \<Rightarrow> i16 list" where
  "alaw_to_pcm16 G bs = map (decode_alaw G) bs"

definition pcm16_to_alaw :: "g711 \<Rightarrow> i16 list \<Rightarrow> u8 list" where
  "pcm16_to_alaw G ss = map (encode_alaw G) ss"

section \<open>Samples as floats\<close>

text \<open>\<open>s as f32 / 32768.0\<close>, and the clamped way back.\<close>

definition i16_to_f32 :: "i16 \<Rightarrow> f32" where
  "i16_to_f32 s = fl_div f32_fmt (fl_round f32_fmt (of_int (sint s))) (FNum 32768)"

definition fl_clamp :: "fl \<Rightarrow> rat \<Rightarrow> rat \<Rightarrow> fl" where
  "fl_clamp a lo hi = (if \<not> fl_ge a (FNum lo) \<and> a \<noteq> FNaN then FNum lo
                       else if \<not> fl_le a (FNum hi) \<and> a \<noteq> FNaN then FNum hi else a)"

definition fl_as_i16 :: "fl \<Rightarrow> i16" where
  "fl_as_i16 a =
     (case a of
        FNaN \<Rightarrow> 0
      | FInf neg \<Rightarrow> word_of_int (if neg then - 32768 else 32767)
      | FNum x \<Rightarrow>
          let t = (if 0 \<le> x then \<lfloor>x\<rfloor> else \<lceil>x\<rceil>)
          in word_of_int (max (- 32768) (min 32767 t)))"

definition f32_to_i16 :: "f32 \<Rightarrow> i16" where
  "f32_to_i16 s = fl_as_i16 (fl_clamp (fl_round_int (fl_mul f32_fmt s (FNum 32768))) (- 32768) 32767)"

section \<open>The resampler\<close>

definition BLOCK :: nat where
  "BLOCK = 256"

text \<open>\<open>rubato\<close>: building an engine for a rate pair, and one call on a block (which may fail).\<close>

record 'r rubato =
  rub_new :: "u32 \<Rightarrow> u32 \<Rightarrow> ustr + 'r"
  rub_process :: "'r \<Rightarrow> f32 list \<Rightarrow> 'r \<times> (ustr + f32 list)"

record 'r resampler =
  from_rate :: u32
  to_rate :: u32
  rs_inner :: "'r option"
  in_buf :: "i16 list"

definition resampler_new :: "'r rubato \<Rightarrow> u32 \<Rightarrow> u32 \<Rightarrow> flowcat_error + 'r resampler" where
  "resampler_new R f t =
     (if f = 0 \<or> t = 0 then 
        Inl (ErrCodec (lit ''invalid sample rate: from='' @ show_nat (unat f) @ lit '' to='' @ show_nat (unat t) @ lit '' (must be > 0)''))
      else if f = t then Inr \<lparr>from_rate = f, to_rate = t, rs_inner = None, in_buf = []\<rparr>
      else case rub_new R f t of
        Inl e \<Rightarrow> Inl (ErrCodec (lit ''rubato init '' @ show_nat (unat f) @ lit ''->'' @ show_nat (unat t) @ lit '': '' @ e))
      | Inr r \<Rightarrow> Inr \<lparr>from_rate = f, to_rate = t, rs_inner = Some r, in_buf = []\<rparr>)"

text \<open>The block loop. On an error of the engine nothing is drained from the carry buffer.\<close>

function process_blocks :: "'r rubato \<Rightarrow> 'r \<Rightarrow> i16 list \<Rightarrow> 'r \<times> (ustr + i16 list \<times> i16 list)" where
  "process_blocks R r buf =
     (if length buf < BLOCK then (r, Inr ([], buf))
      else case rub_process R r (map i16_to_f32 (take BLOCK buf)) of
        (r1, Inl e) \<Rightarrow> (r1, Inl e)
      | (r1, Inr ys) \<Rightarrow>
          (case process_blocks R r1 (drop BLOCK buf) of
             (r2, Inl e) \<Rightarrow> (r2, Inl e)
           | (r2, Inr (out, rest)) \<Rightarrow> (r2, Inr (map f32_to_i16 ys @ out, rest))))"
  by pat_completeness auto
termination
  by (relation "measure (\<lambda>(R, r, buf). length buf)") (auto simp: BLOCK_def)

declare process_blocks.simps [simp del]

definition resampler_process :: "'r rubato \<Rightarrow> 'r resampler \<Rightarrow> audio_chunk \<Rightarrow> 'r resampler \<times> (flowcat_error + audio_chunk)" where
  "resampler_process R s input =
     (if ac_sample_rate input \<noteq> from_rate s then
        (s, Inl (ErrCodec (lit ''resampler expected input at '' @ show_nat (unat (from_rate s)) @ lit '' Hz, got '' @
                           show_nat (unat (ac_sample_rate input)) @ lit '' Hz'')))
      else case rs_inner s of
        None \<Rightarrow> (s, Inr \<lparr>ac_pcm = ac_pcm input, ac_sample_rate = to_rate s\<rparr>)
      | Some r \<Rightarrow>
          (let buf = in_buf s @ ac_pcm input
           in case process_blocks R r buf of
                (r1, Inl e) \<Rightarrow> (s\<lparr>rs_inner := Some r1, in_buf := buf\<rparr>, Inl (ErrCodec (lit ''rubato process: '' @ e)))
              | (r1, Inr (out, rest)) \<Rightarrow>
                  (s\<lparr>rs_inner := Some r1, in_buf := rest\<rparr>, Inr \<lparr>ac_pcm = out, ac_sample_rate = to_rate s\<rparr>)))"

definition resampler_flush :: "'r rubato \<Rightarrow> 'r resampler \<Rightarrow> 'r resampler \<times> (flowcat_error + audio_chunk)" where
  "resampler_flush R s =
     (case rs_inner s of
        None \<Rightarrow> (s, Inr \<lparr>ac_pcm = [], ac_sample_rate = to_rate s\<rparr>)
      | Some r \<Rightarrow>
          if in_buf s = [] then (s, Inr \<lparr>ac_pcm = [], ac_sample_rate = to_rate s\<rparr>)
          else case rub_process R r (take BLOCK (map i16_to_f32 (in_buf s) @ replicate (BLOCK - length (in_buf s)) (FNum 0))) of
                 (r1, Inl e) \<Rightarrow> (s\<lparr>rs_inner := Some r1, in_buf := []\<rparr>, Inl (ErrCodec (lit ''rubato flush: '' @ e)))
               | (r1, Inr ys) \<Rightarrow>
                   (s\<lparr>rs_inner := Some r1, in_buf := []\<rparr>,
                    Inr \<lparr>ac_pcm = map f32_to_i16 ys, ac_sample_rate = to_rate s\<rparr>))"

text \<open>A stream of chunks through one resampler, stopping at the first error.\<close>

fun resample_all :: "'r rubato \<Rightarrow> 'r resampler \<Rightarrow> audio_chunk list \<Rightarrow> 'r resampler \<times> (flowcat_error + i16 list)" where
  "resample_all R s [] = (s, Inr [])"
| "resample_all R s (c # cs) =
     (case resampler_process R s c of
        (s1, Inl e) \<Rightarrow> (s1, Inl e)
      | (s1, Inr o1) \<Rightarrow>
          (case resample_all R s1 cs of
             (s2, Inl e) \<Rightarrow> (s2, Inl e)
           | (s2, Inr out) \<Rightarrow> (s2, Inr (ac_pcm o1 @ out))))"

section \<open>Proofs\<close>

text \<open>A 16-bit sample survives the trip through \<open>f32\<close>.\<close>

lemma sint_i16_bounds: "- 32768 \<le> sint (s :: i16)" "sint (s :: i16) < 32768"
  using sint_greater_eq [of s] sint_lt [of s] by simp_all

lemma sint_i16_abs: "\<bar>of_int (sint (s :: i16)) :: rat\<bar> \<le> 32768"
proof -
  have "\<bar>sint s\<bar> \<le> 32768" using sint_i16_bounds [of s] by linarith
  then have "of_int \<bar>sint s\<bar> \<le> (of_int 32768 :: rat)" by (simp only: of_int_le_iff)
  then show ?thesis by simp
qed

lemma f32_of_i16: "fl_round f32_fmt (of_int (sint (s :: i16))) = FNum (of_int (sint s))"
  using sint_i16_abs [of s] sint_i16_bounds [of s]
  by (intro fl_round_exact [where m = "sint s" and k = 0]) (simp_all add: f32_fmt_def pow2_def)

lemma i16_to_f32_exact: "i16_to_f32 s = FNum (of_int (sint s) / 32768)"
proof -
  have "fl_round f32_fmt (of_int (sint s) / 32768) = FNum (of_int (sint s) / 32768)"
    using sint_i16_abs [of s] sint_i16_bounds [of s]
    by (intro fl_round_exact [where m = "sint s" and k = "- 15"]) (simp_all add: f32_fmt_def pow2_def abs_divide)
  then show ?thesis by (simp add: i16_to_f32_def f32_of_i16 del: of_int_sint)
qed

lemma round_half_away_int [simp]: "round_half_away (of_int i) = i"
  by (auto simp: round_half_away_def floor_eq_iff)

lemma f32_to_i16_of_i16: "f32_to_i16 (i16_to_f32 s) = s"
proof -
  have b: "- 32768 \<le> sint s" "sint s \<le> 32767" using sint_i16_bounds [of s] by linarith+
  then have "of_int (- 32768) \<le> (of_int (sint s) :: rat)" "of_int (sint s) \<le> (of_int 32767 :: rat)"
    by (simp_all only: of_int_le_iff)
  moreover have "fl_round_int (fl_mul f32_fmt (i16_to_f32 s) (FNum 32768)) = FNum (of_int (sint s))"
    by (simp add: i16_to_f32_exact f32_of_i16 del: of_int_sint)
  moreover have "word_of_int (sint s) = s" by simp
  ultimately show ?thesis using b by (simp add: f32_to_i16_def fl_clamp_def fl_as_i16_def del: of_int_sint)
qed

text \<open>The block loop works through a longer buffer in two parts.\<close>

lemma process_blocks_append:
  "process_blocks R r (xs @ ys) =
     (case process_blocks R r xs of
        (r1, Inl e) \<Rightarrow> (r1, Inl e)
      | (r1, Inr (out, rest)) \<Rightarrow>
          (case process_blocks R r1 (rest @ ys) of
             (r2, Inl e) \<Rightarrow> (r2, Inl e)
           | (r2, Inr (out2, rest2)) \<Rightarrow> (r2, Inr (out @ out2, rest2))))"
proof (induction R r xs rule: process_blocks.induct)
  case (1 R r xs)
  show ?case
  proof (cases "length xs < BLOCK")
    case True
    then have "process_blocks R r xs = (r, Inr ([], xs))" by (simp add: process_blocks.simps)
    then show ?thesis by (simp split: prod.split sum.split)
  next
    case False
    then have n: "\<not> length (xs @ ys) < BLOCK" and tk: "take BLOCK (xs @ ys) = take BLOCK xs"
      and dr: "drop BLOCK (xs @ ys) = drop BLOCK xs @ ys" by simp_all
    note u = process_blocks.simps [of R r xs] process_blocks.simps [of R r "xs @ ys"]
    show ?thesis
    proof (cases "rub_process R r (map i16_to_f32 (take BLOCK xs))")
      case (Pair r1 res)
      show ?thesis
      proof (cases res)
        case (Inl e)
        then show ?thesis using False n unfolding u tk by (simp add: Pair)
      next
        case (Inr zs)
        note ih = "1.IH" [OF False Pair [symmetric] Inr]
        show ?thesis using False n unfolding u tk dr
          by (simp add: Pair Inr ih split: prod.split sum.split)
      qed
    qed
  qed
qed

lemma process_blocks_rest: "process_blocks R r buf = (r', Inr (out, rest)) \<Longrightarrow> length rest < BLOCK"
proof (induction R r buf arbitrary: out rule: process_blocks.induct)
  case (1 R r buf)
  show ?case
  proof (cases "length buf < BLOCK")
    case True
    then show ?thesis using "1.prems" by (simp add: process_blocks.simps)
  next
    case False
    then show ?thesis using "1.prems" "1.IH" [OF False]
      by (subst (asm) process_blocks.simps) (auto split: prod.splits sum.splits)
  qed
qed

definition resampler_ok :: "'r resampler \<Rightarrow> bool" where
  "resampler_ok s \<longleftrightarrow> length (in_buf s) < BLOCK"

lemma resampler_new_ok: "resampler_new R f t = Inr s \<Longrightarrow> resampler_ok s \<and> from_rate s = f \<and> to_rate s = t"
  by (auto simp: resampler_new_def resampler_ok_def BLOCK_def split: if_splits sum.splits)

lemma resampler_process_ok:
  "resampler_process R s c = (s', Inr d) \<Longrightarrow> resampler_ok s \<Longrightarrow>
     resampler_ok s' \<and> from_rate s' = from_rate s \<and> to_rate s' = to_rate s \<and> ac_sample_rate d = to_rate s"
  using process_blocks_rest
  by (fastforce simp: resampler_process_def resampler_ok_def Let_def split: if_splits option.splits prod.splits sum.splits)

text \<open>Two chunks in a row are one chunk.\<close>

lemma resampler_process_append:
  assumes "resampler_process R s \<lparr>ac_pcm = xs, ac_sample_rate = from_rate s\<rparr> = (s1, Inr d1)"
  shows "case resampler_process R s1 \<lparr>ac_pcm = ys, ac_sample_rate = from_rate s\<rparr> of
       (s2, Inl e) \<Rightarrow> \<exists>s2'. resampler_process R s \<lparr>ac_pcm = xs @ ys, ac_sample_rate = from_rate s\<rparr> = (s2', Inl e)
     | (s2, Inr d2) \<Rightarrow> resampler_process R s \<lparr>ac_pcm = xs @ ys, ac_sample_rate = from_rate s\<rparr> =
         (s2, Inr \<lparr>ac_pcm = ac_pcm d1 @ ac_pcm d2, ac_sample_rate = to_rate s\<rparr>)"
proof (cases "rs_inner s")
  case None
  then show ?thesis using assms by (auto simp: resampler_process_def)
next
  case (Some r)
  then obtain r1 out rest where p: "process_blocks R r (in_buf s @ xs) = (r1, Inr (out, rest))"
    and s1: "s1 = s\<lparr>rs_inner := Some r1, in_buf := rest\<rparr>" and d1: "d1 = \<lparr>ac_pcm = out, ac_sample_rate = to_rate s\<rparr>"
    using assms by (auto simp: resampler_process_def Let_def split: prod.splits sum.splits)
  note q = process_blocks_append [of R r "in_buf s @ xs" ys, unfolded p append_assoc]
  show ?thesis by (simp add: resampler_process_def Some Let_def q s1 d1 split: prod.split sum.split)
qed

lemma resampler_process_nil:
  "resampler_ok s \<Longrightarrow> resampler_process R s \<lparr>ac_pcm = [], ac_sample_rate = from_rate s\<rparr> =
     (s, Inr \<lparr>ac_pcm = [], ac_sample_rate = to_rate s\<rparr>)"
  by (simp add: resampler_process_def resampler_ok_def process_blocks.simps split: option.split)

lemma resample_all_chunks:
  assumes "resampler_ok s" and "\<forall>c\<in>set cs. ac_sample_rate c = from_rate s"
  shows "case resample_all R s cs of
      (s', Inr out) \<Rightarrow> resampler_ok s' \<and>
        resampler_process R s \<lparr>ac_pcm = concat (map ac_pcm cs), ac_sample_rate = from_rate s\<rparr> =
          (s', Inr \<lparr>ac_pcm = out, ac_sample_rate = to_rate s\<rparr>)
    | (s', Inl e) \<Rightarrow>
        \<exists>s''. resampler_process R s \<lparr>ac_pcm = concat (map ac_pcm cs), ac_sample_rate = from_rate s\<rparr> = (s'', Inl e)"
  using assms
proof (induction cs arbitrary: s)
  case Nil
  then show ?case by (simp add: resampler_process_nil)
next
  case (Cons c cs)
  then have c: "c = \<lparr>ac_pcm = ac_pcm c, ac_sample_rate = from_rate s\<rparr>" by simp
  obtain s1 res where p: "resampler_process R s c = (s1, res)" by (cases "resampler_process R s c")
  show ?case
  proof (cases res)
    case (Inl e)
    have "\<exists>s''. resampler_process R s \<lparr>ac_pcm = ac_pcm c @ ys, ac_sample_rate = from_rate s\<rparr> = (s'', Inl e)" for ys
      using p Inl Cons.prems(2) process_blocks_append [of R _ "in_buf s @ ac_pcm c" ys]
      by (fastforce simp: resampler_process_def Let_def split: option.splits prod.splits sum.splits if_splits)
    then show ?thesis by (simp add: p Inl)
  next
    case (Inr d1)
    have ok: "resampler_ok s1" and fr: "from_rate s1 = from_rate s" and tr: "to_rate s1 = to_rate s"
      using resampler_process_ok p Inr Cons.prems(1) by blast+
    have "resampler_process R s \<lparr>ac_pcm = ac_pcm c, ac_sample_rate = from_rate s\<rparr> = (s1, Inr d1)"
      using p by (simp only: Inr flip: c)
    note step = resampler_process_append [OF this, of "concat (map ac_pcm cs)"]
    show ?thesis
      using Cons.IH [OF ok] Cons.prems(2) step by (auto simp: p Inr fr tr split: prod.splits sum.splits)
  qed
qed

lemma resample_all_once:
  assumes "resampler_ok s" and "\<forall>c\<in>set cs. ac_sample_rate c = from_rate s" and "resample_all R s cs = (s', Inr out)"
  shows "resampler_process R s \<lparr>ac_pcm = concat (map ac_pcm cs), ac_sample_rate = from_rate s\<rparr> =
      (s', Inr \<lparr>ac_pcm = out, ac_sample_rate = to_rate s\<rparr>)"
  using resample_all_chunks [OF assms(1,2), of R] assms(3) by simp

text \<open>C26. How a carrier cuts its audio does not matter: a stream of chunks of any sizes through one resampler gives the
  samples, and leaves the resampler in the state, that one call on the whole stream gives, with less than a
  block held back; a failure of the engine is the same failure.\<close>

theorem resample_chunking_invariant:
  assumes "resampler_ok s" and "\<forall>c\<in>set cs. ac_sample_rate c = from_rate s"
  shows "case resample_all R s cs of
      (s', Inr out) \<Rightarrow> resampler_ok s' \<and>
        resampler_process R s \<lparr>ac_pcm = concat (map ac_pcm cs), ac_sample_rate = from_rate s\<rparr> =
          (s', Inr \<lparr>ac_pcm = out, ac_sample_rate = to_rate s\<rparr>)
    | (s', Inl e) \<Rightarrow>
        \<exists>s''. resampler_process R s \<lparr>ac_pcm = concat (map ac_pcm cs), ac_sample_rate = from_rate s\<rparr> = (s'', Inl e)"
  by (rule resample_all_chunks [OF assms])

text \<open>An engine that halves the rate and counts its blocks, for concrete runs.\<close>

definition demo_rubato :: "nat rubato" where
  "demo_rubato = \<lparr>rub_new = (\<lambda>f t. Inr 0), rub_process = (\<lambda>r xs. (Suc r, Inr (take 128 xs)))\<rparr>"

definition demo_resampler :: "nat resampler" where
  "demo_resampler = \<lparr>from_rate = 16000, to_rate = 8000, rs_inner = Some 0, in_buf = []\<rparr>"

definition demo_chunk :: "nat \<Rightarrow> audio_chunk" where
  "demo_chunk k = \<lparr>ac_pcm = replicate k 5, ac_sample_rate = 16000\<rparr>"

theorem resample_chunking_invariant_witness:
  "case resample_all demo_rubato demo_resampler [demo_chunk 200, demo_chunk 100] of
      (s', Inr out) \<Rightarrow> resampler_ok s' \<and>
        resampler_process demo_rubato demo_resampler
          \<lparr>ac_pcm = concat (map ac_pcm [demo_chunk 200, demo_chunk 100]), ac_sample_rate = from_rate demo_resampler\<rparr> =
          (s', Inr \<lparr>ac_pcm = out, ac_sample_rate = to_rate demo_resampler\<rparr>)
    | (s', Inl e) \<Rightarrow>
        \<exists>s''. resampler_process demo_rubato demo_resampler
          \<lparr>ac_pcm = concat (map ac_pcm [demo_chunk 200, demo_chunk 100]), ac_sample_rate = from_rate demo_resampler\<rparr> = (s'', Inl e)"
  by (rule resample_chunking_invariant)
     (simp_all add: resampler_ok_def demo_resampler_def demo_chunk_def BLOCK_def)

text \<open>Samples are not changed by the conversion to \<open>f32\<close> that frames every call of the engine: each 16-bit
  sample comes back as itself, and a value outside the range, or infinite, comes back as the nearer rail.\<close>

lemma sample_conversion_round_trip:
  "f32_to_i16 (i16_to_f32 s) = s \<and>
   f32_to_i16 (FInf False) = 32767 \<and> f32_to_i16 (FInf True) = - 32768 \<and> f32_to_i16 FNaN = 0"
  using f32_to_i16_of_i16 by (simp add: f32_to_i16_def fl_clamp_def fl_as_i16_def)

end
