(* ===== verification/Recorder.thy ===== *)
theory Recorder
  imports Audio_Codec
begin

text \<open>
  The call recorder, \<open>AudioRecorder\<close> of \<^verbatim>\<open>flowcat-core/src/audio/mod.rs\<close>: both legs are kept as chunks placed on the
  call's timeline, and rendered by silence-padding, resampling and a clamped sum.

  Durations are nanoseconds; the clock reading of a live tap is an argument. \<open>hound\<close>, which writes the WAV
  container, is the argument \<open>wav\<close>; \<open>HashMap\<close> iteration is the argument \<open>order\<close>, any arrangement of the map's entries.
\<close>

section \<open>Placing chunks\<close>

record placed_chunk =
  offset_s :: f64
  pc_chunk :: audio_chunk

record audio_recorder =
  rec_sample_rate :: u32
  rec_inbound :: "placed_chunk list"
  rec_outbound :: "placed_chunk list"
  rec_start :: "nat option"
  inbound_end_s :: f64
  outbound_end_s :: f64

definition f64_of_nat :: "nat \<Rightarrow> f64" where
  "f64_of_nat n = fl_round f64_fmt (of_nat n)"

definition as_secs_f64 :: "nat \<Rightarrow> f64" where
  "as_secs_f64 d =
     fl_add f64_fmt (f64_of_nat (d div 10 ^ 9)) (fl_div f64_fmt (f64_of_nat (d mod 10 ^ 9)) (f64_of_nat (10 ^ 9)))"

definition audio_recorder_new :: "u32 \<Rightarrow> audio_recorder" where
  "audio_recorder_new r =
     \<lparr>rec_sample_rate = r, rec_inbound = [], rec_outbound = [], rec_start = None,
      inbound_end_s = FNum 0, outbound_end_s = FNum 0\<rparr>"

definition rec_tick :: "nat \<Rightarrow> audio_recorder \<Rightarrow> audio_recorder \<times> nat" where
  "rec_tick now s = (case rec_start s of Some t \<Rightarrow> (s, now - t) | None \<Rightarrow> (s\<lparr>rec_start := Some now\<rparr>, 0))"

definition chunk_duration_s :: "audio_chunk \<Rightarrow> f64" where
  "chunk_duration_s c =
     (if ac_sample_rate c = 0 then FNum 0
      else fl_div f64_fmt (f64_of_nat (length (ac_pcm c))) (f64_of_nat (unat (ac_sample_rate c))))"

definition place :: "nat \<Rightarrow> audio_chunk \<Rightarrow> f64 \<Rightarrow> placed_chunk option" where
  "place offset c leg_end =
     (if ac_pcm c = [] then None
      else Some \<lparr>offset_s = fl_max (as_secs_f64 offset) leg_end, pc_chunk = c\<rparr>)"

definition push_inbound_at :: "audio_recorder \<Rightarrow> nat \<Rightarrow> audio_chunk \<Rightarrow> audio_recorder" where
  "push_inbound_at s offset c =
     (case place offset c (inbound_end_s s) of
        None \<Rightarrow> s
      | Some p \<Rightarrow> s\<lparr>inbound_end_s := fl_add f64_fmt (offset_s p) (chunk_duration_s c),
                    rec_inbound := rec_inbound s @ [p]\<rparr>)"

definition push_outbound_at :: "audio_recorder \<Rightarrow> nat \<Rightarrow> audio_chunk \<Rightarrow> audio_recorder" where
  "push_outbound_at s offset c =
     (case place offset c (outbound_end_s s) of
        None \<Rightarrow> s
      | Some p \<Rightarrow> s\<lparr>outbound_end_s := fl_add f64_fmt (offset_s p) (chunk_duration_s c),
                    rec_outbound := rec_outbound s @ [p]\<rparr>)"

definition push_inbound :: "nat \<Rightarrow> audio_recorder \<Rightarrow> audio_chunk \<Rightarrow> audio_recorder" where
  "push_inbound now s c = (let (s1, t) = rec_tick now s in push_inbound_at s1 t c)"

definition push_outbound :: "nat \<Rightarrow> audio_recorder \<Rightarrow> audio_chunk \<Rightarrow> audio_recorder" where
  "push_outbound now s c = (let (s1, t) = rec_tick now s in push_outbound_at s1 t c)"

definition duration_seconds :: "audio_recorder \<Rightarrow> f64" where
  "duration_seconds s = fl_max (inbound_end_s s) (outbound_end_s s)"

section \<open>Rendering\<close>

definition sample_position :: "u32 \<Rightarrow> placed_chunk \<Rightarrow> nat" where
  "sample_position rate pc =
     fl_as_usize (fl_round_int (fl_mul f64_fmt (offset_s pc) (f64_of_nat (unat rate))))"

definition pad_to :: "nat \<Rightarrow> i16 list \<Rightarrow> i16 list" where
  "pad_to n out = (if length out < n then out @ replicate (n - length out) 0 else out)"

fun upsert :: "'k \<Rightarrow> 'v \<Rightarrow> ('k \<times> 'v) list \<Rightarrow> ('k \<times> 'v) list" where
  "upsert k v [] = [(k, v)]"
| "upsert k v ((k', v') # m) = (if k = k' then (k, v) # m else (k', v') # upsert k v m)"

fun place_chunks ::
  "'r rubato \<Rightarrow> u32 \<Rightarrow> placed_chunk list \<Rightarrow> i16 list \<Rightarrow> (u32 \<times> 'r resampler) list \<Rightarrow>
     flowcat_error + i16 list \<times> (u32 \<times> 'r resampler) list" where
  "place_chunks R rate [] out rss = Inr (out, rss)"
| "place_chunks R rate (pc # pcs) out rss =
     (let out1 = pad_to (sample_position rate pc) out; r = ac_sample_rate (pc_chunk pc)
      in if r = rate then place_chunks R rate pcs (out1 @ ac_pcm (pc_chunk pc)) rss
         else case (case map_of rss r of Some rs \<Rightarrow> Inr rs | None \<Rightarrow> resampler_new R r rate) of
                Inl e \<Rightarrow> Inl e
              | Inr rs \<Rightarrow>
                  (case resampler_process R rs (pc_chunk pc) of
                     (rs1, Inl e) \<Rightarrow> Inl e
                   | (rs1, Inr c) \<Rightarrow> place_chunks R rate pcs (out1 @ ac_pcm c) (upsert r rs1 rss)))"

fun flush_resamplers :: "'r rubato \<Rightarrow> (u32 \<times> 'r resampler) list \<Rightarrow> i16 list \<Rightarrow> flowcat_error + i16 list" where
  "flush_resamplers R [] out = Inr out"
| "flush_resamplers R ((k, rs) # rss) out =
     (case resampler_flush R rs of
        (_, Inl e) \<Rightarrow> Inl e
      | (_, Inr c) \<Rightarrow> flush_resamplers R rss (out @ ac_pcm c))"

definition render_leg ::
  "'r rubato \<Rightarrow> ((u32 \<times> 'r resampler) list \<Rightarrow> (u32 \<times> 'r resampler) list) \<Rightarrow> placed_chunk list \<Rightarrow> u32 \<Rightarrow>
     flowcat_error + i16 list" where
  "render_leg R order chunks rate =
     (case place_chunks R rate chunks [] [] of
        Inl e \<Rightarrow> Inl e
      | Inr (out, rss) \<Rightarrow> flush_resamplers R (order rss) out)"

text \<open>The sum of two samples in \<open>i32\<close>, clamped back.\<close>

definition mix_sample :: "i16 \<Rightarrow> i16 \<Rightarrow> i16" where
  "mix_sample a b = word_of_int (max (- 32768) (min 32767 (sint a + sint b)))"

definition mix_legs :: "i16 list \<Rightarrow> i16 list \<Rightarrow> i16 list" where
  "mix_legs caller agent =
     map (\<lambda>i. mix_sample (if i < length caller then caller ! i else 0) (if i < length agent then agent ! i else 0))
         [0..<max (length caller) (length agent)]"

definition render_wav ::
  "'r rubato \<Rightarrow> ((u32 \<times> 'r resampler) list \<Rightarrow> (u32 \<times> 'r resampler) list) \<Rightarrow>
     (u32 \<Rightarrow> i16 list \<Rightarrow> ustr + u8 list) \<Rightarrow> audio_recorder \<Rightarrow> flowcat_error + u8 list" where
  "render_wav R order wav s =
     (case render_leg R order (rec_inbound s) (rec_sample_rate s) of
        Inl e \<Rightarrow> Inl e
      | Inr caller \<Rightarrow>
          (case render_leg R order (rec_outbound s) (rec_sample_rate s) of
             Inl e \<Rightarrow> Inl e
           | Inr agent \<Rightarrow>
               (case wav (rec_sample_rate s) (mix_legs caller agent) of
                  Inl e \<Rightarrow> Inl (ErrCodec e)
                | Inr bs \<Rightarrow> Inr bs)))"

section \<open>The timeline\<close>

definition fl_nonneg :: "fl \<Rightarrow> bool" where
  "fl_nonneg a = (case a of FNum x \<Rightarrow> 0 \<le> x | FInf neg \<Rightarrow> \<not> neg | FNaN \<Rightarrow> False)"

lemma fl_nonneg_simps [simp]: "fl_nonneg (FNum x) = (0 \<le> x)" "fl_nonneg (FInf neg) = (\<not> neg)" "\<not> fl_nonneg FNaN"
  by (simp_all add: fl_nonneg_def)

lemma fl_nonneg_round: "0 \<le> x \<Longrightarrow> fl_nonneg (fl_round F x)"
  by (auto simp: fl_round_def Let_def round_half_even_def pow2_powi intro!: mult_nonneg_nonneg)

lemma fl_nonneg_add: "fl_nonneg a \<Longrightarrow> fl_nonneg b \<Longrightarrow> fl_nonneg (fl_add F a b)"
  by (cases a; cases b) (simp_all add: fl_nonneg_round)

lemma fl_nonneg_div: "fl_nonneg a \<Longrightarrow> 0 < y \<Longrightarrow> fl_nonneg (fl_div F a (FNum y))"
  by (cases a) (simp_all add: fl_nonneg_round)

lemma fl_nonneg_max: "fl_nonneg a \<Longrightarrow> fl_nonneg b \<Longrightarrow> fl_nonneg (fl_max a b)"
  by (cases a; cases b) simp_all

lemma fl_max_ge: "fl_nonneg a \<Longrightarrow> fl_nonneg b \<Longrightarrow> fl_ge (fl_max a b) a \<and> fl_ge (fl_max a b) b"
  by (cases a; cases b) simp_all

lemma fl_ge_FInf: "fl_ge (FInf n) b \<longleftrightarrow> b \<noteq> FNaN \<and> (n \<longrightarrow> b = FInf True)"
  by (cases n; cases b) simp_all

lemma fl_ge_trans: "fl_ge a b \<Longrightarrow> fl_ge b c \<Longrightarrow> fl_ge a c"
  by (cases a; cases b; cases c) (auto simp: fl_ge_FInf)

lemma f64_of_nat_exact:
  assumes "n < 2 ^ 53"
  shows "f64_of_nat n = FNum (of_nat n)"
proof -
  have "of_nat n < (of_nat (2 ^ 53) :: rat)" using assms by (simp only: of_nat_less_iff)
  then show ?thesis unfolding f64_of_nat_def using assms
    by (intro fl_round_exact [where m = "int n" and k = 0]) (simp_all add: f64_fmt_def pow2_def)
qed

lemma f64_of_u32: "f64_of_nat (unat (r :: u32)) = FNum (of_nat (unat r))"
  using unsigned_less [of r, where 'a = nat] by (intro f64_of_nat_exact) simp

lemma as_secs_f64_nonneg: "fl_nonneg (as_secs_f64 d)"
proof -
  have "fl_round f64_fmt 1000000000 = FNum 1000000000"
    by (intro fl_round_exact [where m = 1000000000 and k = 0]) (simp_all add: f64_fmt_def pow2_def)
  then show ?thesis
    by (simp add: as_secs_f64_def f64_of_nat_def fl_nonneg_add fl_nonneg_div fl_nonneg_round)
qed

lemma chunk_duration_nonneg: "fl_nonneg (chunk_duration_s c)"
proof (cases "ac_sample_rate c = 0")
  case False
  then have "0 < unat (ac_sample_rate c)" by (simp add: unat_gt_0)
  then have "0 < (of_nat (unat (ac_sample_rate c)) :: rat)" by (simp only: of_nat_0_less_iff)
  then show ?thesis using False unfolding chunk_duration_s_def f64_of_u32
    by (simp only: if_False fl_nonneg_div f64_of_nat_def fl_nonneg_round of_nat_0_le_iff)
qed (simp add: chunk_duration_s_def)

text \<open>A leg on the timeline: no empty chunk, each chunk starts no earlier than the one before it ends, and the running
  end is the end of the last one.\<close>

definition chunk_end :: "placed_chunk \<Rightarrow> f64" where
  "chunk_end p = fl_add f64_fmt (offset_s p) (chunk_duration_s (pc_chunk p))"

definition leg_ok :: "placed_chunk list \<Rightarrow> f64 \<Rightarrow> bool" where
  "leg_ok ps e \<longleftrightarrow>
     e = (if ps = [] then FNum 0 else chunk_end (last ps)) \<and>
     (\<forall>p\<in>set ps. ac_pcm (pc_chunk p) \<noteq> [] \<and> fl_nonneg (offset_s p)) \<and>
     (\<forall>i. Suc i < length ps \<longrightarrow> fl_ge (offset_s (ps ! Suc i)) (chunk_end (ps ! i)))"

lemma chunk_end_nonneg: "fl_nonneg (offset_s p) \<Longrightarrow> fl_nonneg (chunk_end p)"
  by (simp add: chunk_end_def fl_nonneg_add chunk_duration_nonneg)

lemma leg_ok_end: "leg_ok ps e \<Longrightarrow> fl_nonneg e"
  by (auto simp: leg_ok_def chunk_end_nonneg)

lemma leg_ok_snoc:
  assumes "leg_ok ps e" and "ac_pcm c \<noteq> []" and "p = \<lparr>offset_s = fl_max (as_secs_f64 d) e, pc_chunk = c\<rparr>"
  shows "leg_ok (ps @ [p]) (chunk_end p)"
proof -
  have ge: "fl_ge (offset_s p) e" and nn: "fl_nonneg (offset_s p)"
    using fl_max_ge [OF as_secs_f64_nonneg leg_ok_end [OF assms(1)]] fl_nonneg_max [OF as_secs_f64_nonneg leg_ok_end [OF assms(1)]]
    by (simp_all add: assms(3))
  have "fl_ge (offset_s ((ps @ [p]) ! Suc i)) (chunk_end ((ps @ [p]) ! i))" if "Suc i < length (ps @ [p])" for i
  proof (cases "Suc i < length ps")
    case True
    then show ?thesis using assms(1) by (simp add: leg_ok_def nth_append)
  next
    case False
    then have i: "Suc i = length ps" using that by simp
    then have "ps \<noteq> []" and "last ps = ps ! i" by (metis Suc_neq_Zero list.size(3)) (metis i diff_Suc_1 last_conv_nth Suc_neq_Zero list.size(3))
    then have "e = chunk_end (ps ! i)" using assms(1) by (simp add: leg_ok_def)
    then show ?thesis using ge i by (simp add: nth_append)
  qed
  then show ?thesis using assms nn by (simp add: leg_ok_def)
qed

text \<open>What the two legs share: a push ignores an empty chunk, and places any other one after what the leg holds.\<close>

locale recorder_leg =
  fixes push_at :: "audio_recorder \<Rightarrow> nat \<Rightarrow> audio_chunk \<Rightarrow> audio_recorder"
    and leg :: "audio_recorder \<Rightarrow> placed_chunk list" and leg_end :: "audio_recorder \<Rightarrow> f64"
  assumes push_empty: "ac_pcm c = [] \<Longrightarrow> push_at s d c = s"
    and push_leg: "ac_pcm c \<noteq> [] \<Longrightarrow> leg (push_at s d c) = leg s @ [\<lparr>offset_s = fl_max (as_secs_f64 d) (leg_end s), pc_chunk = c\<rparr>]"
    and push_end: "ac_pcm c \<noteq> [] \<Longrightarrow>
      leg_end (push_at s d c) = chunk_end \<lparr>offset_s = fl_max (as_secs_f64 d) (leg_end s), pc_chunk = c\<rparr>"
begin

lemma push_ok: "leg_ok (leg s) (leg_end s) \<Longrightarrow> leg_ok (leg (push_at s d c)) (leg_end (push_at s d c))"
  by (cases "ac_pcm c = []") (simp_all add: push_empty push_leg push_end leg_ok_snoc)

lemma push_chunks:
  "map pc_chunk (leg (push_at s d c)) = map pc_chunk (leg s) @ (if ac_pcm c = [] then [] else [c])"
  by (cases "ac_pcm c = []") (simp_all add: push_empty push_leg)

end

interpretation caller: recorder_leg push_inbound_at rec_inbound inbound_end_s
  by unfold_locales (simp_all add: push_inbound_at_def place_def chunk_end_def)

interpretation agent: recorder_leg push_outbound_at rec_outbound outbound_end_s
  by unfold_locales (simp_all add: push_outbound_at_def place_def chunk_end_def)

lemma push_other_leg [simp]:
  "rec_outbound (push_inbound_at s d c) = rec_outbound s" "outbound_end_s (push_inbound_at s d c) = outbound_end_s s"
  "rec_inbound (push_outbound_at s d c) = rec_inbound s" "inbound_end_s (push_outbound_at s d c) = inbound_end_s s"
  by (simp_all add: push_inbound_at_def push_outbound_at_def split: option.split)

section \<open>Recorded calls\<close>

datatype leg_side = Caller | Agent

fun rec_tap :: "audio_recorder \<Rightarrow> nat \<times> leg_side \<times> audio_chunk \<Rightarrow> audio_recorder" where
  "rec_tap s (now, Caller, c) = push_inbound now s c"
| "rec_tap s (now, Agent, c) = push_outbound now s c"

definition leg_chunks :: "leg_side \<Rightarrow> (nat \<times> leg_side \<times> audio_chunk) list \<Rightarrow> audio_chunk list" where
  "leg_chunks sd es = filter (\<lambda>c. ac_pcm c \<noteq> []) (map (\<lambda>(now, x, c). c) (filter (\<lambda>(now, x, c). x = sd) es))"

definition recorder_ok :: "audio_recorder \<Rightarrow> bool" where
  "recorder_ok s \<longleftrightarrow> leg_ok (rec_inbound s) (inbound_end_s s) \<and> leg_ok (rec_outbound s) (outbound_end_s s)"

lemma rec_tick_fields [simp]:
  "rec_inbound (fst (rec_tick now s)) = rec_inbound s" "rec_outbound (fst (rec_tick now s)) = rec_outbound s"
  "inbound_end_s (fst (rec_tick now s)) = inbound_end_s s" "outbound_end_s (fst (rec_tick now s)) = outbound_end_s s"
  by (simp_all add: rec_tick_def split: option.split)

lemma rec_tap_ok: "recorder_ok s \<Longrightarrow> recorder_ok (rec_tap s e)"
  using caller.push_ok agent.push_ok
  by (cases "(s, e)" rule: rec_tap.cases)
     (simp_all add: recorder_ok_def push_inbound_def push_outbound_def case_prod_unfold Let_def)

lemma rec_tap_chunks:
  "map pc_chunk (rec_inbound (rec_tap s e)) = map pc_chunk (rec_inbound s) @ leg_chunks Caller [e]"
  "map pc_chunk (rec_outbound (rec_tap s e)) = map pc_chunk (rec_outbound s) @ leg_chunks Agent [e]"
  by (cases "(s, e)" rule: rec_tap.cases;
      simp add: push_inbound_def push_outbound_def case_prod_unfold Let_def caller.push_chunks agent.push_chunks leg_chunks_def)+

lemma leg_chunks_append: "leg_chunks sd (xs @ ys) = leg_chunks sd xs @ leg_chunks sd ys"
  by (simp add: leg_chunks_def)

text \<open>Whatever the two taps deliver, in any interleaving and at any clock readings, the recorder keeps every
  non-empty chunk of a leg once and in order, no two chunks of a leg overlap on the timeline, and the reported
  call duration is the later end of the two legs.\<close>

lemma recorder_timeline_ok:
  "recorder_ok (foldl rec_tap (audio_recorder_new r) es) \<and>
   map pc_chunk (rec_inbound (foldl rec_tap (audio_recorder_new r) es)) = leg_chunks Caller es \<and>
   map pc_chunk (rec_outbound (foldl rec_tap (audio_recorder_new r) es)) = leg_chunks Agent es \<and>
   fl_ge (duration_seconds (foldl rec_tap (audio_recorder_new r) es)) (inbound_end_s (foldl rec_tap (audio_recorder_new r) es)) \<and>
   fl_ge (duration_seconds (foldl rec_tap (audio_recorder_new r) es)) (outbound_end_s (foldl rec_tap (audio_recorder_new r) es))"
proof -
  have "recorder_ok (foldl rec_tap (audio_recorder_new r) es) \<and>
     map pc_chunk (rec_inbound (foldl rec_tap (audio_recorder_new r) es)) = leg_chunks Caller es \<and>
     map pc_chunk (rec_outbound (foldl rec_tap (audio_recorder_new r) es)) = leg_chunks Agent es"
  proof (induction es rule: rev_induct)
    case Nil
    show ?case by (simp add: audio_recorder_new_def recorder_ok_def leg_ok_def leg_chunks_def)
  next
    case (snoc e es)
    then show ?case by (simp add: rec_tap_ok rec_tap_chunks leg_chunks_append)
  qed
  then show ?thesis
    using fl_max_ge leg_ok_end unfolding recorder_ok_def duration_seconds_def by blast
qed

section \<open>Rendered legs\<close>

text \<open>Where the chunks of a leg start in the output: at their placement, or where the previous chunk ends.\<close>

fun starts :: "u32 \<Rightarrow> nat \<Rightarrow> placed_chunk list \<Rightarrow> nat list" where
  "starts rate n [] = []"
| "starts rate n (pc # pcs) =
     (let k = max n (sample_position rate pc) in k # starts rate (k + length (ac_pcm (pc_chunk pc))) pcs)"

lemma length_starts [simp]: "length (starts rate n pcs) = length pcs"
  by (induction pcs arbitrary: n) (simp_all add: Let_def)

lemma length_pad_to [simp]: "length (pad_to n out) = max n (length out)"
  by (simp add: pad_to_def)

lemma pad_to_split: "\<exists>z. pad_to n out = out @ z \<and> set z \<subseteq> {0}"
  by (auto simp: pad_to_def)

text \<open>A leg at the output rate, sample by sample, from position \<open>n\<close> on: what a chunk says where one stands, silence
  elsewhere; and where it ends.\<close>

definition leg_at :: "u32 \<Rightarrow> nat \<Rightarrow> placed_chunk list \<Rightarrow> nat \<Rightarrow> int" where
  "leg_at rate n pcs j =
     (case find (\<lambda>(k, pc). k \<le> j \<and> j < k + length (ac_pcm (pc_chunk pc))) (zip (starts rate n pcs) pcs) of
        None \<Rightarrow> 0
      | Some (k, pc) \<Rightarrow> sint (ac_pcm (pc_chunk pc) ! (j - k)))"

definition leg_length :: "u32 \<Rightarrow> nat \<Rightarrow> placed_chunk list \<Rightarrow> nat" where
  "leg_length rate n pcs =
     (if pcs = [] then n else last (starts rate n pcs) + length (ac_pcm (pc_chunk (last pcs))))"

lemma leg_at_simps [simp]:
  "leg_at rate n [] j = 0"
  "leg_at rate n (pc # pcs) j =
     (let k = max n (sample_position rate pc)
      in if k \<le> j \<and> j < k + length (ac_pcm (pc_chunk pc)) then sint (ac_pcm (pc_chunk pc) ! (j - k))
         else leg_at rate (k + length (ac_pcm (pc_chunk pc))) pcs j)"
  by (simp_all add: leg_at_def Let_def)

lemma starts_eq_Nil [simp]: "starts rate n pcs = [] \<longleftrightarrow> pcs = []"
  by (cases pcs) (simp_all add: Let_def)

lemma leg_length_simps [simp]:
  "leg_length rate n [] = n"
  "leg_length rate n (pc # pcs) = leg_length rate (max n (sample_position rate pc) + length (ac_pcm (pc_chunk pc))) pcs"
  by (simp_all add: leg_length_def Let_def)

definition leg_sample :: "i16 list \<Rightarrow> nat \<Rightarrow> int" where
  "leg_sample out j = (if j < length out then sint (out ! j) else 0)"

lemma leg_sample_append:
  "leg_sample (xs @ ys) j = (if j < length xs then leg_sample xs j else leg_sample ys (j - length xs))"
  by (auto simp: leg_sample_def nth_append)

lemma leg_sample_silence: "set z \<subseteq> {0} \<Longrightarrow> leg_sample z j = 0"
  unfolding leg_sample_def by (metis nth_mem singletonD sint_0 subsetD)

lemma leg_at_before: "j < n \<Longrightarrow> leg_at rate n pcs j = 0"
  by (induction pcs arbitrary: n) (simp_all add: Let_def)

text \<open>On a leg already at the output rate nothing is resampled, nothing written is touched again, and a gap is filled with
  silence.\<close>

lemma place_chunks_same_rate:
  assumes "\<forall>pc\<in>set pcs. ac_sample_rate (pc_chunk pc) = rate"
  shows "\<exists>out2. place_chunks R rate pcs out rss = Inr (out @ out2, rss) \<and>
    length (out @ out2) = leg_length rate (length out) pcs \<and>
    (\<forall>j. leg_sample (out @ out2) j = (if j < length out then leg_sample out j else leg_at rate (length out) pcs j))"
  using assms
proof (induction pcs arbitrary: out)
  case Nil
  then show ?case by (intro exI [of _ "[]"]) (simp add: leg_sample_def)
next
  case (Cons pc pcs)
  let ?pcm = "ac_pcm (pc_chunk pc)" and ?k = "max (length out) (sample_position rate pc)"
  obtain z where z: "pad_to (sample_position rate pc) out = out @ z" "set z \<subseteq> {0}" using pad_to_split by blast
  have len: "length (out @ z) = ?k" using length_pad_to [of "sample_position rate pc" out] z(1) by simp
  have k2: "length (out @ z @ ?pcm) = ?k + length ?pcm" using len by simp
  obtain o2 where o2: "place_chunks R rate pcs (out @ z @ ?pcm) rss = Inr ((out @ z @ ?pcm) @ o2, rss)"
    "length ((out @ z @ ?pcm) @ o2) = leg_length rate (?k + length ?pcm) pcs"
    "\<And>j. leg_sample ((out @ z @ ?pcm) @ o2) j =
       (if j < ?k + length ?pcm then leg_sample (out @ z @ ?pcm) j else leg_at rate (?k + length ?pcm) pcs j)"
    using Cons.IH [of "out @ z @ ?pcm"] Cons.prems unfolding k2 by auto
  have mid: "leg_sample (out @ z @ ?pcm) j =
      (if j < length out then leg_sample out j else if ?k \<le> j then leg_sample ?pcm (j - ?k) else 0)" if "j < ?k + length ?pcm" for j
    using leg_sample_append [of "out @ z" ?pcm j] leg_sample_append [of out z j] leg_sample_silence [OF z(2)] len by auto
  have "leg_sample (out @ z @ ?pcm @ o2) j = (if j < length out then leg_sample out j else leg_at rate (length out) (pc # pcs) j)" for j
  proof (cases "j < ?k + length ?pcm")
    case True
    have "leg_sample ((out @ z @ ?pcm) @ o2) j = leg_sample (out @ z @ ?pcm) j" using o2(3) [of j] True by simp
    moreover have "leg_at rate (?k + length ?pcm) pcs j = 0" using True by (rule leg_at_before)
    ultimately show ?thesis using mid [OF True] True by (auto simp: Let_def leg_sample_def)
  next
    case False
    then have "\<not> j < length out" by auto
    then show ?thesis using o2(3) [of j] False by (simp add: Let_def)
  qed
  then show ?case using o2(1,2) z Cons.prems by (intro exI [of _ "z @ ?pcm @ o2"]) (simp add: Let_def)
qed

lemma render_leg_same_rate:
  assumes "\<forall>pc\<in>set pcs. ac_sample_rate (pc_chunk pc) = rate" and "order [] = []"
  shows "\<exists>out. render_leg R order pcs rate = Inr out \<and> length out = leg_length rate 0 pcs \<and>
    (\<forall>j. leg_sample out j = leg_at rate 0 pcs j)"
  using place_chunks_same_rate [OF assms(1), of R "[]" "[]"] assms(2) by (auto simp: render_leg_def)

lemma sint_mix_sample: "sint (mix_sample a b) = max (- 32768) (min 32767 (sint a + sint b))"
  by (simp add: mix_sample_def sint_sbintrunc' signed_take_bit_int_eq_self)

text \<open>C27. The rendered recording of a call both of whose legs are at the recorder's rate is, sample by sample, the sum of
  the two legs clamped into 16 bits, over the length of the longer leg. A leg is its chunks, each where the timeline
  puts it (at its wall-clock sample, or right after the leg's previous chunk), and silence everywhere else.\<close>

theorem recording_mixes_in_place:
  assumes "\<forall>pc\<in>set (rec_inbound s) \<union> set (rec_outbound s). ac_sample_rate (pc_chunk pc) = rec_sample_rate s"
    and "order [] = []"
  shows "\<exists>mixed.
    render_wav R order wav s = (case wav (rec_sample_rate s) mixed of Inl e \<Rightarrow> Inl (ErrCodec e) | Inr bs \<Rightarrow> Inr bs) \<and>
    length mixed = max (leg_length (rec_sample_rate s) 0 (rec_inbound s)) (leg_length (rec_sample_rate s) 0 (rec_outbound s)) \<and>
    (\<forall>j<length mixed. sint (mixed ! j) = max (- 32768) (min 32767
       (leg_at (rec_sample_rate s) 0 (rec_inbound s) j + leg_at (rec_sample_rate s) 0 (rec_outbound s) j)))"
proof -
  obtain c where c: "render_leg R order (rec_inbound s) (rec_sample_rate s) = Inr c"
    "length c = leg_length (rec_sample_rate s) 0 (rec_inbound s)" "\<And>j. leg_sample c j = leg_at (rec_sample_rate s) 0 (rec_inbound s) j"
    using render_leg_same_rate [of "rec_inbound s" "rec_sample_rate s" order R] assms by auto
  obtain a where a: "render_leg R order (rec_outbound s) (rec_sample_rate s) = Inr a"
    "length a = leg_length (rec_sample_rate s) 0 (rec_outbound s)" "\<And>j. leg_sample a j = leg_at (rec_sample_rate s) 0 (rec_outbound s) j"
    using render_leg_same_rate [of "rec_outbound s" "rec_sample_rate s" order R] assms by auto
  have "\<forall>j<length (mix_legs c a). sint (mix_legs c a ! j) = max (- 32768) (min 32767 (leg_sample c j + leg_sample a j))"
    by (simp add: mix_legs_def sint_mix_sample leg_sample_def)
  moreover have "length (mix_legs c a) = max (length c) (length a)" by (simp add: mix_legs_def)
  ultimately show ?thesis
    by (intro exI [of _ "mix_legs c a"]) (simp add: render_wav_def a c)
qed

definition demo_recorder :: audio_recorder where
  "demo_recorder =
     \<lparr>rec_sample_rate = 8000, rec_inbound = [\<lparr>offset_s = FNum 0, pc_chunk = \<lparr>ac_pcm = [30000, 7], ac_sample_rate = 8000\<rparr>\<rparr>],
      rec_outbound = [\<lparr>offset_s = FNum (1 / 4000), pc_chunk = \<lparr>ac_pcm = [30000], ac_sample_rate = 8000\<rparr>\<rparr>,
        \<lparr>offset_s = FNum 0, pc_chunk = \<lparr>ac_pcm = [5], ac_sample_rate = 8000\<rparr>\<rparr>],
      rec_start = Some 0, inbound_end_s = FNum (1 / 4000), outbound_end_s = FNum (1 / 8000)\<rparr>"

lemma demo_positions:
  "sample_position 8000 \<lparr>offset_s = FNum 0, pc_chunk = c\<rparr> = 0"
  "sample_position 8000 \<lparr>offset_s = FNum (1 / 4000), pc_chunk = c\<rparr> = 2"
proof -
  have r: "fl_round f64_fmt (of_nat n) = FNum (of_nat n)" if "n < 2 ^ 53" for n :: nat
    using f64_of_nat_exact [OF that] by (simp add: f64_of_nat_def)
  show "sample_position 8000 \<lparr>offset_s = FNum 0, pc_chunk = c\<rparr> = 0"
    using r [of 0] r [of 8000] by (simp add: sample_position_def f64_of_nat_def fl_as_usize_def round_half_away_def)
  have half: "\<lfloor>5 / 2 :: rat\<rfloor> = 2" by (simp add: floor_eq_iff)
  show "sample_position 8000 \<lparr>offset_s = FNum (1 / 4000), pc_chunk = c\<rparr> = 2"
    using r [of 2] r [of 8000] half by (simp add: sample_position_def f64_of_nat_def fl_as_usize_def round_half_away_def)
qed

theorem recording_mixes_in_place_witness:
  "\<exists>mixed :: i16 list. render_wav demo_rubato id (\<lambda>r ss. Inr [word_of_nat (length ss)]) demo_recorder = Inr [4] \<and>
    map sint mixed = [30000, 7, 30000, 5]"
proof -
  have "\<forall>pc\<in>set (rec_inbound demo_recorder) \<union> set (rec_outbound demo_recorder).
      ac_sample_rate (pc_chunk pc) = rec_sample_rate demo_recorder" by (simp add: demo_recorder_def)
  from recording_mixes_in_place [OF this, of id demo_rubato "\<lambda>r ss. Inr [word_of_nat (length ss)]"] obtain mixed :: "i16 list"
    where m: "render_wav demo_rubato id (\<lambda>r ss. Inr [word_of_nat (length ss)]) demo_recorder = Inr [word_of_nat (length mixed)]"
      "length mixed = max (leg_length 8000 0 (rec_inbound demo_recorder)) (leg_length 8000 0 (rec_outbound demo_recorder))"
      "\<And>j. j < length mixed \<Longrightarrow> sint (mixed ! j) = max (- 32768) (min 32767
         (leg_at 8000 0 (rec_inbound demo_recorder) j + leg_at 8000 0 (rec_outbound demo_recorder) j))"
    by (auto simp: demo_recorder_def)
  have len: "length mixed = 4" using m(2) by (simp add: demo_recorder_def demo_positions)
  have "sint (mixed ! 0) = 30000" "sint (mixed ! 1) = 7" "sint (mixed ! 2) = 30000" "sint (mixed ! 3) = 5"
    using m(3) [of 0] m(3) [of 1] m(3) [of 2] m(3) [of 3] len by (simp_all add: demo_recorder_def demo_positions Let_def)
  moreover obtain a b c d where "mixed = [a, b, c, d]" using len by (auto simp: numeral_eq_Suc length_Suc_conv)
  ultimately have "map sint mixed = [30000, 7, 30000, 5]" by simp
  with m(1) len show ?thesis by (intro exI [of _ mixed]) simp
qed

text \<open>Output is only ever appended.\<close>

lemma place_chunks_extends: "place_chunks R rate pcs out rss = Inr (out', rss') \<Longrightarrow> \<exists>z. out' = out @ z"
proof (induction R rate pcs out rss rule: place_chunks.induct)
  case (2 R rate pc pcs out rss)
  obtain z where z: "pad_to (sample_position rate pc) out = out @ z" using pad_to_split by blast
  show ?case using 2 by (fastforce simp: Let_def z split: if_splits sum.splits prod.splits)
qed simp

lemma flush_resamplers_extends: "flush_resamplers R rss out = Inr out' \<Longrightarrow> \<exists>z. out' = out @ z"
  by (induction R rss out rule: flush_resamplers.induct) (fastforce split: prod.splits sum.splits)+

text \<open>The gap before a turn is not kept free of the turn before it: a turn whose last samples do not fill a block
  of the resampler leaves them in its carry buffer, so they are written after the gap, in front of the next turn. For a
  first chunk shorter than a block, everything up to the second chunk's place is silence.\<close>

lemma recording_delays_turn_tail:
  assumes "ac_sample_rate (pc_chunk p1) \<noteq> rate" and "ac_sample_rate (pc_chunk p1) \<noteq> 0" and "rate \<noteq> 0"
    and "length (ac_pcm (pc_chunk p1)) < BLOCK"
    and "rub_new R (ac_sample_rate (pc_chunk p1)) rate = Inr r0" and "render_leg R order (p1 # p2 # pcs) rate = Inr out"
    and "sample_position rate p1 \<le> sample_position rate p2"
  shows "sample_position rate p2 \<le> length out \<and> take (sample_position rate p2) out = replicate (sample_position rate p2) 0"
proof -
  let ?r = "ac_sample_rate (pc_chunk p1)" and ?n = "sample_position rate p2"
  define rs0 where "rs0 = \<lparr>from_rate = ?r, to_rate = rate, rs_inner = Some r0, in_buf = []\<rparr>"
  define rs where "rs = rs0\<lparr>in_buf := ac_pcm (pc_chunk p1)\<rparr>"
  have new: "resampler_new R ?r rate = Inr rs0" using assms(1-3,5) by (simp add: resampler_new_def rs0_def)
  have proc: "resampler_process R rs0 (pc_chunk p1) = (rs, Inr \<lparr>ac_pcm = [], ac_sample_rate = rate\<rparr>)"
    using assms(4) by (simp add: resampler_process_def process_blocks.simps rs_def rs0_def)
  have one: "place_chunks R rate (p1 # q) [] [] = place_chunks R rate q (replicate (sample_position rate p1) 0) [(?r, rs)]" for q
    using assms(1) by (simp add: new proc pad_to_def Let_def)
  have pad: "pad_to ?n (replicate (sample_position rate p1) 0) = replicate ?n (0 :: i16)"
    using assms(7) by (simp add: pad_to_def flip: replicate_add)
  have two: "\<exists>z. o1 = replicate ?n 0 @ z"
    if "place_chunks R rate (p2 # pcs) (replicate (sample_position rate p1) 0) m = Inr (o1, m')" for o1 m m'
    using that place_chunks_extends
    by (fastforce simp: pad Let_def simp del: replicate.simps split: if_splits sum.splits prod.splits)
  have "\<exists>z. out = replicate ?n 0 @ z"
    using assms(6) two flush_resamplers_extends unfolding render_leg_def one
    by (fastforce split: sum.splits prod.splits)
  then show ?thesis by auto
qed

definition demo_turn :: "rat \<Rightarrow> placed_chunk" where
  "demo_turn t = \<lparr>offset_s = FNum t, pc_chunk = \<lparr>ac_pcm = [9, 9], ac_sample_rate = 24000\<rparr>\<rparr>"

lemma demo_turn_position: "sample_position 8000 (demo_turn 0) = 0" "sample_position 8000 (demo_turn (1 / 1024)) = 8"
proof -
  have "fl_round f64_fmt (125 / 16) = FNum (125 / 16)"
    by (intro fl_round_exact [where m = 125 and k = "- 4"]) (simp_all add: f64_fmt_def pow2_def)
  moreover have "round_half_away (125 / 16) = 8" by (simp add: round_half_away_def floor_eq_iff)
  moreover have "f64_of_nat 8000 = FNum 8000" using f64_of_nat_exact [of 8000] by simp
  ultimately show "sample_position 8000 (demo_turn 0) = 0" "sample_position 8000 (demo_turn (1 / 1024)) = 8"
    by (simp_all add: sample_position_def demo_turn_def fl_round_def fl_as_usize_def round_half_away_def)
qed

end
