(* ===== verification/Live_State.thy ===== *)
theory Live_State
  imports Agent_Engine Transcript Recorder Frame_Taps
begin

text \<open>
  The shared state of a live call and the frames that only the session drivers know, from
  \<^verbatim>\<open>flowcat-core/src/pipeline/s2s.rs\<close>: the \<open>Custom\<close> frames between model, brain and recorder, \<open>LiveState\<close> with its
  accumulation rules, the recorder and transcript taps, and the finalize step.

  Frames of a session carry \<open>sess_value\<close>: plain JSON, or the value behind a custom frame. The embedder's
  \<open>SessionSource\<close> is an argument that says how it answers each request; what was asked of it is kept as a log.
  Rendering a float as a JSON number is the argument \<open>show_f64\<close>.
\<close>

section \<open>Session frames\<close>

record usage =
  input_tokens :: "u64 option"
  output_tokens :: "u64 option"
  us_total_tokens :: "u64 option"
  us_extra :: "json option"

definition usage_default :: usage where
  "usage_default = \<lparr>input_tokens = None, output_tokens = None, us_total_tokens = None, us_extra = None\<rparr>"

datatype sess_value =
    JsonValue json
  | ModelToolCall ustr ustr json
  | ToolResult ustr json
  | Reprompt ustr "tool_decl list"
  | UsageReport usage

type_synonym sess_frame = "sess_value frame"
type_synonym sess_env = "sess_value envelope"

definition model_tool_call :: "ustr \<Rightarrow> ustr \<Rightarrow> json \<Rightarrow> sess_frame" where
  "model_tool_call i name args =
     Custom \<lparr>cf_class = System, cf_uninterruptible = False, cf_name = ''ModelToolCall'', cf_any = 0,
       cf_value = Some (ModelToolCall i name args)\<rparr>"

definition tool_result :: "ustr \<Rightarrow> json \<Rightarrow> sess_frame" where
  "tool_result i result =
     Custom \<lparr>cf_class = System, cf_uninterruptible = True, cf_name = ''ToolResult'', cf_any = 0,
       cf_value = Some (ToolResult i result)\<rparr>"

definition reprompt :: "ustr \<Rightarrow> tool_decl list \<Rightarrow> sess_frame" where
  "reprompt p ts =
     Custom \<lparr>cf_class = System, cf_uninterruptible = True, cf_name = ''Reprompt'', cf_any = 0,
       cf_value = Some (Reprompt p ts)\<rparr>"

definition usage_report :: "usage \<Rightarrow> sess_frame" where
  "usage_report u =
     Custom \<lparr>cf_class = Data, cf_uninterruptible = False, cf_name = ''UsageReport'', cf_any = 0,
       cf_value = Some (UsageReport u)\<rparr>"

text \<open>The downcast: the value behind a custom frame.\<close>

definition custom_value :: "sess_frame \<Rightarrow> sess_value option" where
  "custom_value f = (case f of Custom c \<Rightarrow> cf_value c | _ \<Rightarrow> None)"

lemma custom_value_simps [simp]:
  "custom_value (model_tool_call i nm a) = Some (ModelToolCall i nm a)"
  "custom_value (tool_result i r) = Some (ToolResult i r)"
  "custom_value (reprompt p ts) = Some (Reprompt p ts)"
  "custom_value (usage_report u) = Some (UsageReport u)"
  by (simp_all add: custom_value_def model_tool_call_def tool_result_def reprompt_def usage_report_def)

lemma custom_value_named [simp]:
  "custom_value (Transcription t u l fin) = None" "custom_value (InterimTranscription t u l) = None"
  "custom_value (InputAudio a) = None" "custom_value (OutputAudio a) = None" "custom_value (Metrics ms) = None"
  "custom_value BotStoppedSpeaking = None" "custom_value Interruption = None" "custom_value ClientConnected = None"
  "custom_value (End r) = None"
  by (simp_all add: custom_value_def)

section \<open>Live state\<close>

record live_state =
  lv_recorder :: audio_recorder
  lv_transcript :: transcript
  lv_disposition :: "ustr option"
  lv_collected_vars :: json
  lv_usage :: usage
  lv_tool_calls :: u64
  lv_tts_characters :: u64
  lv_stt_audio_seconds :: f64
  lv_error :: "flowcat_error option"
  lv_transport_dead :: bool

definition live_state_new :: "u32 \<Rightarrow> live_state" where
  "live_state_new rate =
     \<lparr>lv_recorder = audio_recorder_new rate, lv_transcript = [], lv_disposition = None, lv_collected_vars = JNull,
      lv_usage = usage_default, lv_tool_calls = 0, lv_tts_characters = 0, lv_stt_audio_seconds = FNum 0,
      lv_error = None, lv_transport_dead = False\<rparr>"

definition record_error :: "live_state \<Rightarrow> flowcat_error \<Rightarrow> live_state" where
  "record_error st e =
     (let is_transport = (case e of ErrTransport _ \<Rightarrow> True | _ \<Rightarrow> False)
      in if is_transport \<and> lv_transport_dead st then st
         else let st1 = (if is_transport then st\<lparr>lv_transport_dead := True\<rparr> else st)
              in if lv_error st1 = None then st1\<lparr>lv_error := Some e\<rparr> else st1)"

text \<open>\<open>a + b\<close> on \<open>u64\<close> wraps in a release build.\<close>

fun add_opt :: "u64 option \<Rightarrow> u64 option \<Rightarrow> u64 option" where
  "add_opt (Some a) (Some b) = Some (a + b)"
| "add_opt (Some a) None = Some a"
| "add_opt None b = b"

definition add_usage :: "usage \<Rightarrow> usage \<Rightarrow> usage" where
  "add_usage t u =
     \<lparr>input_tokens = add_opt (input_tokens t) (input_tokens u),
      output_tokens = add_opt (output_tokens t) (output_tokens u),
      us_total_tokens = add_opt (us_total_tokens t) (us_total_tokens u),
      us_extra = (case us_extra u of None \<Rightarrow> us_extra t | Some x \<Rightarrow> Some x)\<rparr>"

definition accumulate_usage :: "live_state \<Rightarrow> usage \<Rightarrow> live_state" where
  "accumulate_usage st u = st\<lparr>lv_usage := add_usage (lv_usage st) u\<rparr>"

definition json_u64 :: "u64 \<Rightarrow> json" where
  "json_u64 n = JNum (show_nat (unat n))"

definition json_opt_u64 :: "u64 option \<Rightarrow> json" where
  "json_opt_u64 n = (case n of None \<Rightarrow> JNull | Some k \<Rightarrow> json_u64 k)"

definition json_f64 :: "(f64 \<Rightarrow> ustr) \<Rightarrow> f64 \<Rightarrow> json" where
  "json_f64 show_f64 a = (case a of FNum _ \<Rightarrow> JNum (show_f64 a) | _ \<Rightarrow> JNull)"

definition jentry :: "ustr \<Rightarrow> json \<Rightarrow> jmap \<Rightarrow> jmap" where
  "jentry k v m = (if map_of m k = None then jinsert k v m else m)"

text \<open>\<open>json!({ "role": role, "content": content })\<close>.\<close>

definition json_message :: "string \<Rightarrow> ustr \<Rightarrow> json" where
  "json_message role content = JObj [(lit ''content'', JStr content), (lit ''role'', JStr (lit role))]"

definition usage_to_value :: "usage \<Rightarrow> jmap" where
  "usage_to_value u =
     [(lit ''extra'', case us_extra u of None \<Rightarrow> JNull | Some x \<Rightarrow> x),
      (lit ''input_tokens'', json_opt_u64 (input_tokens u)),
      (lit ''output_tokens'', json_opt_u64 (output_tokens u)),
      (lit ''total_tokens'', json_opt_u64 (us_total_tokens u))]"

definition usage_json :: "(f64 \<Rightarrow> ustr) \<Rightarrow> live_state \<Rightarrow> json" where
  "usage_json show_f64 st =
     (let m1 = jentry (lit ''duration_seconds'') (json_f64 show_f64 (duration_seconds (lv_recorder st)))
                 (usage_to_value (lv_usage st));
          m2 = jentry (lit ''user_turns'') (json_u64 (user_turns (lv_transcript st))) m1;
          m3 = jentry (lit ''bot_turns'') (json_u64 (bot_turns (lv_transcript st))) m2;
          m4 = jentry (lit ''tool_calls'') (json_u64 (lv_tool_calls st)) m3;
          m5 = (if lv_tts_characters st > 0
                then jentry (lit ''tts_characters'') (json_u64 (lv_tts_characters st)) m4 else m4);
          m6 = (if \<not> fl_le (lv_stt_audio_seconds st) (FNum 0) \<and> lv_stt_audio_seconds st \<noteq> FNaN
                then jentry (lit ''stt_audio_seconds'')
                       (json_f64 show_f64
                          (fl_div f64_fmt (fl_round_int (fl_mul f64_fmt (lv_stt_audio_seconds st) (FNum 100))) (FNum 100))) m5
                else m5)
      in JObj m6)"

definition merge_disposition :: "json \<Rightarrow> ustr option \<Rightarrow> json" where
  "merge_disposition vars disposition =
     (case (vars, disposition) of
        (JObj m, Some d) \<Rightarrow> JObj (jentry (lit ''call_disposition'') (JStr d) m)
      | (other, _) \<Rightarrow> other)"

section \<open>The taps\<close>

definition is_bot :: "ustr \<Rightarrow> bool" where
  "is_bot user_id = (user_id = lit ''bot'')"

text \<open>The recorder tap: an envelope with the clock reading at which it is handled.\<close>

fun fold_metric :: "live_state \<Rightarrow> metrics_data \<Rightarrow> live_state" where
  "fold_metric st (LlmUsage p md tk) =
     accumulate_usage st \<lparr>input_tokens = Some (prompt_tokens tk), output_tokens = Some (completion_tokens tk),
       us_total_tokens = Some (total_tokens tk), us_extra = None\<rparr>"
| "fold_metric st (TtsUsage p chars) = st\<lparr>lv_tts_characters := lv_tts_characters st + chars\<rparr>"
| "fold_metric st (SttUsage p secs) = st\<lparr>lv_stt_audio_seconds := fl_add f64_fmt (lv_stt_audio_seconds st) secs\<rparr>"
| "fold_metric st _ = st"

definition recorder_observe :: "live_state \<Rightarrow> nat \<Rightarrow> sess_frame \<Rightarrow> live_state" where
  "recorder_observe st now f =
     (case f of
        InputAudio a \<Rightarrow> st\<lparr>lv_recorder := push_inbound now (lv_recorder st) (chunk_of_frame a)\<rparr>
      | Custom c \<Rightarrow> (case cf_value c of Some (UsageReport u) \<Rightarrow> accumulate_usage st u | _ \<Rightarrow> st)
      | Metrics items \<Rightarrow> foldl fold_metric st items
      | _ \<Rightarrow> st)"

definition recorder_process :: "(live_state, sess_env \<times> nat, sess_value) tap_step" where
  "recorder_process l st x n =
     (case x of (env, now) \<Rightarrow> Some (recorder_observe st now (env_frame env), push_env l env, n))"

text \<open>The transcript tap. It takes interim and final transcriptions alike.\<close>

definition transcript_observe :: "live_state \<Rightarrow> sess_frame \<Rightarrow> live_state" where
  "transcript_observe st f =
     (case f of
        Transcription t user_id lang fin \<Rightarrow>
          st\<lparr>lv_transcript :=
            (if is_bot user_id then push_bot (lv_transcript st) t else push_user (lv_transcript st) t)\<rparr>
      | _ \<Rightarrow> st)"

definition transcript_process :: "(live_state, sess_env, sess_value) tap_step" where
  "transcript_process l st env n = Some (transcript_observe st (env_frame env), push_env l env, n)"

section \<open>Finalize\<close>

record finalize =
  fin_usage :: json
  fin_collected_vars :: json
  recording_url :: "ustr option"
  transcript_url :: "ustr option"

record upload_target =
  ut_url :: ustr
  ut_key :: ustr
  ut_content_type :: ustr

datatype session_call =
    ArtifactUploadUrl ustr
  | PutBytes ustr "u8 list" ustr
  | CompleteRun finalize

record session_source =
  ss_upload_url :: "ustr \<Rightarrow> flowcat_error + upload_target"
  ss_put_bytes :: "ustr \<Rightarrow> u8 list \<Rightarrow> ustr \<Rightarrow> flowcat_error option"
  ss_complete :: "finalize \<Rightarrow> flowcat_error option"
  ss_node_tools :: "ustr \<Rightarrow> flowcat_error + tool_decl list"
  ss_tool_call :: "ustr \<Rightarrow> ustr \<Rightarrow> json \<Rightarrow> flowcat_error + ustr"

definition upload_artifact ::
  "session_source \<Rightarrow> ustr \<Rightarrow> u8 list \<Rightarrow> ustr \<Rightarrow> ustr option \<times> session_call list" where
  "upload_artifact S knd bytes ctype =
     (case ss_upload_url S knd of
        Inl e \<Rightarrow> (None, [ArtifactUploadUrl knd])
      | Inr target \<Rightarrow>
          (let ct = (if ut_content_type target = [] then ctype else ut_content_type target)
           in (case ss_put_bytes S (ut_url target) bytes ct of None \<Rightarrow> Some (ut_key target) | Some e \<Rightarrow> None,
               [ArtifactUploadUrl knd, PutBytes (ut_url target) bytes ct])))"

record finalizer =
  fp_live :: live_state
  fp_finalized :: bool
  fp_log :: "session_call list"

text \<open>What the finalize step renders with: the WAV recording and the transcript bytes.\<close>

record renderers =
  rd_wav :: "audio_recorder \<Rightarrow> flowcat_error + u8 list"
  rd_json :: "json \<Rightarrow> u8 list"
  rd_f64 :: "f64 \<Rightarrow> ustr"

definition run_finalize :: "session_source \<Rightarrow> renderers \<Rightarrow> finalizer \<Rightarrow> finalizer" where
  "run_finalize S D p =
     (let st0 = fp_live p;
          vars = merge_disposition (lv_collected_vars st0) (lv_disposition st0);
          st = st0\<lparr>lv_collected_vars := vars\<rparr>;
          (rec_url, log1) = (case rd_wav D (lv_recorder st) of
              Inr bytes \<Rightarrow> upload_artifact S (lit ''recording'') bytes (lit ''audio/wav'')
            | Inl e \<Rightarrow> (None, []));
          (tr_url, log2) = upload_artifact S (lit ''transcript'') (rd_json D (transcript_render (lv_transcript st)))
            (lit ''application/json'');
          fin = \<lparr>fin_usage = usage_json (rd_f64 D) st, fin_collected_vars = vars,
                 recording_url = rec_url, transcript_url = tr_url\<rparr>
      in p\<lparr>fp_live := st, fp_log := fp_log p @ log1 @ log2 @ [CompleteRun fin]\<rparr>)"

definition finalize_stop :: "session_source \<Rightarrow> renderers \<Rightarrow> finalizer \<Rightarrow> stop_reason \<Rightarrow> finalizer" where
  "finalize_stop S D p reason =
     (if (reason = EndOfTask \<or> reason = Cancelled) \<and> \<not> fp_finalized p
      then run_finalize S D (p\<lparr>fp_finalized := True\<rparr>)
      else p)"

section \<open>The taps are transparent\<close>

definition recorder_watches :: "sess_frame \<Rightarrow> bool" where
  "recorder_watches f = (case f of InputAudio _ \<Rightarrow> True | Metrics _ \<Rightarrow> True | Custom _ \<Rightarrow> True | _ \<Rightarrow> False)"

definition transcript_watches :: "sess_frame \<Rightarrow> bool" where
  "transcript_watches f = (case f of Transcription _ _ _ _ \<Rightarrow> True | _ \<Rightarrow> False)"

interpretation recorder_tap: frame_tap recorder_process fst recorder_watches
proof
  fix x :: "sess_env \<times> nat" and l st n
  assume "\<not> recorder_watches (env_frame (fst x))"
  then have "recorder_observe st (snd x) (env_frame (fst x)) = st"
    by (cases "env_frame (fst x)") (simp_all add: recorder_watches_def recorder_observe_def)
  then show "recorder_process l st x n = Some (st, push_env l (fst x), n)"
    by (simp add: recorder_process_def case_prod_unfold)
qed

lemma transcript_observe_other: "\<not> transcript_watches f \<Longrightarrow> transcript_observe st f = st"
  by (cases f) (simp_all add: transcript_watches_def transcript_observe_def)

interpretation transcript_tap: frame_tap transcript_process id transcript_watches
  by unfold_locales (simp add: transcript_process_def transcript_observe_other)

lemma run_transcript:
  "run_frames transcript_process l st es n =
     Some (foldl transcript_observe st (map env_frame es), concat (map (push_env l) es), n)"
  by (induction es arbitrary: st) (simp_all add: transcript_process_def)

section \<open>Usage totals\<close>

definition total_opt :: "u64 option list \<Rightarrow> u64 option" where
  "total_opt xs = (if \<forall>x\<in>set xs. x = None then None else Some (sum_list (map (\<lambda>x. case x of None \<Rightarrow> 0 | Some k \<Rightarrow> k) xs)))"

lemma add_opt_total: "add_opt a (total_opt xs) = total_opt (a # xs)"
proof (cases "\<forall>x\<in>set xs. x = None")
  case True
  then have "sum_list (map (\<lambda>x. case x of None \<Rightarrow> 0 | Some k \<Rightarrow> k) xs) = (0 :: u64)" by (induction xs) auto
  then show ?thesis using True by (cases a) (simp_all add: total_opt_def)
next
  case False
  then show ?thesis by (cases a) (auto simp: total_opt_def)
qed

lemma add_opt_assoc: "add_opt (add_opt a b) c = add_opt a (add_opt b c)"
  by (cases a; cases b; cases c) (simp_all add: add.assoc)

lemma add_opt_None [simp]: "add_opt a None = a"
  by (cases a) simp_all

lemma foldl_add_opt: "foldl add_opt a xs = add_opt a (total_opt xs)"
proof (induction xs arbitrary: a)
  case Nil
  show ?case by (simp add: total_opt_def)
next
  case (Cons x xs)
  then show ?case by (simp add: add_opt_assoc flip: add_opt_total)
qed

lemma add_usage_fields:
  "input_tokens (foldl add_usage t us) = add_opt (input_tokens t) (total_opt (map input_tokens us))"
  "output_tokens (foldl add_usage t us) = add_opt (output_tokens t) (total_opt (map output_tokens us))"
  "us_total_tokens (foldl add_usage t us) = add_opt (us_total_tokens t) (total_opt (map us_total_tokens us))"
  unfolding foldl_add_opt [symmetric] by (induction us arbitrary: t) (simp_all add: add_usage_def)

text \<open>The usage a frame reports to the recorder tap, realtime or cascaded.\<close>

fun metric_usage :: "metrics_data \<Rightarrow> usage list" where
  "metric_usage (LlmUsage p md tk) =
     [\<lparr>input_tokens = Some (prompt_tokens tk), output_tokens = Some (completion_tokens tk),
       us_total_tokens = Some (total_tokens tk), us_extra = None\<rparr>]"
| "metric_usage _ = []"

definition frame_usage :: "sess_frame \<Rightarrow> usage list" where
  "frame_usage f =
     (case f of
        Custom c \<Rightarrow> (case cf_value c of Some (UsageReport u) \<Rightarrow> [u] | _ \<Rightarrow> [])
      | Metrics items \<Rightarrow> concat (map metric_usage items)
      | _ \<Rightarrow> [])"

lemma fold_metric_usage: "lv_usage (foldl fold_metric st items) = foldl add_usage (lv_usage st) (concat (map metric_usage items))"
proof (induction items arbitrary: st)
  case (Cons m items)
  show ?case by (cases m) (simp_all add: Cons accumulate_usage_def)
qed simp

lemma recorder_observe_usage: "lv_usage (recorder_observe st now f) = foldl add_usage (lv_usage st) (frame_usage f)"
  by (cases f) (simp_all add: recorder_observe_def frame_usage_def fold_metric_usage accumulate_usage_def
      split: option.split sess_value.split)

lemma recorder_run_usage:
  "run_frames recorder_process l st xs n = Some (st', es, n') \<Longrightarrow>
     lv_usage st' = foldl add_usage (lv_usage st) (concat (map (\<lambda>x. frame_usage (env_frame (fst x))) xs))"
proof (induction xs arbitrary: st n es n')
  case (Cons x xs)
  have step: "recorder_process l st x n = Some (recorder_observe st (snd x) (env_frame (fst x)), push_env l (fst x), n)"
    by (simp add: recorder_process_def case_prod_unfold)
  obtain es1 n1 where r: "run_frames recorder_process l (recorder_observe st (snd x) (env_frame (fst x))) xs n = Some (st', es1, n1)"
    using Cons.prems step by (auto split: Option.bind_splits)
  show ?case unfolding Cons.IH [OF r] by (simp add: recorder_observe_usage)
qed simp

lemma run_recorder:
  "run_frames recorder_process l st xs n =
     Some (foldl (\<lambda>st x. recorder_observe st (snd x) (env_frame (fst x))) st xs, concat (map (\<lambda>x. push_env l (fst x)) xs), n)"
  by (induction xs arbitrary: st) (simp_all add: recorder_process_def case_prod_unfold)

section \<open>The report\<close>

lemma map_of_jentry [simp]:
  "map_of (jentry k v m) k' = (if k' = k then Some (case map_of m k of None \<Rightarrow> v | Some w \<Rightarrow> w) else map_of m k')"
  by (auto simp: jentry_def split: option.split)

lemma usage_json_fields:
  "jget (usage_json sh st) (lit ''input_tokens'') = Some (json_opt_u64 (input_tokens (lv_usage st)))"
  "jget (usage_json sh st) (lit ''output_tokens'') = Some (json_opt_u64 (output_tokens (lv_usage st)))"
  "jget (usage_json sh st) (lit ''total_tokens'') = Some (json_opt_u64 (us_total_tokens (lv_usage st)))"
  "jget (usage_json sh st) (lit ''duration_seconds'') = Some (json_f64 sh (duration_seconds (lv_recorder st)))"
  "jget (usage_json sh st) (lit ''user_turns'') = Some (json_u64 (user_turns (lv_transcript st)))"
  "jget (usage_json sh st) (lit ''bot_turns'') = Some (json_u64 (bot_turns (lv_transcript st)))"
  "jget (usage_json sh st) (lit ''tool_calls'') = Some (json_u64 (lv_tool_calls st))"
  by (simp_all add: usage_json_def jget_def usage_to_value_def Let_def lit_def)

fun completions :: "session_call list \<Rightarrow> finalize list" where
  "completions [] = []"
| "completions (CompleteRun f # cs) = f # completions cs"
| "completions (_ # cs) = completions cs"

lemma completions_append [simp]: "completions (xs @ ys) = completions xs @ completions ys"
  by (induction xs rule: completions.induct) simp_all

lemma upload_artifact_facts:
  assumes "upload_artifact S knd bs ct = (u, lg)"
  shows "completions lg = []"
    and "u = Some key \<longleftrightarrow> (\<exists>t. ss_upload_url S knd = Inr t \<and> key = ut_key t \<and>
           ss_put_bytes S (ut_url t) bs (if ut_content_type t = [] then ct else ut_content_type t) = None)"
  using assms by (auto simp: upload_artifact_def Let_def split: sum.splits option.splits if_splits)

definition finalizer_new :: "live_state \<Rightarrow> finalizer" where
  "finalizer_new st = \<lparr>fp_live = st, fp_finalized = False, fp_log = []\<rparr>"

lemma finalize_stop_again: "fp_finalized p \<Longrightarrow> foldl (finalize_stop S D) p rs = p"
  by (induction rs) (simp_all add: finalize_stop_def)

lemma finalize_run:
  "foldl (finalize_stop S D) (finalizer_new st) rs =
     (if EndOfTask \<in> set rs \<or> Cancelled \<in> set rs then run_finalize S D ((finalizer_new st)\<lparr>fp_finalized := True\<rparr>)
      else finalizer_new st)"
proof (induction rs)
  case (Cons r rs)
  have "fp_finalized (run_finalize S D (p\<lparr>fp_finalized := True\<rparr>))" for p
    by (simp add: run_finalize_def Let_def case_prod_unfold)
  then have "foldl (finalize_stop S D) (run_finalize S D (p\<lparr>fp_finalized := True\<rparr>)) rs = run_finalize S D (p\<lparr>fp_finalized := True\<rparr>)" for p
    by (rule finalize_stop_again)
  moreover have "finalize_stop S D (finalizer_new st) r =
      (if r = Stopped then finalizer_new st else run_finalize S D ((finalizer_new st)\<lparr>fp_finalized := True\<rparr>))"
    by (cases r) (simp_all add: finalize_stop_def finalizer_new_def)
  ultimately show ?case using Cons by (cases r) simp_all
qed simp

lemma no_usage: "lv_usage st0 = usage_default \<Longrightarrow>
    input_tokens (foldl add_usage (lv_usage st0) us) = total_opt (map input_tokens us) \<and>
    output_tokens (foldl add_usage (lv_usage st0) us) = total_opt (map output_tokens us) \<and>
    us_total_tokens (foldl add_usage (lv_usage st0) us) = total_opt (map us_total_tokens us)"
  by (simp add: add_usage_fields usage_default_def)

text \<open>C22. The run is reported once: whatever sequence of stop signals reaches the finalize stage, the control plane is told
  exactly one completion if any of them is an end or a cancel, and none otherwise. The report carries the folded
  disposition; as token counts the sums of all the usage that the frames of the call reported to the recorder tap; the
  turn and tool counts; and a recording or transcript reference exactly when the upload of that artifact succeeded,
  and then the stored key of its target.\<close>

theorem finalize_reports_once:
  assumes "run_frames recorder_process l st0 xs n = Some (st, es, n')" and "lv_usage st0 = usage_default"
    and "us = concat (map (\<lambda>x. frame_usage (env_frame (fst x))) xs)"
  shows "if EndOfTask \<in> set rs \<or> Cancelled \<in> set rs
    then \<exists>fin. completions (fp_log (foldl (finalize_stop S D) (finalizer_new st) rs)) = [fin] \<and>
     fin_collected_vars fin = merge_disposition (lv_collected_vars st) (lv_disposition st) \<and>
     jget (fin_usage fin) (lit ''input_tokens'') = Some (json_opt_u64 (total_opt (map input_tokens us))) \<and>
     jget (fin_usage fin) (lit ''output_tokens'') = Some (json_opt_u64 (total_opt (map output_tokens us))) \<and>
     jget (fin_usage fin) (lit ''total_tokens'') = Some (json_opt_u64 (total_opt (map us_total_tokens us))) \<and>
     jget (fin_usage fin) (lit ''user_turns'') = Some (json_u64 (user_turns (lv_transcript st))) \<and>
     jget (fin_usage fin) (lit ''bot_turns'') = Some (json_u64 (bot_turns (lv_transcript st))) \<and>
     jget (fin_usage fin) (lit ''tool_calls'') = Some (json_u64 (lv_tool_calls st)) \<and>
     (\<forall>key. recording_url fin = Some key \<longleftrightarrow> (\<exists>t bs. rd_wav D (lv_recorder st) = Inr bs \<and>
        ss_upload_url S (lit ''recording'') = Inr t \<and> key = ut_key t \<and>
        ss_put_bytes S (ut_url t) bs (if ut_content_type t = [] then lit ''audio/wav'' else ut_content_type t) = None)) \<and>
     (\<forall>key. transcript_url fin = Some key \<longleftrightarrow> (\<exists>t. ss_upload_url S (lit ''transcript'') = Inr t \<and> key = ut_key t \<and>
        ss_put_bytes S (ut_url t) (rd_json D (transcript_render (lv_transcript st)))
          (if ut_content_type t = [] then lit ''application/json'' else ut_content_type t) = None))
    else completions (fp_log (foldl (finalize_stop S D) (finalizer_new st) rs)) = []"
proof (cases "EndOfTask \<in> set rs \<or> Cancelled \<in> set rs")
  case False
  then have "completions (fp_log (foldl (finalize_stop S D) (finalizer_new st) rs)) = []"
    unfolding finalize_run by (simp add: finalizer_new_def)
  then show ?thesis using False by simp
next
  case True
  obtain u2 g2 where tr: "upload_artifact S (lit ''transcript'') (rd_json D (transcript_render (lv_transcript st)))
      (lit ''application/json'') = (u2, g2)" by fastforce
  obtain u1 g1 where rc: "(case rd_wav D (lv_recorder st) of
      Inr bytes \<Rightarrow> upload_artifact S (lit ''recording'') bytes (lit ''audio/wav'') | Inl e \<Rightarrow> (None, [])) = (u1, g1)" by fastforce
  have c: "completions g1 = []" "completions g2 = []"
    using rc upload_artifact_facts(1) [OF tr] by (auto split: sum.splits dest: upload_artifact_facts(1))
  have k1: "u1 = Some key \<longleftrightarrow> (\<exists>t bs. rd_wav D (lv_recorder st) = Inr bs \<and> ss_upload_url S (lit ''recording'') = Inr t \<and>
      key = ut_key t \<and>
      ss_put_bytes S (ut_url t) bs (if ut_content_type t = [] then lit ''audio/wav'' else ut_content_type t) = None)" for key
  proof (cases "rd_wav D (lv_recorder st)")
    case (Inr bs)
    then show ?thesis using rc upload_artifact_facts(2) [of S "lit ''recording''" bs "lit ''audio/wav''" u1 g1 key] by simp
  qed (use rc in simp)
  note k2 = upload_artifact_facts(2) [OF tr]
  have run: "foldl (finalize_stop S D) (finalizer_new st) rs = run_finalize S D ((finalizer_new st)\<lparr>fp_finalized := True\<rparr>)"
    using True by (simp add: finalize_run)
  have us: "lv_usage st = foldl add_usage (lv_usage st0) us" using recorder_run_usage [OF assms(1)] assms(3) by simp
  have cond: "(EndOfTask \<in> set rs \<or> Cancelled \<in> set rs) = True" using True by simp
  show ?thesis
    unfolding run cond if_True
    by (simp add: run_finalize_def finalizer_new_def Let_def usage_json_fields c k1 k2 tr rc us no_usage [OF assms(2)] del: lit_Cons)
qed

definition demo_source :: session_source where
  "demo_source =
     \<lparr>ss_upload_url = (\<lambda>k. if k = lit ''transcript'' then Inr \<lparr>ut_url = lit ''https://put'', ut_key = lit ''t/1'', ut_content_type = []\<rparr>
                        else Inl (ErrSession (lit ''down''))),
      ss_put_bytes = (\<lambda>u b c. None), ss_complete = (\<lambda>f. None), ss_node_tools = (\<lambda>i. Inr []), ss_tool_call = (\<lambda>i nm a. Inr [])\<rparr>"

definition demo_renderers :: renderers where
  "demo_renderers = \<lparr>rd_wav = (\<lambda>r. Inr [1]), rd_json = (\<lambda>j. [2]), rd_f64 = (\<lambda>x. lit ''0.0'')\<rparr>"

definition demo_reports :: "(sess_env \<times> nat) list" where
  "demo_reports =
     (let u = (\<lambda>k. \<lparr>input_tokens = Some k, output_tokens = None, us_total_tokens = Some k, us_extra = None\<rparr>)
      in map (\<lambda>k. (fst (envelope_new 1 (usage_report (u k)) Downstream), 0)) [7, 5])"

theorem finalize_reports_once_witness:
  "\<exists>st es n'. run_frames recorder_process ex_link (live_state_new 8000) demo_reports 9 = Some (st, es, n') \<and>
    (\<exists>fin. completions (fp_log (foldl (finalize_stop demo_source demo_renderers) (finalizer_new st) [EndOfTask, Cancelled])) = [fin] \<and>
     jget (fin_usage fin) (lit ''total_tokens'') = Some (json_u64 12) \<and>
     jget (fin_usage fin) (lit ''output_tokens'') = Some JNull \<and>
     transcript_url fin = Some (lit ''t/1'') \<and> recording_url fin = None)"
proof -
  have ud: "lv_usage (live_state_new 8000) = usage_default" by (simp add: live_state_new_def)
  obtain st es n' where r: "run_frames recorder_process ex_link (live_state_new 8000) demo_reports 9 = Some (st, es, n')"
    using run_recorder by fastforce
  have env: "env_frame (fst (envelope_new i f d)) = f" for i d and f :: sess_frame
    by (simp add: envelope_new_def Let_def case_prod_unfold)
  have u: "map us_total_tokens (concat (map (\<lambda>x. frame_usage (env_frame (fst x))) demo_reports)) = [Some 7, Some 5]"
      "map output_tokens (concat (map (\<lambda>x. frame_usage (env_frame (fst x))) demo_reports)) = [None, None]"
    by (simp_all add: demo_reports_def Let_def env frame_usage_def usage_report_def)
  have "lit ''recording'' \<noteq> lit ''transcript''" by (simp add: lit_def)
  then show ?thesis
    using finalize_reports_once [OF r ud refl, of "[EndOfTask, Cancelled]" demo_source demo_renderers] r
    unfolding u by (auto simp: demo_source_def demo_renderers_def total_opt_def json_opt_u64_def simp del: lit_Cons)
qed

end
