(* ===== verification/Realtime_Session.thy ===== *)
theory Realtime_Session
  imports Live_State
begin

text \<open>
  The speech-to-speech session of \<^verbatim>\<open>flowcat-core/src/pipeline/s2s.rs\<close>: the model-event reader, the realtime service,
  the brain and the transport output, each as the step its \<open>process_frame\<close> (or reader task) takes.

  The realtime model, the carrier and the control plane are not in the repository's hands: how they answer is an
  argument that may depend on everything asked before (\<open>ans\<close>), and what was asked is kept in order. The agent
  brain is a record of the trait's operations; the locale \<open>brain_contract\<close> is what the session relies on, and
  the declarative brain meets it. Clock readings are an argument. \<open>None\<close> is a panic.
\<close>

section \<open>The event reader\<close>

datatype realtime_event =
    AudioOut audio_chunk
  | UserText ustr
  | UserInterimText ustr
  | BotText ustr
  | ToolCall ustr json ustr
  | Interrupted
  | UsageEvent usage
  | SessionClosed

record reader =
  user_partial :: ustr
  bot_partial :: ustr

definition reader_new :: reader where
  "reader_new = \<lparr>user_partial = [], bot_partial = []\<rparr>"

definition bot_line :: "ustr \<Rightarrow> sess_frame" where
  "bot_line t = Transcription t (lit ''bot'') None True"

definition user_line :: "ustr \<Rightarrow> sess_frame" where
  "user_line t = Transcription t (lit ''user'') None True"

fun push_downs :: "link \<Rightarrow> u64 \<Rightarrow> 'j frame list \<Rightarrow> 'j eff list \<times> u64" where
  "push_downs l n [] = ([], n)"
| "push_downs l n (f # fs) =
     (let (e1, n1) = push_down l n f; (e2, n2) = push_downs l n1 fs in (e1 @ e2, n2))"

definition flush_bot :: "reader \<Rightarrow> reader \<times> sess_frame list" where
  "flush_bot p =
     (if bot_partial p = [] then (p, [])
      else (p\<lparr>bot_partial := []\<rparr>, [bot_line (bot_partial p), BotStoppedSpeaking]))"

text \<open>One event (\<open>None\<close>: the stream ended): the frames pushed downstream, whether an interruption is broadcast
  after them, the frames pushed after that, and whether the reader asks for the end of the call and stops.\<close>

definition reader_event :: "reader \<Rightarrow> realtime_event option \<Rightarrow> reader \<times> sess_frame list \<times> bool \<times> sess_frame list \<times> bool" where
  "reader_event p ev =
     (case ev of
        None \<Rightarrow> (let (p1, fs) = flush_bot p in (p1, fs, False, [], True))
      | Some (AudioOut c) \<Rightarrow> (p, [OutputAudio (frame_of_chunk c)], False, [], False)
      | Some (UserInterimText d) \<Rightarrow>
          (p\<lparr>user_partial := user_partial p @ d\<rparr>,
           [InterimTranscription (user_partial p @ d) (lit ''user'') None], False, [], False)
      | Some (UserText t) \<Rightarrow> (p\<lparr>user_partial := []\<rparr>, [user_line t], False, [], False)
      | Some (BotText t) \<Rightarrow> (p\<lparr>bot_partial := bot_partial p @ t\<rparr>, [], False, [], False)
      | Some (ToolCall nm args i) \<Rightarrow> (p, [model_tool_call i nm args], False, [], False)
      | Some Interrupted \<Rightarrow> (let (p1, fs) = flush_bot p in (p1, fs, True, [], False))
      | Some (UsageEvent u) \<Rightarrow> (let (p1, fs) = flush_bot p in (p1, fs, False, [usage_report u], False))
      | Some SessionClosed \<Rightarrow> (let (p1, fs) = flush_bot p in (p1, fs, False, [], True)))"

text \<open>The reader's loop: effects on the link, and the requests to end sent to the pipeline head.\<close>

fun reader_run ::
  "link \<Rightarrow> reader \<Rightarrow> realtime_event option list \<Rightarrow> u64 \<Rightarrow> reader \<times> sess_value eff list \<times> u64 \<times> sess_frame list" where
  "reader_run l p [] n = (p, [], n, [])"
| "reader_run l p (ev # evs) n =
     (let (p1, fs, intr, gs, stop) = reader_event p ev;
          (e1, n1) = push_downs l n fs;
          (e2, n2) = (if intr then broadcast l n1 Interruption else ([], n1));
          (e3, n3) = push_downs l n2 gs
      in if stop then (p1, e1 @ e2 @ e3, n3, [End None])
         else let (p2, e4, n4, reqs) = reader_run l p1 evs n3 in (p2, e1 @ e2 @ e3 @ e4, n4, reqs))"

section \<open>The realtime service\<close>

datatype rt_call =
    RtKickoff
  | RtSendAudio audio_chunk
  | RtSendToolResult ustr json
  | RtUpdateSystem ustr "tool_decl list"

record 'r realtime_service =
  in_resampler :: "'r resampler option"
  carrier_rate :: u32
  input_rate :: u32
  transport_started :: bool
  kicked_off :: bool
  reader_spawned :: bool
  rt_live :: live_state
  end_requests :: "sess_frame list"
  rt_calls :: "rt_call list"
  reader_aborted :: bool

definition realtime_service_new :: "u32 \<Rightarrow> u32 \<Rightarrow> live_state \<Rightarrow> 'r realtime_service" where
  "realtime_service_new cr ir st =
     \<lparr>in_resampler = None, carrier_rate = cr, input_rate = ir, transport_started = False, kicked_off = False,
      reader_spawned = False, rt_live = st, end_requests = [], rt_calls = [], reader_aborted = False\<rparr>"

type_synonym rt_answers = "rt_call list \<Rightarrow> rt_call \<Rightarrow> flowcat_error option"

definition rt_ask :: "rt_answers \<Rightarrow> 'r realtime_service \<Rightarrow> rt_call \<Rightarrow> 'r realtime_service \<times> flowcat_error option" where
  "rt_ask ans s c = (s\<lparr>rt_calls := rt_calls s @ [c]\<rparr>, ans (rt_calls s) c)"

definition rt_fail :: "'r realtime_service \<Rightarrow> flowcat_error \<Rightarrow> 'r realtime_service" where
  "rt_fail s e = s\<lparr>rt_live := record_error (rt_live s) e, end_requests := end_requests s @ [End None]\<rparr>"

definition realtime_start :: "'r rubato \<Rightarrow> 'r realtime_service \<Rightarrow> 'r realtime_service \<times> flowcat_error option" where
  "realtime_start R s =
     (case resampler_new R (carrier_rate s) (input_rate s) of
        Inl e \<Rightarrow> (s, Some e)
      | Inr rs \<Rightarrow> (s\<lparr>in_resampler := Some rs\<rparr>, None))"

definition realtime_stop :: "'r realtime_service \<Rightarrow> 'r realtime_service" where
  "realtime_stop s = (if reader_spawned s then s\<lparr>reader_aborted := True\<rparr> else s)"

definition spawn_reader :: "'r realtime_service \<Rightarrow> 'r realtime_service" where
  "spawn_reader s = (if reader_spawned s then s else s\<lparr>reader_spawned := True\<rparr>)"

definition realtime_process :: "'r rubato \<Rightarrow> rt_answers \<Rightarrow> ('r realtime_service, sess_env, sess_value) tap_step" where
  "realtime_process R ans l s env n =
     (case env_frame env of
        ClientConnected \<Rightarrow>
          (let s1 = spawn_reader (s\<lparr>transport_started := True\<rparr>)
           in if transport_started s1 \<and> \<not> kicked_off s1 then
                (case rt_ask ans s1 RtKickoff of
                   (s2, Some e) \<Rightarrow> Some (rt_fail s2 e, [], n)
                 | (s2, None) \<Rightarrow> Some (s2\<lparr>kicked_off := True\<rparr>, push_env l env, n))
              else Some (s1, push_env l env, n))
      | InputAudio a \<Rightarrow>
          (let s1 = spawn_reader s
           in case in_resampler s1 of
                None \<Rightarrow> None
              | Some rs \<Rightarrow>
                  (case resampler_process R rs (chunk_of_frame a) of
                     (rs1, Inr up) \<Rightarrow>
                       (let s2 = s1\<lparr>in_resampler := Some rs1\<rparr>
                        in if ac_pcm up = [] then Some (s2, push_env l env, n)
                           else case rt_ask ans s2 (RtSendAudio up) of
                                  (s3, Some e) \<Rightarrow> Some (rt_fail s3 e, [], n)
                                | (s3, None) \<Rightarrow> Some (s3, push_env l env, n))
                   | (rs1, Inl e) \<Rightarrow> Some (rt_fail (s1\<lparr>in_resampler := Some rs1\<rparr>) e, [], n)))
      | Custom c \<Rightarrow>
          (case cf_value c of
             Some (ToolResult i r) \<Rightarrow>
               (case rt_ask ans s (RtSendToolResult i r) of
                  (s1, Some e) \<Rightarrow> Some (s1\<lparr>rt_live := record_error (rt_live s1) e\<rparr>, [], n)
                | (s1, None) \<Rightarrow> Some (s1, [], n))
           | Some (Reprompt p ts) \<Rightarrow>
               (case rt_ask ans s (RtUpdateSystem p ts) of
                  (s1, Some e) \<Rightarrow> Some (s1\<lparr>rt_live := record_error (rt_live s1) e\<rparr>, [], n)
                | (s1, None) \<Rightarrow> Some (s1, [], n))
           | _ \<Rightarrow> Some (s, push_env l env, n))
      | _ \<Rightarrow> Some (s, push_env l env, n))"

section \<open>The tool relay\<close>

record tool_relay =
  rl_node_tools :: "ustr \<Rightarrow> tool_decl list"
  rl_relay :: "ustr \<Rightarrow> ustr \<Rightarrow> json \<Rightarrow> ustr"

definition session_tool_relay :: "session_source \<Rightarrow> tool_relay" where
  "session_tool_relay S =
     \<lparr>rl_node_tools = (\<lambda>node. case ss_node_tools S node of Inl e \<Rightarrow> [] | Inr ts \<Rightarrow> ts),
      rl_relay = (\<lambda>node nm args. case ss_tool_call S node nm args of
          Inr c \<Rightarrow> c
        | Inl e \<Rightarrow> lit ''the tool is temporarily unavailable'')\<rparr>"

text \<open>\<open>serde_json::from_str\<close> is the argument \<open>parse\<close>.\<close>

definition mcp_result_struct :: "(ustr \<Rightarrow> json option) \<Rightarrow> ustr \<Rightarrow> json" where
  "mcp_result_struct parse content =
     (case parse content of
        Some (JObj m) \<Rightarrow> JObj m
      | Some other \<Rightarrow> JObj [(lit ''result'', other)]
      | None \<Rightarrow> JObj [(lit ''result'', JStr content)])"

section \<open>The brain\<close>

record 'b agent_brain =
  ab_system_prompt :: "'b \<Rightarrow> ustr option"
  ab_tools :: "'b \<Rightarrow> tool_decl list option"
  ab_node_id :: "'b \<Rightarrow> ustr"
  ab_node_name :: "'b \<Rightarrow> ustr"
  ab_on_tool_call :: "'b \<Rightarrow> ustr \<Rightarrow> json \<Rightarrow> ('b \<times> brain_action) option"
  ab_collected_vars :: "'b \<Rightarrow> json"

record 'b brain_proc =
  bp_brain :: 'b
  mcp_names :: "ustr set"
  bp_live :: live_state
  bp_end_requests :: "sess_frame list"

definition resolve_tools :: "'b agent_brain \<Rightarrow> tool_relay \<Rightarrow> 'b brain_proc \<Rightarrow> ('b brain_proc \<times> tool_decl list) option" where
  "resolve_tools B rl s =
     (let mcp = rl_node_tools rl (ab_node_id B (bp_brain s));
          s1 = s\<lparr>mcp_names := td_name ` set mcp\<rparr>
      in do { ts \<leftarrow> ab_tools B (bp_brain s); Some (s1, ts @ mcp) })"

definition json_status :: "string \<Rightarrow> json" where
  "json_status t = JObj [(lit ''status'', JStr (lit t))]"

definition transition_marker :: "ustr \<Rightarrow> ustr option \<Rightarrow> ustr" where
  "transition_marker node say =
     (case say of
        Some t \<Rightarrow> if t \<noteq> [] then lit ''[transition: '' @ node @ lit ''] '' @ t else lit ''[transition: '' @ node @ lit '']''
      | None \<Rightarrow> lit ''[transition: '' @ node @ lit '']'')"

fun push_ups :: "link \<Rightarrow> u64 \<Rightarrow> 'j frame list \<Rightarrow> 'j eff list \<times> u64" where
  "push_ups l n [] = ([], n)"
| "push_ups l n (f # fs) = (let (e1, n1) = push_up l n f; (e2, n2) = push_ups l n1 fs in (e1 @ e2, n2))"

text \<open>What the brain does with a tool call: its new state and the frames it pushes upstream.\<close>

definition brain_tool_call ::
  "'b agent_brain \<Rightarrow> tool_relay \<Rightarrow> (ustr \<Rightarrow> json option) \<Rightarrow> 'b brain_proc \<Rightarrow> ustr \<Rightarrow> ustr \<Rightarrow> json \<Rightarrow>
     ('b brain_proc \<times> sess_frame list) option" where
  "brain_tool_call B rl parse s i nm args =
     (if nm \<in> mcp_names s then
        (let s1 = s\<lparr>bp_live := (bp_live s)\<lparr>lv_tool_calls := lv_tool_calls (bp_live s) + 1\<rparr>\<rparr>;
             content = rl_relay rl (ab_node_id B (bp_brain s)) nm args
         in Some (s1, [tool_result i (mcp_result_struct parse content)]))
      else do {
        (b, act) \<leftarrow> ab_on_tool_call B (bp_brain s) nm args;
        let s1 = s\<lparr>bp_brain := b\<rparr>;
        (case act of
           BTransition prompt _ say \<Rightarrow> do {
             (s2, ts) \<leftarrow> resolve_tools B rl s1;
             let marker = transition_marker (ab_node_name B (bp_brain s2)) say;
             Some (s2\<lparr>bp_live := (bp_live s2)\<lparr>lv_transcript := push_bot (lv_transcript (bp_live s2)) marker\<rparr>\<rparr>,
                   [reprompt prompt ts, tool_result i (json_status ''moved'')])
           }
         | BStay \<Rightarrow> Some (s1, [tool_result i (json_status ''stay'')])
         | BEnd disposition \<Rightarrow>
             Some (s1\<lparr>bp_live := (bp_live s1)\<lparr>lv_disposition := disposition,
                                            lv_collected_vars := ab_collected_vars B (bp_brain s1)\<rparr>,
                      bp_end_requests := bp_end_requests s1 @ [End None]\<rparr>,
                   [tool_result i (json_status ''ended'')]))
      })"

definition brain_process ::
  "'b agent_brain \<Rightarrow> tool_relay \<Rightarrow> (ustr \<Rightarrow> json option) \<Rightarrow> ('b brain_proc, sess_env, sess_value) tap_step" where
  "brain_process B rl parse l s env n =
     (case custom_value (env_frame env) of
        Some (ModelToolCall i nm args) \<Rightarrow> do {
          (s1, fs) \<leftarrow> brain_tool_call B rl parse s i nm args;
          let (es, n1) = push_ups l n fs;
          Some (s1, es, n1)
        }
      | _ \<Rightarrow> Some (s, push_env l env, n))"

text \<open>The declarative brain behind the trait; the node's name is the trait's default, its id.\<close>

definition declarative_brain :: "env \<Rightarrow> engine agent_brain" where
  "declarative_brain ev =
     \<lparr>ab_system_prompt = (\<lambda>e. map_option np_system_prompt (current_prompt ev e)), ab_tools = current_tools ev,
      ab_node_id = en_current, ab_node_name = en_current, ab_on_tool_call = on_tool_call ev,
      ab_collected_vars = collected_vars\<rparr>"

section \<open>The transport output\<close>

datatype carrier_call = CarrierAudio audio_chunk | CarrierClear | CarrierSleep nat

type_synonym carrier_answers = "carrier_call list \<Rightarrow> carrier_call \<Rightarrow> flowcat_error option"

definition max_playout_drain :: nat where
  "max_playout_drain = 15 * 10 ^ 9"

definition gemini_output_rate :: u32 where
  "gemini_output_rate = 24000"

text \<open>\<open>Duration::from_secs_f64\<close> of a finite, non-negative number of seconds: rounded to nanoseconds.\<close>

definition duration_from_secs_f64 :: "f64 \<Rightarrow> nat" where
  "duration_from_secs_f64 a = (case a of FNum x \<Rightarrow> nat (round_half_even (x * 10 ^ 9)) | _ \<Rightarrow> 0)"

definition advance_playout :: "nat option \<Rightarrow> nat \<Rightarrow> nat \<Rightarrow> u32 \<Rightarrow> nat" where
  "advance_playout til now samples rate =
     (let dur = duration_from_secs_f64 (fl_div f64_fmt (f64_of_nat samples) (f64_of_nat (unat (max rate 1))));
          base = (case til of Some t \<Rightarrow> if now < t then t else now | None \<Rightarrow> now)
      in base + dur)"

record 'r transport_output =
  out_resampler :: "'r resampler option"
  to_carrier_rate :: u32
  bot_audio_until :: "nat option"
  to_live :: live_state
  to_calls :: "carrier_call list"
  to_reads :: nat
  to_panicked :: bool

definition transport_output_new :: "u32 \<Rightarrow> live_state \<Rightarrow> 'r transport_output" where
  "transport_output_new cr st =
     \<lparr>out_resampler = None, to_carrier_rate = cr, bot_audio_until = None, to_live = st, to_calls = [], to_reads = 0,
      to_panicked = False\<rparr>"

definition to_ask :: "carrier_answers \<Rightarrow> 'r transport_output \<Rightarrow> carrier_call \<Rightarrow> 'r transport_output \<times> flowcat_error option" where
  "to_ask ans s c = (s\<lparr>to_calls := to_calls s @ [c]\<rparr>, ans (to_calls s) c)"

definition to_error :: "'r transport_output \<Rightarrow> flowcat_error \<Rightarrow> 'r transport_output" where
  "to_error s e = s\<lparr>to_live := record_error (to_live s) e\<rparr>"

text \<open>A reading of the clock; the readings of a run are \<open>clock 0\<close>, \<open>clock 1\<close>, and so on.\<close>

definition to_now :: "(nat \<Rightarrow> nat) \<Rightarrow> 'r transport_output \<Rightarrow> 'r transport_output \<times> nat" where
  "to_now clock s = (s\<lparr>to_reads := Suc (to_reads s)\<rparr>, clock (to_reads s))"

definition output_start :: "'r rubato \<Rightarrow> 'r transport_output \<Rightarrow> ('r transport_output, sess_value) hook_result" where
  "output_start R s =
     (case resampler_new R gemini_output_rate (to_carrier_rate s) of
        Inl e \<Rightarrow> (s, [], Some (error_text e))
      | Inr rs \<Rightarrow> (s\<lparr>out_resampler := Some rs\<rparr>, [], None))"

definition output_on_interruption :: "carrier_answers \<Rightarrow> 'r transport_output \<Rightarrow> ('r transport_output, sess_value) hook_result" where
  "output_on_interruption ans s =
     (let (s1, r) = to_ask ans s CarrierClear;
          s2 = (case r of None \<Rightarrow> s1 | Some e \<Rightarrow> to_error s1 e)
      in (s2\<lparr>bot_audio_until := None\<rparr>, [], None))"

text \<open>Bot audio: recorded at its own rate, resampled, sent, and the playout estimate advanced. Without a
  resampler (its construction failed in \<open>start\<close>) the \<open>expect\<close> panics: \<open>None\<close>, and the task is dead, which
  \<open>to_panicked\<close> records.\<close>

definition output_audio :: "'r rubato \<Rightarrow> carrier_answers \<Rightarrow> (nat \<Rightarrow> nat) \<Rightarrow> 'r transport_output \<Rightarrow> audio_frame \<Rightarrow> 'r transport_output option" where
  "output_audio R ans clock s a =
     (let chunk = chunk_of_frame a;
          (s0, now0) = to_now clock s;
          s1 = s0\<lparr>to_live := (to_live s0)\<lparr>lv_recorder := push_outbound now0 (lv_recorder (to_live s0)) chunk\<rparr>\<rparr>
      in case out_resampler s1 of
           None \<Rightarrow> None
         | Some rs \<Rightarrow>
             (case resampler_process R rs chunk of
                (rs1, Inl e) \<Rightarrow> Some (to_error (s1\<lparr>out_resampler := Some rs1\<rparr>) e)
              | (rs1, Inr down) \<Rightarrow>
                  (let s2 = s1\<lparr>out_resampler := Some rs1\<rparr>
                   in if ac_pcm down = [] then Some s2
                      else case to_ask ans s2 (CarrierAudio down) of
                             (s3, Some e) \<Rightarrow> Some (to_error s3 e)
                           | (s3, None) \<Rightarrow>
                               (let (s4, now) = to_now clock s3
                                in Some (s4\<lparr>bot_audio_until := Some (advance_playout (bot_audio_until s4) now
                                              (length (ac_pcm down)) (to_carrier_rate s4))\<rparr>)))))"

definition output_end :: "(nat \<Rightarrow> nat) \<Rightarrow> 'r transport_output \<Rightarrow> 'r transport_output" where
  "output_end clock s =
     (case bot_audio_until s of
        None \<Rightarrow> s
      | Some til \<Rightarrow>
          (let (s1, now) = to_now clock (s\<lparr>bot_audio_until := None\<rparr>)
           in if now < til then s1\<lparr>to_calls := to_calls s1 @ [CarrierSleep (min (til - now) max_playout_drain)]\<rparr> else s1))"

definition output_process ::
  "'r rubato \<Rightarrow> carrier_answers \<Rightarrow> (nat \<Rightarrow> nat) \<Rightarrow> link \<Rightarrow> 'r transport_output \<Rightarrow> sess_env \<Rightarrow> u64 \<Rightarrow>
     'r transport_output \<times> sess_value eff list \<times> u64 \<times> ustr option" where
  "output_process R ans clock l s env n =
     (let audio = (\<lambda>a. case output_audio R ans clock s a of
          Some s1 \<Rightarrow> (s1, [], n, None)
        | None \<Rightarrow> (s\<lparr>to_panicked := True\<rparr>, [], n, None))
      in case env_frame env of
           OutputAudio a \<Rightarrow> audio a
         | TtsAudio a ctx \<Rightarrow> audio a
         | End r \<Rightarrow> (output_end clock s, push_env l env, n, None)
         | _ \<Rightarrow> (s, push_env l env, n, None))"

definition transport_output_processor ::
  "'r rubato \<Rightarrow> carrier_answers \<Rightarrow> (nat \<Rightarrow> nat) \<Rightarrow> ('r transport_output, sess_value) processor" where
  "transport_output_processor R ans clock =
     \<lparr>p_name = ''TransportOutput'', p_start = (\<lambda>s params. output_start R s), p_process = output_process R ans clock,
      p_on_interruption = output_on_interruption ans, p_stop = default_stop\<rparr>"

section \<open>What the reader passes on\<close>

definition stops_reader :: "realtime_event option \<Rightarrow> bool" where
  "stops_reader ev = (case ev of None \<Rightarrow> True | Some SessionClosed \<Rightarrow> True | _ \<Rightarrow> False)"

fun until_stop :: "realtime_event option list \<Rightarrow> realtime_event option list" where
  "until_stop [] = []"
| "until_stop (ev # evs) = ev # (if stops_reader ev then [] else until_stop evs)"

definition heard :: "speaker \<Rightarrow> realtime_event option \<Rightarrow> ustr" where
  "heard who ev =
     (case ev of
        Some (BotText t) \<Rightarrow> if who = Bot then t else []
      | Some (UserText t) \<Rightarrow> if who = User then t else []
      | _ \<Rightarrow> [])"

lemma sent_frames_push_downs: "l_next l \<noteq> None \<Longrightarrow> sent_frames (fst (push_downs l n fs)) = fs"
proof (induction fs arbitrary: n)
  case (Cons f fs)
  then show ?case using sent_frames_push_down [of l n f] by (simp add: case_prod_unfold Let_def)
qed simp

lemma sent_frames_broadcast_set: "set (sent_frames (fst (broadcast l n f))) \<subseteq> {f}"
  by (auto simp: broadcast_def Let_def case_prod_unfold split: if_splits)

lemma is_bot_names [simp]: "is_bot (lit ''bot'')" "\<not> is_bot (lit ''user'')"
  by (simp_all add: is_bot_def lit_def)

text \<open>The finalized lines of a speaker among the frames sent, and the utterances the model reported.\<close>

definition committed :: "ustr \<Rightarrow> sess_frame list \<Rightarrow> ustr list" where
  "committed who fs = concat (map (\<lambda>f. case f of Transcription t user_id lang fin \<Rightarrow> if fin \<and> user_id = who then [t] else [] | _ \<Rightarrow> []) fs)"

definition bot_stops :: "sess_frame list \<Rightarrow> nat" where
  "bot_stops fs = length (filter (\<lambda>f. kind f = KBotStoppedSpeaking) fs)"

definition utterances :: "realtime_event option list \<Rightarrow> ustr list" where
  "utterances evs = concat (map (\<lambda>ev. case ev of Some (UserText t) \<Rightarrow> [t] | _ \<Rightarrow> []) evs)"

lemma committed_simps [simp]:
  "committed who [] = []" "committed who (fs @ gs) = committed who fs @ committed who gs"
  "bot_stops [] = 0" "bot_stops (fs @ gs) = bot_stops fs + bot_stops gs"
  by (simp_all add: committed_def bot_stops_def)

lemma utterances_Nil [simp]: "utterances [] = []"
  by (simp add: utterances_def)

lemma utterances_Cons: "utterances (ev # evs) = utterances [ev] @ utterances evs"
  by (simp add: utterances_def)

lemma committed_silent: "set fs \<subseteq> {Interruption} \<Longrightarrow> committed who fs = [] \<and> bot_stops fs = 0"
  by (induction fs) (auto simp: committed_def bot_stops_def)

lemma user_not_bot: "lit ''user'' \<noteq> lit ''bot''"
  by (simp add: lit_def)

lemma reader_event_lines:
  assumes "reader_event p ev = (p1, fs, intr, gs, stop)"
  shows "concat (committed (lit ''bot'') (fs @ gs)) @ bot_partial p1 = bot_partial p @ heard Bot ev"
    and "committed (lit ''user'') (fs @ gs) = utterances [ev]"
    and "list_all (\<lambda>t. t \<noteq> []) (committed (lit ''bot'') (fs @ gs))"
    and "bot_stops (fs @ gs) = length (committed (lit ''bot'') (fs @ gs))"
    and "stop = stops_reader ev" and "stop \<Longrightarrow> bot_partial p1 = []"
  using assms user_not_bot
  by (auto simp: reader_event_def flush_bot_def bot_line_def user_line_def committed_def bot_stops_def heard_def utterances_def
      stops_reader_def usage_report_def model_tool_call_def split: option.splits realtime_event.splits prod.splits if_splits)

lemma reader_run_lines:
  assumes "l_next l \<noteq> None" and "reader_run l p evs n = (p', es, n', reqs)"
  shows "concat (committed (lit ''bot'') (sent_frames es)) @ bot_partial p' = bot_partial p @ concat (map (heard Bot) (until_stop evs)) \<and>
    committed (lit ''user'') (sent_frames es) = utterances (until_stop evs) \<and>
    list_all (\<lambda>t. t \<noteq> []) (committed (lit ''bot'') (sent_frames es)) \<and>
    bot_stops (sent_frames es) = length (committed (lit ''bot'') (sent_frames es)) \<and>
    (if \<exists>ev\<in>set evs. stops_reader ev then reqs = [End None] \<and> bot_partial p' = [] else reqs = [])"
  using assms(2)
proof (induction evs arbitrary: p n es p' n' reqs)
  case (Cons ev evs)
  obtain p1 fs intr gs stop where r: "reader_event p ev = (p1, fs, intr, gs, stop)" by (cases "reader_event p ev")
  define e2 :: "sess_value eff list \<times> u64" where "e2 = (if intr then broadcast l (snd (push_downs l n fs)) Interruption else ([], snd (push_downs l n fs)))"
  have b: "set (sent_frames (fst e2)) \<subseteq> {Interruption}"
    using sent_frames_broadcast_set [of l _ Interruption] by (auto simp: e2_def)
  have unf: "reader_run l p (ev # evs) n =
      (if stop then (p1, fst (push_downs l n fs) @ fst e2 @ fst (push_downs l (snd e2) gs), snd (push_downs l (snd e2) gs), [End None])
       else case reader_run l p1 evs (snd (push_downs l (snd e2) gs)) of
         (p2, e4, n4, rq) \<Rightarrow> (p2, (fst (push_downs l n fs) @ fst e2 @ fst (push_downs l (snd e2) gs)) @ e4, n4, rq))"
    by (cases intr) (simp_all add: r e2_def Let_def split: prod.split)
  let ?es = "fst (push_downs l n fs) @ fst e2 @ fst (push_downs l (snd e2) gs)"
  note ev = reader_event_lines [OF r]
  have sent: "committed who (sent_frames ?es) = committed who (fs @ gs)" "bot_stops (sent_frames ?es) = bot_stops (fs @ gs)" for who
    by (simp_all add: sent_frames_push_downs [OF assms(1)] committed_silent [OF b])
  show ?case
  proof (cases stop)
    case True
    then have "p' = p1" "reqs = [End None]" "es = ?es" using Cons.prems unfolding unf by simp_all
    then show ?thesis using sent ev True by simp
  next
    case False
    obtain p2 e4 n4 rq where rest: "reader_run l p1 evs (snd (push_downs l (snd e2) gs)) = (p2, e4, n4, rq)"
      by (cases "reader_run l p1 evs (snd (push_downs l (snd e2) gs))")
    have split: "p' = p2" "reqs = rq" "es = ?es @ e4" using Cons.prems rest False unfolding unf by simp_all
    have "committed who (sent_frames es) = committed who (fs @ gs) @ committed who (sent_frames e4)"
      and "bot_stops (sent_frames es) = bot_stops (fs @ gs) + bot_stops (sent_frames e4)" for who
      unfolding split sent_frames_append [of _ e4] committed_simps sent by simp_all
    then show ?thesis
      using Cons.IH [OF rest] ev(1) ev(2-5) False utterances_Cons [of ev "until_stop evs"]
      unfolding split(1,2) by (simp del: committed_simps(2,4))
  qed
qed simp


definition demo_sess_link :: link where
  "demo_sess_link = \<lparr>l_next = Some \<lparr>tx_chan = 1, tx_name = ''next''\<rparr>, l_prev = Some \<lparr>tx_chan = 0, tx_name = ''prev''\<rparr>, l_name = ''P'',
     l_observer = False, enable_metrics = False, enable_usage_metrics = False, ttfb_start = 0, processing_start = 0\<rparr>"


text \<open>On a barge-in the reader sends the bot's line and broadcasts the interruption right behind it. The interruption
  takes the system channel: a next processor that has not yet taken the line drains it, and the transcript never gets
  what the bot had said.\<close>

lemma interruption_drops_bot_line:
  assumes "env_frame ie = Interruption" and "env_frame e = bot_line t" and "p_on_interruption p s = (s, [], None)"
  shows "run_processor p l s \<lparr>rx_system = [ie], rx_normal = [e], rx_open = True\<rparr> n =
    (s, \<lparr>rx_system = [], rx_normal = [], rx_open = True\<rparr>, observe l ie @ push_env l ie, n, Waiting)"
proof -
  have e: "\<not> drain_stops e" "survivors [e] = []"
    using assms(2) by (simp_all add: drain_stops_def bot_line_def uninterruptible_def)
  show ?thesis using run_interruption [OF assms(1) _ assms(3), of "[e]" l n] e by simp
qed

section \<open>The brain answers\<close>

definition call_id :: "sess_frame \<Rightarrow> ustr list" where
  "call_id f = (case custom_value f of Some (ModelToolCall i nm args) \<Rightarrow> [i] | _ \<Rightarrow> [])"

definition answer :: "sess_frame \<Rightarrow> (ustr \<times> json) list" where
  "answer f = (case custom_value f of Some (ToolResult i r) \<Rightarrow> [(i, r)] | _ \<Rightarrow> [])"

definition call_ids :: "sess_frame list \<Rightarrow> ustr list" where
  "call_ids fs = concat (map call_id fs)"

definition answers :: "sess_frame list \<Rightarrow> (ustr \<times> json) list" where
  "answers fs = concat (map answer fs)"

lemma sent_frames_push_ups: "l_prev l \<noteq> None \<Longrightarrow> sent_frames (fst (push_ups l n fs)) = fs"
proof (induction fs arbitrary: n)
  case (Cons f fs)
  then show ?case using sent_frames_push_up [of l n f] by (simp add: case_prod_unfold Let_def)
qed simp

lemma answer_simps [simp]: "answer (tool_result i r) = [(i, r)]" "answer (reprompt p ts) = []"
  by (simp_all add: answer_def)

lemma mcp_result_object: "\<exists>r. mcp_result_struct parse content = JObj r"
  by (simp add: mcp_result_struct_def split: option.split json.split)

text \<open>What the session relies on about a brain: on the states it reaches, a tool call and the tool list are answered.\<close>

locale brain_contract =
  fixes B :: "'b agent_brain" and good :: "'b \<Rightarrow> bool"
  assumes call_answered: "good b \<Longrightarrow> \<exists>b' act. ab_on_tool_call B b nm args = Some (b', act) \<and> good b'"
    and tools_answered: "good b \<Longrightarrow> \<exists>ts. ab_tools B b = Some ts"
begin

lemma tool_call_answered:
  assumes "good (bp_brain s)"
  shows "\<exists>s' fs r. brain_tool_call B rl parse s i nm args = Some (s', fs @ [tool_result i (JObj r)]) \<and> good (bp_brain s') \<and>
    (fs = [] \<or> (\<exists>p ts. fs = [reprompt p ts]))"
proof (cases "nm \<in> mcp_names s")
  case True
  obtain r where "mcp_result_struct parse (rl_relay rl (ab_node_id B (bp_brain s)) nm args) = JObj r"
    using mcp_result_object by blast
  then have "brain_tool_call B rl parse s i nm args =
      Some (s\<lparr>bp_live := (bp_live s)\<lparr>lv_tool_calls := lv_tool_calls (bp_live s) + 1\<rparr>\<rparr>, [] @ [tool_result i (JObj r)])"
    using True by (simp add: brain_tool_call_def)
  moreover have "good (bp_brain (s\<lparr>bp_live := (bp_live s)\<lparr>lv_tool_calls := lv_tool_calls (bp_live s) + 1\<rparr>\<rparr>))"
    using assms by simp
  ultimately show ?thesis by blast
next
  case False
  obtain b' act where c: "ab_on_tool_call B (bp_brain s) nm args = Some (b', act)" "good b'"
    using call_answered [OF assms] by blast
  obtain ts where t: "ab_tools B b' = Some ts" using tools_answered [OF c(2)] by blast
  have "\<exists>s' fs r. brain_tool_call B rl parse s i nm args = Some (s', fs @ [tool_result i (JObj r)]) \<and> bp_brain s' = b' \<and>
      (fs = [] \<or> (\<exists>p ts. fs = [reprompt p ts]))"
  proof (cases act)
    case (BTransition p xs say)
    obtain s' where "brain_tool_call B rl parse s i nm args =
        Some (s', [reprompt p (ts @ rl_node_tools rl (ab_node_id B b'))] @ [tool_result i (json_status ''moved'')])" "bp_brain s' = b'"
      using False c(1) t BTransition by (simp add: brain_tool_call_def resolve_tools_def Let_def)
    then show ?thesis unfolding json_status_def by blast
  next
    case BStay
    then have "brain_tool_call B rl parse s i nm args = Some (s\<lparr>bp_brain := b'\<rparr>, [] @ [tool_result i (json_status ''stay'')])"
      using False c(1) by (simp add: brain_tool_call_def)
    then show ?thesis unfolding json_status_def by fastforce
  next
    case (BEnd d)
    then obtain s' where "brain_tool_call B rl parse s i nm args = Some (s', [] @ [tool_result i (json_status ''ended'')])" "bp_brain s' = b'"
      using False c(1) by (simp add: brain_tool_call_def Let_def)
    then show ?thesis unfolding json_status_def by blast
  qed
  then show ?thesis using c(2) by metis
qed

lemma run_answers:
  assumes "good (bp_brain s)" and "l_prev l \<noteq> None" and "\<forall>e\<in>set envs. answer (env_frame e) = []"
  shows "\<exists>s' es n'. run_frames (brain_process B rl parse) l s envs n = Some (s', es, n') \<and> good (bp_brain s') \<and>
    map fst (answers (sent_frames es)) = call_ids (map env_frame envs) \<and> (\<forall>a\<in>set (answers (sent_frames es)). \<exists>m. snd a = JObj m)"
  using assms(1,3)
proof (induction envs arbitrary: s n)
  case Nil
  then show ?case by (simp add: answers_def call_ids_def)
next
  case (Cons e envs)
  have "\<exists>s1 es1 n1. brain_process B rl parse l s e n = Some (s1, es1, n1) \<and> good (bp_brain s1) \<and>
      map fst (answers (sent_frames es1)) = call_id (env_frame e) \<and> (\<forall>a\<in>set (answers (sent_frames es1)). \<exists>m. snd a = JObj m)"
  proof (cases "\<exists>i nm args. custom_value (env_frame e) = Some (ModelToolCall i nm args)")
    case True
    then obtain i nm args where c: "custom_value (env_frame e) = Some (ModelToolCall i nm args)" by blast
    obtain s1 fs r where t: "brain_tool_call B rl parse s i nm args = Some (s1, fs @ [tool_result i (JObj r)])" "good (bp_brain s1)"
      "fs = [] \<or> (\<exists>p ts. fs = [reprompt p ts])" using tool_call_answered [OF Cons.prems(1)] by blast
    obtain es1 n1 where u: "push_ups l n (fs @ [tool_result i (JObj r)]) = (es1, n1)" by fastforce
    have "brain_process B rl parse l s e n = Some (s1, es1, n1)" by (simp add: brain_process_def c t(1) u)
    moreover have "sent_frames es1 = fs @ [tool_result i (JObj r)]" using sent_frames_push_ups [OF assms(2)] u by (metis fst_conv)
    then have "answers (sent_frames es1) = [(i, JObj r)]" using t(3) by (auto simp: answers_def)
    ultimately show ?thesis using t(2) by (simp add: call_id_def c)
  next
    case False
    then have "brain_process B rl parse l s e n = Some (s, push_env l e, n)" and "call_id (env_frame e) = []"
      by (auto simp: brain_process_def call_id_def split: option.split sess_value.split)
    moreover have "answers (sent_frames (push_env l e)) = []" using Cons.prems(2) by (simp add: answers_def)
    ultimately show ?thesis using Cons.prems(1) by simp
  qed
  then obtain s1 es1 n1 where 1: "brain_process B rl parse l s e n = Some (s1, es1, n1)" "good (bp_brain s1)"
    "map fst (answers (sent_frames es1)) = call_id (env_frame e)" "\<forall>a\<in>set (answers (sent_frames es1)). \<exists>m. snd a = JObj m" by blast
  obtain s2 es2 n2 where 2: "run_frames (brain_process B rl parse) l s1 envs n1 = Some (s2, es2, n2)" "good (bp_brain s2)"
    "map fst (answers (sent_frames es2)) = call_ids (map env_frame envs)" "\<forall>a\<in>set (answers (sent_frames es2)). \<exists>m. snd a = JObj m"
    using Cons.IH [OF 1(2), of n1] Cons.prems(2) by (metis list.set_intros(2))
  have "answers (sent_frames (es1 @ es2)) = answers (sent_frames es1) @ answers (sent_frames es2)"
    by (simp add: answers_def)
  then show ?case using 1 2 by (auto simp: call_ids_def)
qed

end

interpretation declarative: brain_contract "declarative_brain ev" engine_ok for ev
proof
  show "\<exists>b' act. ab_on_tool_call (declarative_brain ev) b nm args = Some (b', act) \<and> engine_ok b'" if "engine_ok b" for b nm args
    using on_tool_call_ok [OF that, of ev nm args] by (auto simp: declarative_brain_def)
  show "\<exists>ts. ab_tools (declarative_brain ev) b = Some ts" if "engine_ok b" for b
  proof -
    have "graph_ok (en_graph b)" using that by (simp add: engine_ok_def)
    then obtain p where "current_prompt ev b = Some p" using current_prompt_ok by blast
    then show ?thesis by (simp add: declarative_brain_def current_tools_def)
  qed
qed

text \<open>C19. Every tool call of the model is answered once: with the declarative brain on a valid graph, whatever frames arrive
  and whatever the control plane and the tools return, the brain stage never panics, and the results it sends back
  upstream are, in order, one per tool call, under the call's id, and each a JSON object, which is the only shape
  the model accepts.\<close>

theorem tool_calls_answered_once:
  assumes "engine_ok (bp_brain s)" and "l_prev l \<noteq> None" and "\<forall>e\<in>set envs. answer (env_frame e) = []"
  shows "\<exists>s' es n'. run_frames (brain_process (declarative_brain ev) rl parse) l s envs n = Some (s', es, n') \<and>
    map fst (answers (sent_frames es)) = call_ids (map env_frame envs) \<and>
    (\<forall>a\<in>set (answers (sent_frames es)). \<exists>m. snd a = JObj m)"
  using declarative.run_answers [OF assms, of ev rl parse n] by blast

definition demo_tool_call :: sess_env where
  "demo_tool_call = fst (envelope_new 9 (model_tool_call (lit ''id7'') (lit ''bye'') JNull) Downstream)"

definition demo_brain_proc :: "engine \<Rightarrow> engine brain_proc" where
  "demo_brain_proc e = \<lparr>bp_brain = e, mcp_names = {}, bp_live = live_state_new 8000, bp_end_requests = []\<rparr>"

lemma demo_tool_call_frame [simp]: "env_frame demo_tool_call = model_tool_call (lit ''id7'') (lit ''bye'') JNull"
  by (simp add: demo_tool_call_def envelope_new_def case_prod_unfold Let_def)

theorem tool_calls_answered_once_witness:
  "\<exists>e s' es n'. engine_new (\<lambda>_. Inr demo_raw) sorted_order JNull JNull [] = Some (Inr e) \<and>
    run_frames (brain_process (declarative_brain demo_env) (session_tool_relay demo_source) (\<lambda>_. None)) demo_sess_link
      (demo_brain_proc e) [demo_tool_call] 9 = Some (s', es, n') \<and>
    map fst (answers (sent_frames es)) = [lit ''id7''] \<and> (\<forall>a\<in>set (answers (sent_frames es)). \<exists>m. snd a = JObj m)"
proof -
  obtain e where e: "engine_new (\<lambda>_. Inr demo_raw) sorted_order JNull JNull [] = Some (Inr e)" "engine_ok e"
    using engine_new_ok [OF sorted_order_ok demo_parse, of JNull "[]"] by blast
  have "engine_ok (bp_brain (demo_brain_proc e))" "l_prev demo_sess_link \<noteq> None" "\<forall>x\<in>set [demo_tool_call]. answer (env_frame x) = []"
    using e(2) by (simp_all add: demo_brain_proc_def demo_sess_link_def answer_def)
  from tool_calls_answered_once [OF this, of demo_env "session_tool_relay demo_source" "\<lambda>_. None" 9]
  obtain s' es n' where "run_frames (brain_process (declarative_brain demo_env) (session_tool_relay demo_source) (\<lambda>_. None)) demo_sess_link
      (demo_brain_proc e) [demo_tool_call] 9 = Some (s', es, n')"
    "map fst (answers (sent_frames es)) = [lit ''id7'']" "\<forall>a\<in>set (answers (sent_frames es)). \<exists>m. snd a = JObj m"
    by (elim exE conjE) (simp only: list.map demo_tool_call_frame call_ids_def call_id_def custom_value_simps concat.simps option.case sess_value.case append_Nil2)
  with e(1) show ?thesis by (intro exI conjI)
qed

section \<open>What a hang-up keeps\<close>

lemma brain_tool_call_vars:
  assumes "brain_tool_call B rl parse s i nm args = Some (s', fs)"
  shows "(\<exists>r. bp_end_requests s' = bp_end_requests s @ [r]) \<or>
    bp_end_requests s' = bp_end_requests s \<and> lv_collected_vars (bp_live s') = lv_collected_vars (bp_live s)"
  using assms
  by (auto simp: brain_tool_call_def resolve_tools_def Let_def split: if_splits Option.bind_splits brain_action.splits)

lemma brain_run_vars:
  assumes "run_frames (brain_process B rl parse) l s envs n = Some (s', es, n')"
  shows "length (bp_end_requests s) \<le> length (bp_end_requests s') \<and>
    (bp_end_requests s' = bp_end_requests s \<longrightarrow> lv_collected_vars (bp_live s') = lv_collected_vars (bp_live s))"
  using assms
proof (induction envs arbitrary: s n es)
  case (Cons e envs)
  then obtain s1 es1 n1 es2 where 1: "brain_process B rl parse l s e n = Some (s1, es1, n1)"
    and 2: "run_frames (brain_process B rl parse) l s1 envs n1 = Some (s', es2, n')"
    by (auto split: Option.bind_splits)
  have "(\<exists>r. bp_end_requests s1 = bp_end_requests s @ [r]) \<or>
      bp_end_requests s1 = bp_end_requests s \<and> lv_collected_vars (bp_live s1) = lv_collected_vars (bp_live s)"
    using 1 by (auto simp: brain_process_def split: option.splits sess_value.splits Option.bind_splits prod.splits
        dest: brain_tool_call_vars)
  then show ?case using Cons.IH [OF 2] by auto
qed simp

text \<open>Variables survive only a call that the brain ends: if the caller hangs up (the brain has not ended the call), the
  completion report carries \<open>null\<close> in place of the collected variables, although the brain holds an object of them.\<close>

lemma hangup_loses_collected_vars:
  assumes "run_frames (brain_process (declarative_brain ev) rl parse) l s envs n = Some (s', es, n')"
    and "bp_live s = live_state_new rate" and "bp_end_requests s' = bp_end_requests s" and "r = EndOfTask \<or> r = Cancelled"
  shows "(\<exists>fin. completions (fp_log (finalize_stop S D (finalizer_new (bp_live s')) r)) = [fin] \<and> fin_collected_vars fin = JNull) \<and>
    (\<exists>m. ab_collected_vars (declarative_brain ev) (bp_brain s') = JObj m)"
proof -
  have v: "lv_collected_vars (bp_live s') = JNull"
    using brain_run_vars [OF assms(1)] assms(2,3) by (simp add: live_state_new_def)
  have "\<exists>fin. completions (fp_log (run_finalize S D (finalizer_new (bp_live s')\<lparr>fp_finalized := True\<rparr>))) = [fin] \<and>
      fin_collected_vars fin = JNull"
    using upload_artifact_facts(1) v
    by (simp add: run_finalize_def Let_def case_prod_unfold finalizer_new_def merge_disposition_def split: sum.split)
       (metis prod.collapse)
  moreover have "finalize_stop S D (finalizer_new (bp_live s')) r = run_finalize S D (finalizer_new (bp_live s')\<lparr>fp_finalized := True\<rparr>)"
    using assms(4) by (auto simp: finalize_stop_def finalizer_new_def)
  moreover have "\<exists>m. ab_collected_vars (declarative_brain ev) (bp_brain s') = JObj m"
    by (simp add: declarative_brain_def collected_vars_def Let_def)
  ultimately show ?thesis by simp
qed

section \<open>The playout drain\<close>

interpretation playout: task_invariant "transport_output_processor R ans clock" "\<lambda>s. \<forall>d. CarrierSleep d \<notin> set (to_calls s)"
  "\<lambda>e. \<forall>r. env_frame e = End r \<longrightarrow> env_direction e = Downstream" for R ans clock
proof (unfold_locales, goal_cases)
  case (1 s params)
  then show ?case by (simp add: transport_output_processor_def output_start_def split: sum.split)
next
  case (2 s)
  then show ?case
    by (simp add: transport_output_processor_def output_on_interruption_def to_ask_def to_error_def Let_def split: option.split)
next
  case (3 s reason)
  then show ?case by (simp add: transport_output_processor_def default_stop_def)
next
  case (4 s env l n)
  then have "env_frame env \<noteq> End r" for r by (auto simp: lifecycle_def is_terminal_def)
  moreover have "\<forall>d. CarrierSleep d \<notin> set (to_calls s1)" if "output_audio R ans clock s a = Some s1" for a s1
    using that 4(1)
    by (auto simp: output_audio_def to_now_def to_ask_def to_error_def Let_def split: option.splits prod.splits sum.splits if_splits)
  ultimately show ?case using 4(1)
    by (cases "env_frame env") (auto simp: transport_output_processor_def output_process_def Let_def split: option.split)
qed

text \<open>The end-of-call playout drain never runs. The output stage means to hold an \<open>End\<close> until the audio it has sent
  has been played, but the task loop handles a downstream \<open>End\<close> itself and never gives it to \<open>process_frame\<close>: on any
  queues in which ends travel downstream, the stage never waits.\<close>

lemma playout_drain_never_runs:
  assumes "\<forall>e\<in>set (rx_system r) \<union> set (rx_normal r). \<forall>reason. env_frame e = End reason \<longrightarrow> env_direction e = Downstream"
  shows "CarrierSleep d \<notin> set (to_calls (fst (run_processor (transport_output_processor R ans clock) l (transport_output_new cr st) r n)))"
  by (rule playout.run_keeps [THEN spec]) (use assms in \<open>simp_all add: transport_output_new_def\<close>)

section \<open>What the model hears\<close>

fun audio_sent :: "rt_call list \<Rightarrow> i16 list" where
  "audio_sent [] = []"
| "audio_sent (RtSendAudio c # cs) = ac_pcm c @ audio_sent cs"
| "audio_sent (_ # cs) = audio_sent cs"

lemma audio_sent_append [simp]: "audio_sent (xs @ ys) = audio_sent xs @ audio_sent ys"
  by (induction xs rule: audio_sent.induct) simp_all

definition caller_audio :: "sess_frame \<Rightarrow> audio_chunk list" where
  "caller_audio f = (case f of InputAudio a \<Rightarrow> [chunk_of_frame a] | _ \<Rightarrow> [])"

lemma realtime_process_other:
  assumes "caller_audio (env_frame env) = []" and "\<forall>h c. ans h c = None"
  shows "\<exists>s' es. realtime_process R ans l s env n = Some (s', es, n) \<and> in_resampler s' = in_resampler s \<and>
    audio_sent (rt_calls s') = audio_sent (rt_calls s)"
  using assms
  by (cases "env_frame env")
     (auto simp: realtime_process_def caller_audio_def rt_ask_def spawn_reader_def Let_def split: option.split sess_value.split)

lemma realtime_process_audio:
  assumes "caller_audio (env_frame env) = [c]" and "\<forall>h c. ans h c = None" and "in_resampler s = Some rs"
    and "resampler_process R rs c = (rs1, Inr up)"
  shows "\<exists>s' es. realtime_process R ans l s env n = Some (s', es, n) \<and> in_resampler s' = Some rs1 \<and>
    audio_sent (rt_calls s') = audio_sent (rt_calls s) @ ac_pcm up"
proof -
  obtain a where "env_frame env = InputAudio a" "c = chunk_of_frame a"
    using assms(1) by (cases "env_frame env") (auto simp: caller_audio_def)
  then show ?thesis
    using assms(2-4) by (cases "ac_pcm up = []") (simp_all add: realtime_process_def rt_ask_def spawn_reader_def Let_def)
qed

lemma realtime_run_audio:
  assumes "\<forall>h c. ans h c = None" and "in_resampler s = Some rs"
    and "resample_all R rs (concat (map (\<lambda>e. caller_audio (env_frame e)) envs)) = (rs', Inr out)"
  shows "\<exists>s' es. run_frames (realtime_process R ans) l s envs n = Some (s', es, n) \<and> in_resampler s' = Some rs' \<and>
    audio_sent (rt_calls s') = audio_sent (rt_calls s) @ out"
  using assms(2,3)
proof (induction envs arbitrary: s rs out)
  case (Cons e envs)
  show ?case
  proof (cases "caller_audio (env_frame e)")
    case Nil
    obtain s1 es1 where 1: "realtime_process R ans l s e n = Some (s1, es1, n)" "in_resampler s1 = in_resampler s"
      "audio_sent (rt_calls s1) = audio_sent (rt_calls s)" using realtime_process_other [OF Nil assms(1)] by blast
    show ?thesis using Cons.IH [of s1 rs out] Cons.prems 1 Nil by auto
  next
    case (Cons c cs)
    then have c: "caller_audio (env_frame e) = [c]" by (cases "env_frame e") (auto simp: caller_audio_def)
    obtain rs1 up out2 where p: "resampler_process R rs c = (rs1, Inr up)" and o: "out = ac_pcm up @ out2"
      and rest: "resample_all R rs1 (concat (map (\<lambda>e. caller_audio (env_frame e)) envs)) = (rs', Inr out2)"
      using Cons.prems(2) c by (auto split: prod.splits sum.splits)
    obtain s1 es1 where 1: "realtime_process R ans l s e n = Some (s1, es1, n)" "in_resampler s1 = Some rs1"
      "audio_sent (rt_calls s1) = audio_sent (rt_calls s) @ ac_pcm up"
      using realtime_process_audio [OF c assms(1) Cons.prems(1) p] by blast
    show ?thesis using Cons.IH [OF 1(2) rest] 1 o by auto
  qed
qed simp

text \<open>C21. The model hears the caller: as long as the model accepts what it is sent and the resampling engine does not fail,
  the audio sent to the model over any stretch of the call, whatever other frames come in between and however the
  carrier cut it, is the resampling of the whole of the caller's audio in one piece, in order.\<close>

theorem caller_audio_reaches_model:
  assumes "\<forall>h c. ans h c = None" and "in_resampler s = Some rs" and "resampler_ok rs"
    and "\<forall>c\<in>set (concat (map (\<lambda>e. caller_audio (env_frame e)) envs)). ac_sample_rate c = from_rate rs"
    and "resample_all R rs (concat (map (\<lambda>e. caller_audio (env_frame e)) envs)) = (rs', Inr out)"
  shows "\<exists>s' es. run_frames (realtime_process R ans) l s envs n = Some (s', es, n) \<and>
    audio_sent (rt_calls s') = audio_sent (rt_calls s) @ out \<and>
    resampler_process R rs \<lparr>ac_pcm = concat (map ac_pcm (concat (map (\<lambda>e. caller_audio (env_frame e)) envs))),
      ac_sample_rate = from_rate rs\<rparr> = (rs', Inr \<lparr>ac_pcm = out, ac_sample_rate = to_rate rs\<rparr>)"
  using realtime_run_audio [OF assms(1,2,5), of l n] resample_all_once [OF assms(3-5)] by blast

definition demo_service :: "nat realtime_service" where
  "demo_service = (realtime_service_new 16000 8000 (live_state_new 16000))\<lparr>in_resampler := Some demo_resampler\<rparr>"

definition demo_talk :: "sess_env list" where
  "demo_talk = [fst (envelope_new 9 ClientConnected Downstream),
    fst (envelope_new 10 (InputAudio (mono (replicate 256 5) 16000)) Downstream)]"

lemma demo_talk_audio: "concat (map (\<lambda>e. caller_audio (env_frame e)) demo_talk) = [demo_chunk 256]"
  by (simp add: demo_talk_def envelope_new_def case_prod_unfold Let_def caller_audio_def chunk_of_frame_def mono_def demo_chunk_def)

theorem caller_audio_reaches_model_witness:
  "\<exists>s' es. run_frames (realtime_process demo_rubato (\<lambda>_ _. None)) demo_sess_link demo_service demo_talk 11 = Some (s', es, 11) \<and>
     length (audio_sent (rt_calls s')) = 128"
proof -
  define out where "out = map f32_to_i16 (take 128 (map i16_to_f32 (replicate 256 5)))"
  have r: "resample_all demo_rubato demo_resampler (concat (map (\<lambda>e. caller_audio (env_frame e)) demo_talk)) =
      (demo_resampler\<lparr>rs_inner := Some 1\<rparr>, Inr out)"
    unfolding demo_talk_audio out_def
    by (simp add: demo_chunk_def demo_resampler_def resampler_process_def process_blocks.simps BLOCK_def demo_rubato_def)
  have h: "\<forall>h c. (\<lambda>_ _. None) h c = None" "in_resampler demo_service = Some demo_resampler" "resampler_ok demo_resampler"
    "\<forall>c\<in>set (concat (map (\<lambda>e. caller_audio (env_frame e)) demo_talk)). ac_sample_rate c = from_rate demo_resampler"
    unfolding demo_talk_audio
    by (simp_all add: demo_service_def resampler_ok_def BLOCK_def demo_resampler_def demo_chunk_def)
  obtain s' es where "run_frames (realtime_process demo_rubato (\<lambda>_ _. None)) demo_sess_link demo_service demo_talk 11 = Some (s', es, 11)"
    "audio_sent (rt_calls s') = audio_sent (rt_calls demo_service) @ out"
    using caller_audio_reaches_model [OF h r, of demo_sess_link 11] by blast
  then show ?thesis by (simp add: demo_service_def realtime_service_new_def out_def)
qed

end
