(* ===== verification/Context_Relay.thy ===== *)
theory Context_Relay
  imports Live_State
begin

text \<open>
  Context compaction for realtime sessions, \<^verbatim>\<open>flowcat-core/src/pipeline/context_relay.rs\<close>: the rolling digest, the triggers, and
  the relay that re-bases a session onto the digest.

  The summary is written by a task of its own. The model keeps that task as the pending job, and its completion is an
  event of its own, so it may come between any two frames. The compactor is an argument; the one backed by an LLM is
  modelled over the service's answers. Clock readings (nanoseconds) are an argument.
\<close>

section \<open>The compactors\<close>

type_synonym compactor = "transcript \<Rightarrow> ustr option \<Rightarrow> ustr option"

definition verbatim_compactor :: compactor where
  "verbatim_compactor older prior = None"

definition nl :: ustr where
  "nl = [10]"

definition compaction_text :: "transcript \<Rightarrow> ustr option \<Rightarrow> ustr" where
  "compaction_text older prior =
     (case prior of
        Some p \<Rightarrow> lit ''Summary so far:'' @ nl @ p @ nl @ nl @ lit ''New turns to fold into the summary:'' @ nl
      | None \<Rightarrow> lit ''Conversation so far:'' @ nl) @
     concat (map (\<lambda>l. (case tl_speaker l of User \<Rightarrow> lit ''Caller: '' | Bot \<Rightarrow> lit ''Agent: '') @ tl_text l @ nl) older)"

definition build_context :: "ustr \<Rightarrow> transcript \<Rightarrow> ustr option \<Rightarrow> json llm_context" where
  "build_context instruction older prior =
     \<lparr>messages = [json_message ''system'' instruction, json_message ''user'' (compaction_text older prior)], ctx_tools = []\<rparr>"

definition default_compaction_instruction :: ustr where
  "default_compaction_instruction =
     lit ''You compress a voice conversation so it can be carried into a fresh session. '' @
     lit ''Write a concise third-person summary (under ~120 words) capturing who the caller is, '' @
     lit ''what they want, the key facts, decisions and commitments made, and any unresolved items. '' @
     lit ''Fold in the prior summary if given. Output ONLY the summary, with no preamble.''"

text \<open>How the text LLM answers: starting it, and the frames one run streams.\<close>

record llm_answers =
  llm_start :: "flowcat_error option"
  llm_run :: "json llm_context \<Rightarrow> flowcat_error + json frame list"

definition llm_text :: "json frame \<Rightarrow> ustr" where
  "llm_text f = (case f of LlmText t \<Rightarrow> t | _ \<Rightarrow> [])"

definition llm_compact :: "llm_answers \<Rightarrow> ustr \<Rightarrow> bool \<Rightarrow> transcript \<Rightarrow> ustr option \<Rightarrow> bool \<times> ustr option" where
  "llm_compact A instruction started older prior =
     (if older = [] then (started, None)
      else let ctx = build_context instruction older prior
           in if \<not> started \<and> llm_start A \<noteq> None then (started, None)
              else case llm_run A ctx of
                     Inl e \<Rightarrow> (True, None)
                   | Inr fs \<Rightarrow>
                       (let trimmed = trim (concat (map llm_text fs))
                        in (True, if trimmed = [] then None else Some trimmed)))"

section \<open>The digest\<close>

record context_digest =
  dg_summary :: "ustr option"
  summarized_through :: nat

definition render_block :: "context_digest \<Rightarrow> transcript \<Rightarrow> ustr" where
  "render_block d turns =
     (let recent = drop (min (summarized_through d) (length turns)) turns
      in if dg_summary d = None \<and> recent = [] then []
         else nl @ nl @ lit ''--- Conversation so far (preserved across a session refresh) ---'' @ nl @
              (case dg_summary d of
                 Some t \<Rightarrow> lit ''Summary of earlier conversation: '' @ t @ nl
               | None \<Rightarrow> []) @
              concat (map (\<lambda>l. (case tl_speaker l of User \<Rightarrow> lit ''user: '' | Bot \<Rightarrow> lit ''assistant: '') @ tl_text l @ nl) recent) @
              lit ''--- end of preserved conversation ---'' @ nl)"

section \<open>The relay\<close>

record relay_config =
  max_context_tokens :: "u64 option"
  trigger_after_turns :: "nat option"
  keep_recent_turns :: nat
  min_turns_between :: nat
  max_session_secs :: "nat option"

definition relay_config_new :: relay_config where
  "relay_config_new =
     \<lparr>max_context_tokens = Some 4000, trigger_after_turns = None, keep_recent_turns = 4, min_turns_between = 2,
      max_session_secs = None\<rparr>"

datatype compaction_reason = Budget | SessionAge | TurnCount

record compaction_job =
  jb_older :: transcript
  jb_prior :: "ustr option"
  jb_target :: nat

record relay =
  ry_config :: relay_config
  base_prompt :: ustr
  base_tools :: "tool_decl list"
  ry_transcript :: transcript
  digest :: context_digest
  in_flight :: bool
  turns_since_compaction :: nat
  session_started :: "nat option"
  ry_job :: "compaction_job option"

definition relay_new :: "relay_config \<Rightarrow> ustr \<Rightarrow> tool_decl list \<Rightarrow> relay" where
  "relay_new cfg prompt ts =
     \<lparr>ry_config = cfg, base_prompt = prompt, base_tools = ts, ry_transcript = [],
      digest = \<lparr>dg_summary = None, summarized_through = 0\<rparr>, in_flight = False, turns_since_compaction = 0,
      session_started = None, ry_job = None\<rparr>"

definition relay_start :: "relay \<Rightarrow> nat \<Rightarrow> relay" where
  "relay_start s now = s\<lparr>session_started := Some now\<rparr>"

definition effective_prompt :: "relay \<Rightarrow> ustr" where
  "effective_prompt s = base_prompt s @ render_block (digest s) (ry_transcript s)"

definition should_compact :: "relay \<Rightarrow> u64 option \<Rightarrow> nat \<Rightarrow> compaction_reason option" where
  "should_compact s tokens elapsed_secs =
     (if in_flight s \<or> ry_transcript s = [] then None
      else if (case max_session_secs (ry_config s) of Some m \<Rightarrow> m \<le> elapsed_secs | None \<Rightarrow> False) then Some SessionAge
      else if turns_since_compaction s < max (min_turns_between (ry_config s)) 1 then None
      else if (case (max_context_tokens (ry_config s), tokens) of (Some m, Some t) \<Rightarrow> m < t | _ \<Rightarrow> False) then Some Budget
      else if (case trigger_after_turns (ry_config s) of Some k \<Rightarrow> k \<le> turns_since_compaction s | None \<Rightarrow> False)
      then Some TurnCount
      else None)"

text \<open>Re-base now, and leave the job of folding the older turns into the summary.\<close>

definition fire_compaction :: "link \<Rightarrow> relay \<Rightarrow> nat \<Rightarrow> u64 \<Rightarrow> relay \<times> sess_value eff list \<times> u64" where
  "fire_compaction l s now n =
     (let s1 = s\<lparr>in_flight := True, turns_since_compaction := 0, session_started := Some now\<rparr>;
          (es, n1) = push_up l n (reprompt (effective_prompt s1) (base_tools s1));
          target = length (ry_transcript s1) - keep_recent_turns (ry_config s1)
      in if target \<le> summarized_through (digest s1) then (s1\<lparr>in_flight := False\<rparr>, es, n1)
         else (s1\<lparr>ry_job := Some \<lparr>jb_older = take target (ry_transcript s1), jb_prior = dg_summary (digest s1), jb_target = target\<rparr>\<rparr>,
               es, n1))"

definition relay_process :: "(relay, sess_env \<times> nat, sess_value) tap_step" where
  "relay_process l s x n =
     (case x of (env, now) \<Rightarrow>
        (case env_frame env of
           Transcription t user_id lang True \<Rightarrow>
             Some (s\<lparr>ry_transcript := (if is_bot user_id then push_bot (ry_transcript s) t else push_user (ry_transcript s) t)\<rparr>,
                   push_env l env, n)
         | Custom c \<Rightarrow>
             (case cf_value c of
                Some (UsageReport u) \<Rightarrow>
                  (let s1 = s\<lparr>turns_since_compaction := turns_since_compaction s + 1\<rparr>;
                       elapsed = (case session_started s1 of Some t \<Rightarrow> (now - t) div 10 ^ 9 | None \<Rightarrow> 0)
                   in case should_compact s1 (input_tokens u) elapsed of
                        Some reason \<Rightarrow> (let (s2, es, n1) = fire_compaction l s1 now n in Some (s2, es @ push_env l env, n1))
                      | None \<Rightarrow> Some (s1, push_env l env, n))
              | Some (Reprompt p ts) \<Rightarrow>
                  (let s1 = s\<lparr>base_prompt := p, base_tools := ts\<rparr>;
                       (es, n1) = push_up l n (reprompt (effective_prompt s1) (base_tools s1))
                   in Some (s1, es, n1))
              | _ \<Rightarrow> Some (s, push_env l env, n))
         | _ \<Rightarrow> Some (s, push_env l env, n)))"

text \<open>The pending job finishes: its summary, if any, replaces the digest's, and the guard is released.\<close>

definition relay_compacted :: "compactor \<Rightarrow> relay \<Rightarrow> relay" where
  "relay_compacted cmp s =
     (case ry_job s of
        None \<Rightarrow> s
      | Some j \<Rightarrow>
          (let d = (case cmp (jb_older j) (jb_prior j) of
                      Some t \<Rightarrow> \<lparr>dg_summary = Some t, summarized_through = jb_target j\<rparr>
                    | None \<Rightarrow> digest s)
           in s\<lparr>digest := d, in_flight := False, ry_job := None\<rparr>))"

datatype (plugins only: code size) relay_event = Incoming sess_env nat | CompactionDone

definition relay_event_step :: "compactor \<Rightarrow> (relay, relay_event, sess_value) tap_step" where
  "relay_event_step cmp l s ev n =
     (case ev of
        Incoming env now \<Rightarrow> relay_process l s (env, now) n
      | CompactionDone \<Rightarrow> Some (relay_compacted cmp s, [], n))"

section \<open>The digest covers the conversation\<close>

text \<open>What an event adds to the turn log, and the prompt and tools it sets.\<close>

definition relay_heard :: "relay_event \<Rightarrow> (speaker \<times> ustr) list" where
  "relay_heard ev =
     (case ev of
        Incoming env now \<Rightarrow>
          (case env_frame env of
             Transcription t user_id lang True \<Rightarrow> [(if is_bot user_id then Bot else User, t)]
           | _ \<Rightarrow> [])
      | CompactionDone \<Rightarrow> [])"

definition relay_rebased :: "relay_event \<Rightarrow> (ustr \<times> tool_decl list) list" where
  "relay_rebased ev =
     (case ev of
        Incoming env now \<Rightarrow> (case custom_value (env_frame env) of Some (Reprompt p ts) \<Rightarrow> [(p, ts)] | _ \<Rightarrow> [])
      | CompactionDone \<Rightarrow> [])"

definition relay_ok :: "compactor \<Rightarrow> relay \<Rightarrow> bool" where
  "relay_ok cmp s \<longleftrightarrow>
     (in_flight s \<longleftrightarrow> ry_job s \<noteq> None) \<and>
     (summarized_through (digest s) = 0 \<or>
        summarized_through (digest s) + keep_recent_turns (ry_config s) \<le> length (ry_transcript s)) \<and>
     (case dg_summary (digest s) of
        None \<Rightarrow> summarized_through (digest s) = 0
      | Some t \<Rightarrow> 0 < summarized_through (digest s) \<and>
          (\<exists>prior. cmp (take (summarized_through (digest s)) (ry_transcript s)) prior = Some t)) \<and>
     (case ry_job s of
        None \<Rightarrow> True
      | Some j \<Rightarrow>
          0 < jb_target j \<and> jb_older j = take (jb_target j) (ry_transcript s) \<and>
          jb_target j + keep_recent_turns (ry_config s) \<le> length (ry_transcript s))"

lemma transcript_push_length: "length ls \<le> length (transcript_push ls sp t)"
  by (cases ls rule: rev_cases) (auto simp: transcript_push_def)

lemma transcript_push_take: "k < length ls \<Longrightarrow> take k (transcript_push ls sp t) = take k ls"
  by (cases ls rule: rev_cases) (auto simp: transcript_push_def)

lemma relay_ok_push:
  assumes "relay_ok cmp s" and "1 \<le> keep_recent_turns (ry_config s)"
  shows "relay_ok cmp (s\<lparr>ry_transcript := transcript_push (ry_transcript s) sp t\<rparr>)"
proof -
  have keep: "take k (transcript_push (ry_transcript s) sp t) = take k (ry_transcript s)"
    if "k = 0 \<or> k + keep_recent_turns (ry_config s) \<le> length (ry_transcript s)" for k
    using that assms(2) transcript_push_take [of k "ry_transcript s"] by (cases "k = 0") simp_all
  have len: "k + keep_recent_turns (ry_config s) \<le> length (transcript_push (ry_transcript s) sp t)"
    if "k + keep_recent_turns (ry_config s) \<le> length (ry_transcript s)" for k
    using that transcript_push_length [of "ry_transcript s" sp t] by simp
  show ?thesis using assms(1) by (auto simp: relay_ok_def keep len split: option.splits)
qed

lemma fire_compaction_ok:
  assumes "relay_ok cmp s" and "\<not> in_flight s" and "fire_compaction l s now n = (s', es, n')"
  shows "relay_ok cmp s' \<and> ry_config s' = ry_config s \<and> ry_transcript s' = ry_transcript s \<and>
    base_prompt s' = base_prompt s \<and> base_tools s' = base_tools s"
  using assms by (auto simp: fire_compaction_def relay_ok_def Let_def split: if_splits prod.splits option.splits)

lemma relay_compacted_ok: "relay_ok cmp s \<Longrightarrow> relay_ok cmp (relay_compacted cmp s)"
  by (auto simp: relay_compacted_def relay_ok_def Let_def split: option.splits)

text \<open>One event: the invariant, the turn log and the base.\<close>

definition relay_pushes :: "transcript \<Rightarrow> (speaker \<times> ustr) list \<Rightarrow> transcript" where
  "relay_pushes ls ds = foldl (\<lambda>ls (sp, t). transcript_push ls sp t) ls ds"

definition rebase :: "ustr \<times> tool_decl list \<Rightarrow> (ustr \<times> tool_decl list) list \<Rightarrow> ustr \<times> tool_decl list" where
  "rebase b rs = (if rs = [] then b else last rs)"

lemma should_compact_free: "should_compact s tk el = Some r \<Longrightarrow> \<not> in_flight s"
  by (auto simp: should_compact_def split: if_splits)

lemma relay_usage_ok:
  assumes "relay_ok cmp s" and "env_frame env = Custom c" and "cf_value c = Some (UsageReport u)"
    and "relay_process l s (env, now) n = Some (s', es, n')"
  shows "relay_ok cmp s' \<and> ry_config s' = ry_config s \<and> ry_transcript s' = ry_transcript s \<and>
    base_prompt s' = base_prompt s \<and> base_tools s' = base_tools s"
proof -
  define s1 where "s1 = s\<lparr>turns_since_compaction := turns_since_compaction s + 1\<rparr>"
  define el where "el = (case session_started s1 of Some t \<Rightarrow> (now - t) div 10 ^ 9 | None \<Rightarrow> 0)"
  have ok: "relay_ok cmp s1" using assms(1) by (simp add: s1_def relay_ok_def cong: option.case_cong)
  show ?thesis
  proof (cases "should_compact s1 (input_tokens u) el")
    case None
    then have "s' = s1" using assms(2-4) by (simp add: relay_process_def s1_def el_def Let_def)
    then show ?thesis using ok by (simp add: s1_def)
  next
    case (Some r)
    obtain s2 es2 n2 where f: "fire_compaction l s1 now n = (s2, es2, n2)" by (cases "fire_compaction l s1 now n")
    then have "s' = s2" using Some assms(2-4) by (simp add: relay_process_def s1_def el_def Let_def)
    then show ?thesis using fire_compaction_ok [OF ok should_compact_free [OF Some] f] by (simp add: s1_def)
  qed
qed

lemma relay_incoming_ok:
  assumes "relay_ok cmp s" and "1 \<le> keep_recent_turns (ry_config s)" and "relay_process l s (env, now) n = Some (s', es, n')"
  shows "relay_ok cmp s' \<and> ry_config s' = ry_config s \<and>
    ry_transcript s' = relay_pushes (ry_transcript s) (relay_heard (Incoming env now)) \<and>
    (base_prompt s', base_tools s') = rebase (base_prompt s, base_tools s) (relay_rebased (Incoming env now))"
proof (cases "env_frame env")
  case (Transcription t uid lang fin)
  note ok = relay_ok_push [OF assms(1,2), of _ t]
  show ?thesis
    using assms(1,3) ok
    by (cases fin) (auto simp: Transcription relay_process_def relay_heard_def relay_rebased_def relay_pushes_def rebase_def
        push_bot_def push_user_def)
next
  case (Custom c)
  show ?thesis
  proof (cases "cf_value c")
    case None
    then show ?thesis using assms(1,3)
      by (simp add: Custom relay_process_def relay_heard_def relay_rebased_def relay_pushes_def rebase_def custom_value_def)
  next
    case (Some v)
    show ?thesis
    proof (cases v)
      case (UsageReport u)
      then show ?thesis using relay_usage_ok [OF assms(1) Custom _ assms(3)] Some
        by (simp add: Custom relay_heard_def relay_rebased_def relay_pushes_def rebase_def custom_value_def)
    next
      case (Reprompt p ts)
      then show ?thesis using assms(1,3) Some
        by (auto simp: Custom relay_process_def relay_heard_def relay_rebased_def relay_pushes_def rebase_def custom_value_def
            relay_ok_def Let_def split: prod.splits cong: option.case_cong)
    qed (use Some assms(1,3) in \<open>simp_all add: Custom relay_process_def relay_heard_def relay_rebased_def relay_pushes_def
        rebase_def custom_value_def\<close>)
  qed
qed (use assms(1,3) in \<open>simp_all add: relay_process_def relay_heard_def relay_rebased_def relay_pushes_def rebase_def custom_value_def\<close>)

lemma relay_step_ok:
  assumes "relay_ok cmp s" and "1 \<le> keep_recent_turns (ry_config s)" and "relay_event_step cmp l s ev n = Some (s', es, n')"
  shows "relay_ok cmp s' \<and> ry_config s' = ry_config s \<and> ry_transcript s' = relay_pushes (ry_transcript s) (relay_heard ev) \<and>
    (base_prompt s', base_tools s') = rebase (base_prompt s, base_tools s) (relay_rebased ev)"
proof (cases ev)
  case (Incoming env now)
  then show ?thesis using relay_incoming_ok [OF assms(1,2)] assms(3) by (simp add: relay_event_step_def)
next
  case CompactionDone
  then have "s' = relay_compacted cmp s" using assms(3) by (simp add: relay_event_step_def)
  then show ?thesis
    using relay_compacted_ok [OF assms(1)] CompactionDone
    by (simp add: relay_heard_def relay_rebased_def relay_pushes_def rebase_def relay_compacted_def Let_def split: option.split)
qed

lemma relay_run_ok:
  assumes "relay_ok cmp s" and "1 \<le> keep_recent_turns (ry_config s)" and "run_frames (relay_event_step cmp) l s evs n = Some (s', es, n')"
  shows "relay_ok cmp s' \<and> ry_config s' = ry_config s \<and>
    ry_transcript s' = relay_pushes (ry_transcript s) (concat (map relay_heard evs)) \<and>
    (base_prompt s', base_tools s') = rebase (base_prompt s, base_tools s) (concat (map relay_rebased evs))"
  using assms
proof (induction evs arbitrary: s n es)
  case (Cons ev evs)
  then obtain s1 es1 n1 es2 where 1: "relay_event_step cmp l s ev n = Some (s1, es1, n1)"
    and 2: "run_frames (relay_event_step cmp) l s1 evs n1 = Some (s', es2, n')"
    by (auto split: Option.bind_splits)
  note st = relay_step_ok [OF Cons.prems(1,2) 1]
  have "1 \<le> keep_recent_turns (ry_config s1)" using st Cons.prems(2) by simp
  from Cons.IH [OF _ this 2] st show ?case
    by (auto simp: relay_pushes_def rebase_def)
qed (simp add: relay_pushes_def rebase_def)

lemma relay_new_ok: "relay_ok cmp (relay_start (relay_new cfg p ts) t0)"
  by (simp add: relay_ok_def relay_start_def relay_new_def)

text \<open>The prompts a session is re-based on: the \<open>Reprompt\<close> frames the relay sends.\<close>

definition reprompts :: "sess_frame list \<Rightarrow> (ustr \<times> tool_decl list) list" where
  "reprompts fs = concat (map (\<lambda>f. case custom_value f of Some (Reprompt p ts) \<Rightarrow> [(p, ts)] | _ \<Rightarrow> []) fs)"

lemma reprompts_simps [simp]:
  "reprompts [] = []" "reprompts (xs @ ys) = reprompts xs @ reprompts ys" "reprompts [reprompt p ts] = [(p, ts)]"
  by (simp_all add: reprompts_def)

text \<open>A prompt carries a conversation: behind the base prompt stand a summary of its leading lines, the compactor's, unless
  no line is left to it, and every line after them, word for word and in order.\<close>

definition line_text :: "transcript_line \<Rightarrow> ustr" where
  "line_text x = (case tl_speaker x of User \<Rightarrow> lit ''user: '' | Bot \<Rightarrow> lit ''assistant: '') @ tl_text x @ nl"

definition carries :: "compactor \<Rightarrow> nat \<Rightarrow> ustr \<Rightarrow> transcript \<Rightarrow> ustr \<Rightarrow> bool" where
  "carries cmp keep base conv p \<longleftrightarrow>
     (\<exists>pre smry mid post m. p = base @ pre @ smry @ mid @ concat (map line_text (drop m conv)) @ post \<and>
        (m = 0 \<and> smry = [] \<or> m + keep \<le> length conv \<and> (\<exists>prior. cmp (take m conv) prior = Some smry)))"

lemma render_block_carries:
  assumes "dg_summary d = None \<Longrightarrow> summarized_through d = 0"
  shows "\<exists>pre mid post. render_block d ls = pre @ (case dg_summary d of None \<Rightarrow> [] | Some t \<Rightarrow> t) @ mid @
    concat (map line_text (drop (summarized_through d) ls)) @ post"
proof -
  have drop: "drop (min (summarized_through d) (length ls)) ls = drop (summarized_through d) ls" by (simp add: min_def)
  have lines: "concat (map (\<lambda>l. (case tl_speaker l of User \<Rightarrow> lit ''user: '' | Bot \<Rightarrow> lit ''assistant: '') @ tl_text l @ nl) xs) =
      concat (map line_text xs)" for xs :: transcript by (simp add: line_text_def [abs_def])
  let ?head = "nl @ nl @ lit ''--- Conversation so far (preserved across a session refresh) ---'' @ nl"
  let ?foot = "lit ''--- end of preserved conversation ---'' @ nl"
  show ?thesis
  proof (cases "dg_summary d")
    case None
    show ?thesis
    proof (cases "drop (summarized_through d) ls = []")
      case True
      then show ?thesis using None by (simp add: render_block_def Let_def drop del: lit_Cons drop_eq_Nil)
    next
      case False
      then have "render_block d ls = ?head @ [] @ [] @ concat (map line_text (drop (summarized_through d) ls)) @ ?foot"
        using None by (simp add: render_block_def Let_def drop lines del: lit_Cons drop_eq_Nil)
      then show ?thesis unfolding None option.case by blast
    qed
  next
    case (Some t)
    then have "render_block d ls = (?head @ lit ''Summary of earlier conversation: '') @ t @ nl @
        concat (map line_text (drop (summarized_through d) ls)) @ ?foot"
      by (simp add: render_block_def Let_def drop lines del: lit_Cons)
    then show ?thesis unfolding Some option.case by blast
  qed
qed

lemma relay_ok_carries:
  assumes "relay_ok cmp s"
  shows "carries cmp (keep_recent_turns (ry_config s)) (base_prompt s) (ry_transcript s) (effective_prompt s)"
proof -
  have "dg_summary (digest s) = None \<Longrightarrow> summarized_through (digest s) = 0" using assms by (simp add: relay_ok_def)
  from render_block_carries [OF this, of "ry_transcript s"] obtain pre mid post where
    b: "render_block (digest s) (ry_transcript s) = pre @ (case dg_summary (digest s) of None \<Rightarrow> [] | Some t \<Rightarrow> t) @ mid @
      concat (map line_text (drop (summarized_through (digest s)) (ry_transcript s))) @ post" by blast
  let ?m = "summarized_through (digest s)" and ?t = "case dg_summary (digest s) of None \<Rightarrow> [] | Some t \<Rightarrow> t"
  have "?m = 0 \<and> ?t = [] \<or> ?m + keep_recent_turns (ry_config s) \<le> length (ry_transcript s) \<and>
      (\<exists>prior. cmp (take ?m (ry_transcript s)) prior = Some ?t)"
    using assms by (cases "dg_summary (digest s)") (auto simp: relay_ok_def)
  then show ?thesis unfolding carries_def effective_prompt_def b by blast
qed

lemma relay_step_reprompts:
  assumes "relay_event_step cmp l s ev n = Some (s', es, n')"
  shows "set (reprompts (sent_frames es)) \<subseteq> {(effective_prompt s', base_tools s')}"
    and "l_prev l \<noteq> None \<Longrightarrow> length (relay_rebased ev) \<le> length (reprompts (sent_frames es))"
proof -
  have fwd: "reprompts (sent_frames (push_env l env)) = []" if "\<And>p ts. custom_value (env_frame env) \<noteq> Some (Reprompt p ts)" for env
    using that by (auto simp: reprompts_def split: option.split sess_value.split)
  have fire: "set (reprompts (sent_frames es1)) \<subseteq> {(effective_prompt s1, base_tools s1)}"
    if "fire_compaction l u now n = (s1, es1, n1)" for u now s1 es1 n1
  proof -
    obtain es2 n2 where p: "push_up l n (reprompt (effective_prompt u) (base_tools u)) = (es2, n2)"
      by (cases "push_up l n (reprompt (effective_prompt u) (base_tools u))")
    have "sent_frames es2 = (if l_prev l = None then [] else [reprompt (effective_prompt u) (base_tools u)])"
      using sent_frames_push_up [of l n "reprompt (effective_prompt u) (base_tools u)"] p by simp
    then show ?thesis using that p by (auto simp: fire_compaction_def effective_prompt_def Let_def split: if_splits)
  qed
  show "set (reprompts (sent_frames es)) \<subseteq> {(effective_prompt s', base_tools s')}"
  proof (cases ev)
    case (Incoming env now)
    show ?thesis
    proof (cases "custom_value (env_frame env)")
      case None
      have "es = push_env l env"
        using assms None by (cases "env_frame env"; auto simp: Incoming relay_event_step_def relay_process_def custom_value_def split: bool.splits)
      then show ?thesis using fwd [of env] None by simp
    next
      case (Some v)
      then obtain c where c: "env_frame env = Custom c" "cf_value c = Some v" by (auto simp: custom_value_def split: frame.splits)
      show ?thesis
      proof (cases v)
        case (UsageReport u)
        then show ?thesis using assms fwd [of env] Some c fire
          by (fastforce simp: Incoming relay_event_step_def relay_process_def Let_def split: option.splits prod.splits)
      next
        case (Reprompt p ts)
        obtain es2 n2 where p: "push_up l n (reprompt (effective_prompt (s\<lparr>base_prompt := p, base_tools := ts\<rparr>)) ts) = (es2, n2)"
          by (cases "push_up l n (reprompt (effective_prompt (s\<lparr>base_prompt := p, base_tools := ts\<rparr>)) ts)")
        show ?thesis
          using assms c p sent_frames_push_up [of l n "reprompt (effective_prompt (s\<lparr>base_prompt := p, base_tools := ts\<rparr>)) ts"]
          by (auto simp: Incoming Reprompt relay_event_step_def relay_process_def Let_def split: if_splits)
      qed (use assms fwd [of env] Some c in \<open>simp_all add: Incoming relay_event_step_def relay_process_def\<close>)
    qed
  qed (use assms in \<open>simp add: relay_event_step_def\<close>)
  show "length (relay_rebased ev) \<le> length (reprompts (sent_frames es))" if "l_prev l \<noteq> None"
  proof (cases "relay_rebased ev")
    case (Cons x xs)
    then obtain env now p ts where i: "ev = Incoming env now" "custom_value (env_frame env) = Some (Reprompt p ts)" "xs = []"
      by (auto simp: relay_rebased_def split: relay_event.splits option.splits sess_value.splits)
    then obtain c where c: "env_frame env = Custom c" "cf_value c = Some (Reprompt p ts)"
      by (auto simp: custom_value_def split: frame.splits)
    obtain es2 n2 where p: "push_up l n (reprompt (effective_prompt (s\<lparr>base_prompt := p, base_tools := ts\<rparr>)) ts) = (es2, n2)"
      by (cases "push_up l n (reprompt (effective_prompt (s\<lparr>base_prompt := p, base_tools := ts\<rparr>)) ts)")
    show ?thesis
      using assms c p that i Cons sent_frames_push_up [of l n "reprompt (effective_prompt (s\<lparr>base_prompt := p, base_tools := ts\<rparr>)) ts"]
      by (simp add: relay_event_step_def relay_process_def Let_def)
  qed simp
qed

lemma relay_run_reprompts:
  assumes "run_frames (relay_event_step cmp) l s evs n = Some (s', es, n')" and "x \<in> set (reprompts (sent_frames es))"
  shows "\<exists>k\<le>length evs. \<exists>u es1 n1.
    run_frames (relay_event_step cmp) l s (take k evs) n = Some (u, es1, n1) \<and> x = (effective_prompt u, base_tools u)"
  using assms
proof (induction evs arbitrary: s n es)
  case (Cons ev evs)
  obtain s1 es1 n1 es2 where one: "relay_event_step cmp l s ev n = Some (s1, es1, n1)"
    and rest: "run_frames (relay_event_step cmp) l s1 evs n1 = Some (s', es2, n')" and es: "es = es1 @ es2"
    using Cons.prems(1) by (auto split: Option.bind_splits)
  from Cons.prems(2) es consider "x \<in> set (reprompts (sent_frames es1))" | "x \<in> set (reprompts (sent_frames es2))" by auto
  then show ?case
  proof cases
    case 1
    then have "x = (effective_prompt s1, base_tools s1)" using relay_step_reprompts(1) [OF one] by blast
    then show ?thesis using one by (intro exI [of _ "Suc 0"] conjI exI [of _ s1]) simp_all
  next
    case 2
    then obtain k u es3 n3 where "k \<le> length evs" "run_frames (relay_event_step cmp) l s1 (take k evs) n1 = Some (u, es3, n3)"
      "x = (effective_prompt u, base_tools u)" using Cons.IH [OF rest] by blast
    then show ?thesis using one by (intro exI [of _ "Suc k"] conjI exI [of _ u]) simp_all
  qed
qed simp

lemma relay_run_rebased:
  assumes "run_frames (relay_event_step cmp) l s evs n = Some (s', es, n')" and "l_prev l \<noteq> None"
  shows "length (concat (map relay_rebased evs)) \<le> length (reprompts (sent_frames es))"
  using assms(1)
proof (induction evs arbitrary: s n es)
  case (Cons ev evs)
  obtain s1 es1 n1 es2 where one: "relay_event_step cmp l s ev n = Some (s1, es1, n1)"
    and rest: "run_frames (relay_event_step cmp) l s1 evs n1 = Some (s', es2, n')" and es: "es = es1 @ es2"
    using Cons.prems by (auto split: Option.bind_splits)
  show ?case using Cons.IH [OF rest] relay_step_reprompts(2) [OF one assms(2)] es by simp
qed simp


lemma relay_step_total: "\<exists>s' es n'. relay_event_step cmp l s ev n = Some (s', es, n')"
proof (cases ev)
  case (Incoming env now)
  have "\<exists>s' es n'. relay_process l s (env, now) n = Some (s', es, n')"
    by (cases "env_frame env") (simp_all add: relay_process_def Let_def split: option.split sess_value.split prod.split bool.split)
  then show ?thesis by (simp add: Incoming relay_event_step_def)
qed (simp add: relay_event_step_def)

lemma relay_run_total: "\<exists>s' es n'. run_frames (relay_event_step cmp) l s evs n = Some (s', es, n')"
  by (rule run_frames_total) (rule relay_step_total)

definition demo_relay_config :: relay_config where
  "demo_relay_config = relay_config_new\<lparr>keep_recent_turns := 1, min_turns_between := 1, max_context_tokens := Some 10\<rparr>"

definition demo_compactor :: compactor where
  "demo_compactor older prior = Some (lit ''they met'')"

definition demo_incoming :: "sess_frame \<Rightarrow> relay_event" where
  "demo_incoming f = Incoming (fst (envelope_new 9 f Downstream)) 0"

definition demo_relay_events :: "relay_event list" where
  "demo_relay_events =
     [demo_incoming (Transcription (lit ''hi'') (lit ''user'') None True),
      demo_incoming (Transcription (lit ''yo'') (lit ''bot'') None True),
      demo_incoming (usage_report (usage_default\<lparr>input_tokens := Some 500\<rparr>)), CompactionDone,
      demo_incoming (reprompt (lit ''Be kind'') [])]"

definition demo_relay_link :: link where
  "demo_relay_link = \<lparr>l_next = Some \<lparr>tx_chan = 1, tx_name = ''next''\<rparr>, l_prev = Some \<lparr>tx_chan = 0, tx_name = ''prev''\<rparr>, l_name = ''R'',
     l_observer = False, enable_metrics = False, enable_usage_metrics = False, ttfb_start = 0, processing_start = 0\<rparr>"


text \<open>With no recent turn kept the digest may stand for the whole log, and the next words of the same speaker join a line the
  summary already stands for: the prompt does not change, so a session re-based now does not know them.\<close>

lemma merged_words_missing_from_prompt:
  assumes "summarized_through (digest s) = length (ry_transcript s)" and "ry_transcript s \<noteq> []"
    and "tl_speaker (last (ry_transcript s)) = sp"
  shows "effective_prompt (s\<lparr>ry_transcript := transcript_push (ry_transcript s) sp t\<rparr>) = effective_prompt s"
proof -
  have "length (transcript_push (ry_transcript s) sp t) = length (ry_transcript s)"
    using assms(2,3) by (simp add: transcript_push_def)
  then show ?thesis by (simp add: effective_prompt_def render_block_def assms(1))
qed

text \<open>While a summary is being written no trigger fires, whatever the age of the session.\<close>

lemma in_flight_blocks_every_trigger: "in_flight s \<Longrightarrow> should_compact s tokens elapsed = None"
  by (simp add: should_compact_def)

end
