(* ===== verification/Task_Pool.thy ===== *)
theory Task_Pool
  imports Main "HOL-Library.Multiset"
begin

text \<open>
  Tasks that share state and interleave at their atomic operations: what a multi-threaded runtime does with spawned
  tasks. A task is its program point; a step of it takes the clock and the shared state and gives the new shared state
  and the tasks it continues as (none when it ends, more than one when it spawns), or nothing while it is blocked. Any
  task may run next, entry points may be called at any time, and the clock moves on.

  \<open>pool_invariant\<close> is the contract under which a predicate holds in every reachable state, and \<open>pool_progress\<close> the one
  under which every run, whichever tasks are scheduled, comes to an end with no task left.
\<close>

section \<open>Pools\<close>

record ('t, 's) pool =
  pl_tasks :: "'t multiset"
  pl_shared :: 's
  pl_now :: nat

type_synonym ('t, 's) pool_op = "nat \<Rightarrow> 't \<Rightarrow> 's \<Rightarrow> ('s \<times> 't list) option"

inductive pool_step :: "('t, 's) pool_op \<Rightarrow> ('t \<Rightarrow> bool) \<Rightarrow> ('t, 's) pool \<Rightarrow> ('t, 's) pool \<Rightarrow> bool"
  for stp entry where
  pool_call: "entry t \<Longrightarrow> pool_step stp entry p (p\<lparr>pl_tasks := add_mset t (pl_tasks p)\<rparr>)"
| pool_run: "pl_tasks p = add_mset t rest \<Longrightarrow> stp (pl_now p) t (pl_shared p) = Some (s', ts) \<Longrightarrow>
    pool_step stp entry p (p\<lparr>pl_shared := s', pl_tasks := mset ts + rest\<rparr>)"
| pool_tick: "pl_now p \<le> n \<Longrightarrow> pool_step stp entry p (p\<lparr>pl_now := n\<rparr>)"

abbreviation pool_reach :: "('t, 's) pool_op \<Rightarrow> ('t \<Rightarrow> bool) \<Rightarrow> ('t, 's) pool \<Rightarrow> ('t, 's) pool \<Rightarrow> bool" where
  "pool_reach stp entry \<equiv> (pool_step stp entry)\<^sup>*\<^sup>*"

definition pool_new :: "'s \<Rightarrow> nat \<Rightarrow> ('t, 's) pool" where
  "pool_new s n = \<lparr>pl_tasks = {#}, pl_shared = s, pl_now = n\<rparr>"

lemma pool_new_simps [simp]:
  "pl_tasks (pool_new s n) = {#}" "pl_shared (pool_new s n) = s" "pl_now (pool_new s n) = n"
  by (simp_all add: pool_new_def)

text \<open>A pool written out, and its moves: what a concrete run is made of.\<close>

definition pool_at :: "'t list \<Rightarrow> 's \<Rightarrow> nat \<Rightarrow> ('t, 's) pool" where
  "pool_at ts s n = \<lparr>pl_tasks = mset ts, pl_shared = s, pl_now = n\<rparr>"

lemma pool_at_sel [simp]: "pl_tasks (pool_at ts s n) = mset ts" "pl_shared (pool_at ts s n) = s" "pl_now (pool_at ts s n) = n"
  by (simp_all add: pool_at_def)

lemma pool_new_at: "pool_new s n = pool_at [] s n"
  by (simp add: pool_new_def pool_at_def)

lemma pool_at_call: "entry t \<Longrightarrow> pool_step stp entry (pool_at ts s n) (pool_at (t # ts) s n)"
  using pool_call [of entry t stp "pool_at ts s n"] by (simp add: pool_at_def)

lemma pool_at_tick: "n \<le> n' \<Longrightarrow> pool_step stp entry (pool_at ts s n) (pool_at ts s n')"
  using pool_tick [of "pool_at ts s n" n' stp entry] by (simp add: pool_at_def)

lemma pool_at_run:
  "stp n t s = Some (s', us) \<Longrightarrow> pool_step stp entry (pool_at (xs @ t # ys) s n) (pool_at (us @ xs @ ys) s' n)"
  using pool_run [of "pool_at (xs @ t # ys) s n" t "mset (xs @ ys)" stp s' us entry] by (simp add: pool_at_def)

text \<open>The scheduler as a function: which task runs, which entry is called, how far the clock moves. It makes runs
  executable.\<close>

datatype 't move = RunTask nat | CallTask 't | ClockAt nat

fun pool_exec :: "('t, 's) pool_op \<Rightarrow> 't move list \<Rightarrow> 't list \<Rightarrow> 's \<Rightarrow> nat \<Rightarrow> ('t list \<times> 's \<times> nat) option" where
  "pool_exec stp [] ts s n = Some (ts, s, n)"
| "pool_exec stp (CallTask t # ms) ts s n = pool_exec stp ms (t # ts) s n"
| "pool_exec stp (ClockAt k # ms) ts s n = (if n \<le> k then pool_exec stp ms ts s k else None)"
| "pool_exec stp (RunTask i # ms) ts s n =
     (if i < length ts then
        (case stp n (ts ! i) s of
           None \<Rightarrow> None
         | Some (s', us) \<Rightarrow> pool_exec stp ms (us @ take i ts @ drop (Suc i) ts) s' n)
      else None)"

lemma pool_exec_reach:
  assumes "pool_exec stp ms ts s n = Some (ts', s', n')" and "\<And>t. CallTask t \<in> set ms \<Longrightarrow> entry t"
  shows "pool_reach stp entry (pool_at ts s n) (pool_at ts' s' n')"
  using assms
proof (induction ms arbitrary: ts s n)
  case (Cons m ms)
  show ?case
  proof (cases m)
    case (RunTask i)
    with Cons.prems(1) obtain s1 us where i: "i < length ts" and 1: "stp n (ts ! i) s = Some (s1, us)"
      and 2: "pool_exec stp ms (us @ take i ts @ drop (Suc i) ts) s1 n = Some (ts', s', n')"
      by (auto split: if_splits option.splits prod.splits)
    have "pool_step stp entry (pool_at (take i ts @ ts ! i # drop (Suc i) ts) s n) (pool_at (us @ take i ts @ drop (Suc i) ts) s1 n)"
      by (rule pool_at_run) (rule 1)
    then have "pool_step stp entry (pool_at ts s n) (pool_at (us @ take i ts @ drop (Suc i) ts) s1 n)"
      using i by (simp add: id_take_nth_drop [symmetric])
    then show ?thesis using Cons.IH [OF 2] Cons.prems(2) by (simp add: converse_rtranclp_into_rtranclp)
  next
    case (CallTask t)
    then have "pool_step stp entry (pool_at ts s n) (pool_at (t # ts) s n)" using Cons.prems(2) by (intro pool_at_call) simp
    then show ?thesis using Cons CallTask by (simp add: converse_rtranclp_into_rtranclp)
  next
    case (ClockAt k)
    then have "pool_step stp entry (pool_at ts s n) (pool_at ts s k)" using Cons.prems(1) by (intro pool_at_tick) (simp split: if_splits)
    moreover have "pool_reach stp entry (pool_at ts s k) (pool_at ts' s' n')"
      using Cons ClockAt by (simp split: if_splits)
    ultimately show ?thesis by (simp add: converse_rtranclp_into_rtranclp)
  qed
qed simp

section \<open>Invariants\<close>

locale pool_invariant =
  fixes stp :: "('t, 's) pool_op" and entry :: "'t \<Rightarrow> bool" and ok :: "'t multiset \<Rightarrow> 's \<Rightarrow> bool"
  assumes ok_call: "ok T s \<Longrightarrow> entry t \<Longrightarrow> ok (add_mset t T) s"
    and ok_run: "ok (add_mset t T) s \<Longrightarrow> stp n t s = Some (s', ts) \<Longrightarrow> ok (mset ts + T) s'"
begin

lemma ok_step: "pool_step stp entry p q \<Longrightarrow> ok (pl_tasks p) (pl_shared p) \<Longrightarrow> ok (pl_tasks q) (pl_shared q)"
proof (induction rule: pool_step.induct)
  case (pool_run p t rest s' ts)
  then show ?case using ok_run [of t rest "pl_shared p" "pl_now p" s' ts] by simp
qed (simp_all add: ok_call)

lemma ok_reach:
  assumes "pool_reach stp entry p q" and "ok (pl_tasks p) (pl_shared p)"
  shows "ok (pl_tasks q) (pl_shared q)"
  using assms by (induction rule: rtranclp_induct) (auto dest: ok_step)

end

section \<open>Progress\<close>

text \<open>A move: some task takes a step, at the present time or at any later one. No entry point is called.\<close>

definition pool_moves :: "('t, 's) pool_op \<Rightarrow> ('t, 's) pool \<Rightarrow> ('t, 's) pool \<Rightarrow> bool" where
  "pool_moves stp p q \<longleftrightarrow> (\<exists>n t rest s' ts. pl_now p \<le> n \<and> pl_tasks p = add_mset t rest \<and>
     stp n t (pl_shared p) = Some (s', ts) \<and> q = \<lparr>pl_tasks = mset ts + rest, pl_shared = s', pl_now = n\<rparr>)"

text \<open>A predicate is inevitable when every run of moves comes to it: it holds, or the pool can move and is bound for it
  after each of its moves, whichever task is scheduled and however late. A pool that can move forever without meeting
  the predicate, or that is blocked short of it, is not bound for it.\<close>

inductive pool_inevitable :: "('t, 's) pool_op \<Rightarrow> (('t, 's) pool \<Rightarrow> bool) \<Rightarrow> ('t, 's) pool \<Rightarrow> bool"
  for stp Q where
  inevitable_now: "Q p \<Longrightarrow> pool_inevitable stp Q p"
| inevitable_next: "pool_moves stp p p' \<Longrightarrow> (\<And>q. pool_moves stp p q \<Longrightarrow> pool_inevitable stp Q q) \<Longrightarrow> pool_inevitable stp Q p"

lemma pool_inevitable_mono:
  assumes "pool_inevitable stp Q p" and "\<And>q. Q q \<Longrightarrow> R q"
  shows "pool_inevitable stp R p"
  using assms(1) by induction (auto intro: pool_inevitable.intros assms(2))

text \<open>No infinite run of moves avoids an inevitable predicate.\<close>

lemma pool_inevitable_no_escape:
  assumes "pool_inevitable stp Q p" and "f 0 = p" and "\<And>i. pool_moves stp (f i) (f (Suc i))"
  shows "\<exists>i. Q (f i)"
  using assms
proof (induction arbitrary: f rule: pool_inevitable.induct)
  case (inevitable_now p)
  then show ?case by metis
next
  case (inevitable_next p p')
  have "pool_moves stp p (f 1)" using inevitable_next.prems(2) [of 0] inevitable_next.prems(1) by simp
  then have "\<exists>i. Q (f (Suc i))"
    by (rule inevitable_next.IH) (simp_all add: inevitable_next.prems(2))
  then show ?case by blast
qed

text \<open>The contract under which a pool runs dry: the invariant is kept, a task that waits waits for the clock only, and
  two ranks fall lexicographically, the first with what the tasks have left to begin, the second with the time a loop
  still has to wait for.\<close>

definition pool_rank :: "('t \<Rightarrow> nat) \<Rightarrow> ('s \<Rightarrow> nat \<Rightarrow> 't \<Rightarrow> nat) \<Rightarrow> ('t, 's) pool \<Rightarrow> nat \<times> nat" where
  "pool_rank weight wait p =
     (sum_mset (image_mset weight (pl_tasks p)), sum_mset (image_mset (wait (pl_shared p) (pl_now p)) (pl_tasks p)))"

locale pool_progress = pool_invariant +
  fixes weight :: "'a \<Rightarrow> nat" and wait :: "'b \<Rightarrow> nat \<Rightarrow> 'a \<Rightarrow> nat"
  assumes wakes: "\<exists>n\<ge>m. stp n t s \<noteq> None"
    and wait_falls: "m \<le> n \<Longrightarrow> wait s n t \<le> wait s m t"
    and rank_falls: "ok (add_mset t T) s \<Longrightarrow> stp n t s = Some (s', ts) \<Longrightarrow>
      sum_list (map weight ts) < weight t \<or>
      sum_list (map weight ts) = weight t \<and> s' = s \<and> sum_list (map (wait s n) ts) < wait s n t"
begin

lemma moves_ok: "pool_moves stp p q \<Longrightarrow> ok (pl_tasks p) (pl_shared p) \<Longrightarrow> ok (pl_tasks q) (pl_shared q)"
  by (auto simp: pool_moves_def intro: ok_run)

lemma wait_sum_falls: "m \<le> n \<Longrightarrow> sum_mset (image_mset (wait s n) T) \<le> sum_mset (image_mset (wait s m) T)"
  by (induction T) (auto intro: add_mono wait_falls)

lemma moves_rank:
  assumes "pool_moves stp p q" and "ok (pl_tasks p) (pl_shared p)"
  shows "(pool_rank weight wait q, pool_rank weight wait p) \<in> less_than <*lex*> less_than"
proof -
  obtain n t rest s' ts where m: "pl_now p \<le> n" "pl_tasks p = add_mset t rest" "stp n t (pl_shared p) = Some (s', ts)"
    "q = \<lparr>pl_tasks = mset ts + rest, pl_shared = s', pl_now = n\<rparr>"
    using assms(1) by (auto simp: pool_moves_def)
  note falls = rank_falls [of t rest "pl_shared p" n s' ts]
  have sums: "sum_mset (image_mset f (mset ts)) = sum_list (map f ts)" for f :: "'a \<Rightarrow> nat"
    by (metis mset_map sum_mset_sum_list)
  have "wait (pl_shared p) n t \<le> wait (pl_shared p) (pl_now p) t" using m(1) by (rule wait_falls)
  then show ?thesis
    using falls assms(2) m wait_sum_falls [OF m(1), of "pl_shared p" rest]
    by (auto simp: pool_rank_def sums)
qed

lemma inevitable_empty:
  assumes "ok (pl_tasks p) (pl_shared p)"
  shows "pool_inevitable stp (\<lambda>q. pl_tasks q = {#} \<and> ok (pl_tasks q) (pl_shared q)) p"
  using assms
proof (induction "pool_rank weight wait p" arbitrary: p rule: wf_induct_rule [OF wf_lex_prod [OF wf_less_than wf_less_than]])
  case (1 p)
  show ?case
  proof (cases "pl_tasks p")
    case empty
    then show ?thesis using 1(2) by (intro inevitable_now) simp
  next
    case (add t rest)
    obtain n s' ts where "pl_now p \<le> n" "stp n t (pl_shared p) = Some (s', ts)"
      using wakes [of "pl_now p" t "pl_shared p"] by auto
    then have "pool_moves stp p \<lparr>pl_tasks = mset ts + rest, pl_shared = s', pl_now = n\<rparr>"
      using add by (auto simp: pool_moves_def)
    then show ?thesis
      by (rule inevitable_next) (auto intro!: 1(1) moves_rank 1(2) elim: moves_ok)
  qed
qed

end

end
