(* ===== verification/Turn_Lock.thy ===== *)
theory Turn_Lock
  imports Task_Pool Realtime_Session
begin

text \<open>
  The turn lock and the bot-speaking notifier of the cascaded pipeline, \<^verbatim>\<open>flowcat-core/src/pipeline/cascaded.rs\<close>.

  Both are a flag that one task raises and a spawned watchdog lowers when the bot's audio has played out, shared between
  the tasks of several processors through atomics and mutexes. Here each atomic operation (a swap, a load, a channel
  send, a locked section, a reading of the clock) is one step of a pool of tasks, so every interleaving is a run. A
  sleep is a step that waits for the clock. Times are nanoseconds. Both are shown to come to rest in every run.
\<close>

section \<open>The half-duplex turn lock\<close>

record turn_mute =
  tm_muted :: bool
  tm_generation :: u64
  tm_bot_until :: "nat option"
  tm_end_tx :: "sess_frame list"
  no_audio_timeout :: nat

definition turn_mute_new :: "nat \<Rightarrow> turn_mute" where
  "turn_mute_new timeout =
     \<lparr>tm_muted = False, tm_generation = 0, tm_bot_until = None, tm_end_tx = [], no_audio_timeout = timeout\<rparr>"

text \<open>Program points: of \<open>begin\<close>, of the watchdog it spawns, and the two operations of the sink.\<close>

datatype turn_task =
    BeginTurn
  | BeginSend
  | BeginClear
  | BeginSpawn
  | WatchStart u64
  | WatchLoop u64 nat
  | WatchUntil u64 nat
  | WatchClock u64 nat "nat option"
  | WatchSleep u64 nat nat
  | WatchLeave u64
  | WatchSwap
  | WatchSend
  | NoteBotAudio nat u32
  | TakeBotUntil

definition poll_nanos :: nat where
  "poll_nanos = 200000000"

fun turn_task_step :: "(turn_task, turn_mute) pool_op" where
  "turn_task_step now BeginTurn s =
     Some (s\<lparr>tm_muted := True\<rparr>, if tm_muted s then [] else [BeginSend])"
| "turn_task_step now BeginSend s = Some (s\<lparr>tm_end_tx := tm_end_tx s @ [SttMute True]\<rparr>, [BeginClear])"
| "turn_task_step now BeginClear s = Some (s\<lparr>tm_bot_until := None\<rparr>, [BeginSpawn])"
| "turn_task_step now BeginSpawn s =
     (let my_gen = tm_generation s + 1 in Some (s\<lparr>tm_generation := my_gen\<rparr>, [WatchStart my_gen]))"
| "turn_task_step now (WatchStart g) s = Some (s, [WatchLoop g (now + no_audio_timeout s)])"
| "turn_task_step now (WatchLoop g d) s = Some (s, if tm_generation s \<noteq> g then [] else [WatchUntil g d])"
| "turn_task_step now (WatchUntil g d) s = Some (s, [WatchClock g d (tm_bot_until s)])"
| "turn_task_step now (WatchClock g d til) s =
     Some (s, [case til of
        Some t \<Rightarrow> if now < t then WatchSleep g d t else WatchLeave g
      | None \<Rightarrow> if d \<le> now then WatchLeave g else WatchSleep g d (now + poll_nanos)])"
| "turn_task_step now (WatchSleep g d wake) s = (if now < wake then None else Some (s, [WatchLoop g d]))"
| "turn_task_step now (WatchLeave g) s = Some (s, if tm_generation s = g then [WatchSwap] else [])"
| "turn_task_step now WatchSwap s = Some (s\<lparr>tm_muted := False\<rparr>, if tm_muted s then [WatchSend] else [])"
| "turn_task_step now WatchSend s = Some (s\<lparr>tm_end_tx := tm_end_tx s @ [SttMute False]\<rparr>, [])"
| "turn_task_step now (NoteBotAudio samples rate) s =
     Some (s\<lparr>tm_bot_until := Some (advance_playout (tm_bot_until s) now samples rate)\<rparr>, [])"
| "turn_task_step now TakeBotUntil s = Some (s\<lparr>tm_bot_until := None\<rparr>, [])"

definition turn_entry :: "turn_task \<Rightarrow> bool" where
  "turn_entry t \<longleftrightarrow> t = BeginTurn \<or> t = TakeBotUntil \<or> (\<exists>n r. t = NoteBotAudio n r)"

text \<open>The tasks that hold the lock: they are between raising the flag and lowering it. Those of the watchdog carry its
  generation.\<close>

fun watch_gen :: "turn_task \<Rightarrow> u64 option" where
  "watch_gen (WatchStart g) = Some g"
| "watch_gen (WatchLoop g d) = Some g"
| "watch_gen (WatchUntil g d) = Some g"
| "watch_gen (WatchClock g d til) = Some g"
| "watch_gen (WatchSleep g d wake) = Some g"
| "watch_gen (WatchLeave g) = Some g"
| "watch_gen _ = None"

definition holds_turn :: "turn_task \<Rightarrow> bool" where
  "holds_turn t \<longleftrightarrow> watch_gen t \<noteq> None \<or> t \<in> {BeginSend, BeginClear, BeginSpawn, WatchSwap}"

definition turn_ok :: "turn_task multiset \<Rightarrow> turn_mute \<Rightarrow> bool" where
  "turn_ok T s \<longleftrightarrow>
     size (filter_mset holds_turn T) = (if tm_muted s then 1 else 0) \<and>
     (\<forall>t\<in>#T. \<forall>g. watch_gen t = Some g \<longrightarrow> g = tm_generation s)"

lemma holds_turn_simps [simp]:
  "holds_turn BeginSend" "holds_turn BeginClear" "holds_turn BeginSpawn" "holds_turn WatchSwap"
  "holds_turn (WatchStart g)" "holds_turn (WatchLoop g d)" "holds_turn (WatchUntil g d)" "holds_turn (WatchClock g d til)"
  "holds_turn (WatchSleep g d w)" "holds_turn (WatchLeave g)"
  "\<not> holds_turn BeginTurn" "\<not> holds_turn WatchSend" "\<not> holds_turn (NoteBotAudio k r)" "\<not> holds_turn TakeBotUntil"
  by (simp_all add: holds_turn_def)

lemma watch_gen_holds: "watch_gen t = Some g \<Longrightarrow> holds_turn t"
  by (simp add: holds_turn_def)

text \<open>Nobody holds the lock: no watchdog is alive.\<close>

lemma turn_ok_free: "filter_mset holds_turn T = {#} \<Longrightarrow> t \<in># T \<Longrightarrow> watch_gen t = None"
  using watch_gen_holds by (cases "watch_gen t") (auto dest: multi_member_split)

lemma turn_ok_run:
  assumes ok: "turn_ok (add_mset t T) s" and st: "turn_task_step n t s = Some (s', ts)"
  shows "turn_ok (mset ts + T) s'"
proof -
  have alone: "filter_mset holds_turn T = {#}" if "holds_turn t" using ok that by (auto simp: turn_ok_def split: if_splits)
  show ?thesis
    using ok st turn_ok_free [OF alone]
    by (cases t) (auto simp: turn_ok_def Let_def split: if_splits option.splits dest: turn_ok_free)
qed

lemma turn_ok_holder: "turn_ok (add_mset t T) s \<Longrightarrow> holds_turn t \<Longrightarrow> tm_muted s"
  by (auto simp: turn_ok_def split: if_splits)

lemma turn_ok_watch: "turn_ok (add_mset t T) s \<Longrightarrow> watch_gen t = Some g \<Longrightarrow> tm_generation s = g"
  by (simp add: turn_ok_def)

text \<open>What the recognizer has been told: every mute is matched by an unmute, sent or about to be, except the one of the
  turn in flight; and when a mute was the last word, someone is still there to take it back.\<close>

definition unmute_due :: "turn_task \<Rightarrow> bool" where
  "unmute_due t \<longleftrightarrow> t = WatchSend \<or> holds_turn t \<and> t \<noteq> BeginSend"

definition announced_ok :: "turn_task multiset \<Rightarrow> turn_mute \<Rightarrow> bool" where
  "announced_ok T s \<longleftrightarrow>
     count_list (tm_end_tx s) (SttMute True) + count T BeginSend =
       count_list (tm_end_tx s) (SttMute False) + count T WatchSend + of_bool (tm_muted s) \<and>
     (tm_end_tx s = [] \<or> last (tm_end_tx s) = SttMute False \<or> (\<exists>t\<in>#T. unmute_due t))"

lemma unmute_due_simps [simp]:
  "unmute_due WatchSend" "unmute_due BeginClear" "unmute_due BeginSpawn" "unmute_due WatchSwap"
  "unmute_due (WatchStart g)" "unmute_due (WatchLoop g d)" "unmute_due (WatchUntil g d)" "unmute_due (WatchClock g d til)"
  "unmute_due (WatchSleep g d w)" "unmute_due (WatchLeave g)"
  "\<not> unmute_due BeginSend" "\<not> unmute_due BeginTurn" "\<not> unmute_due (NoteBotAudio k r)" "\<not> unmute_due TakeBotUntil"
  by (simp_all add: unmute_due_def)

lemma announced_run:
  assumes ok: "turn_ok (add_mset t T) s" and an: "announced_ok (add_mset t T) s" and st: "turn_task_step n t s = Some (s', ts)"
  shows "announced_ok (mset ts + T) s'"
  using an st turn_ok_holder [OF ok] turn_ok_watch [OF ok]
  by (cases t) (auto simp: announced_ok_def Let_def split: if_splits option.splits)

subsection \<open>Release\<close>

text \<open>How much a task has left to begin, and how long a watchdog still has to wait: until the deadline, or until the
  bot's audio has played out when there is some. A sleeping watchdog looks at both again when it wakes.\<close>

fun turn_weight :: "turn_task \<Rightarrow> nat" where
  "turn_weight BeginTurn = 8"
| "turn_weight BeginSend = 7"
| "turn_weight BeginClear = 6"
| "turn_weight BeginSpawn = 5"
| "turn_weight (WatchStart g) = 4"
| "turn_weight WatchSwap = 2"
| "turn_weight WatchSend = 1"
| "turn_weight (NoteBotAudio k r) = 1"
| "turn_weight TakeBotUntil = 1"
| "turn_weight t = 3"

definition until_nanos :: "nat option \<Rightarrow> nat" where
  "until_nanos til = (case til of None \<Rightarrow> 0 | Some t \<Rightarrow> t)"

lemma until_nanos_simps [simp]: "until_nanos None = 0" "until_nanos (Some t) = t"
  by (simp_all add: until_nanos_def)

fun turn_wait :: "turn_mute \<Rightarrow> nat \<Rightarrow> turn_task \<Rightarrow> nat" where
  "turn_wait s n (WatchLoop g d) = 4 * (max d (until_nanos (tm_bot_until s)) - n) + 4"
| "turn_wait s n (WatchUntil g d) = 4 * (max d (until_nanos (tm_bot_until s)) - n) + 3"
| "turn_wait s n (WatchClock g d til) = 4 * (max (until_nanos til) (max d (until_nanos (tm_bot_until s))) - n) + 2"
| "turn_wait s n (WatchSleep g d w) = 4 * (max d (until_nanos (tm_bot_until s)) - max n w) + 5"
| "turn_wait s n (WatchLeave g) = 1"
| "turn_wait s n t = 0"

lemma turn_wait_falls: "m \<le> n \<Longrightarrow> turn_wait s n t \<le> turn_wait s m t"
  by (cases t) simp_all

lemma turn_rank_falls:
  assumes "turn_task_step n t s = Some (s', ts)"
  shows "sum_list (map turn_weight ts) < turn_weight t \<or>
    sum_list (map turn_weight ts) = turn_weight t \<and> s' = s \<and> sum_list (map (turn_wait s n) ts) < turn_wait s n t"
  using assms by (cases t) (auto simp: Let_def poll_nanos_def split: if_splits option.splits)

lemma turn_wakes: "\<exists>n\<ge>m. turn_task_step n t s \<noteq> None"
proof (cases t)
  case (WatchSleep g d w)
  then show ?thesis by (intro exI [of _ "max m w"]) simp
qed (auto simp: Let_def)

interpretation turn_lock: pool_progress turn_task_step turn_entry "\<lambda>T s. turn_ok T s \<and> announced_ok T s" turn_weight turn_wait
proof
  show "turn_ok (add_mset t T) s \<and> announced_ok (add_mset t T) s" if "turn_ok T s \<and> announced_ok T s" and "turn_entry t" for T s t
    using that by (auto simp: turn_ok_def announced_ok_def turn_entry_def)
  show "turn_ok (mset ts + T) s' \<and> announced_ok (mset ts + T) s'"
    if "turn_ok (add_mset t T) s \<and> announced_ok (add_mset t T) s" and "turn_task_step n t s = Some (s', ts)" for t T s n s' ts
    using that by (blast intro: turn_ok_run announced_run)
qed (use turn_wakes turn_wait_falls turn_rank_falls in blast)+

lemma turn_lock_reach_ok:
  assumes "pool_reach turn_task_step turn_entry (pool_new (turn_mute_new timeout) n0) q"
  shows "turn_ok (pl_tasks q) (pl_shared q)" "announced_ok (pl_tasks q) (pl_shared q)"
  using turn_lock.ok_reach [OF assms] by (simp_all add: turn_ok_def announced_ok_def turn_mute_new_def)

text \<open>The turn is over: no task is left, the flag is down, every mute was followed by an unmute, and an unmute was the last
  the recognizer was told.\<close>

definition turn_over :: "(turn_task, turn_mute) pool \<Rightarrow> bool" where
  "turn_over p \<longleftrightarrow> pl_tasks p = {#} \<and> \<not> tm_muted (pl_shared p) \<and>
     (tm_end_tx (pl_shared p) = [] \<or> last (tm_end_tx (pl_shared p)) = SttMute False) \<and>
     count_list (tm_end_tx (pl_shared p)) (SttMute True) = count_list (tm_end_tx (pl_shared p)) (SttMute False)"

lemma turn_ok_over: "turn_ok {#} s \<and> announced_ok {#} s \<Longrightarrow> turn_over \<lparr>pl_tasks = {#}, pl_shared = s, pl_now = n\<rparr>"
  by (auto simp: turn_over_def turn_ok_def announced_ok_def split: if_splits)

text \<open>C28. The turn lock cannot get stuck. In every interleaving of calls of \<open>begin\<close>, watchdogs and playout updates the
  lock is held by exactly one task while the recognizer is muted and by none otherwise, every watchdog alive belongs to
  the current turn (so the check for a newer turn never fires). And from there, once no further call comes, every run of
  the tasks, in whatever order and however late each is scheduled, comes to an end: no task is left, the flag is down,
  as many unmutes as mutes have been announced and the last word to the recognizer was \<open>SttMute(false)\<close>.\<close>

theorem turn_lock_released:
  assumes "pool_reach turn_task_step turn_entry (pool_new (turn_mute_new timeout) n0) q"
  shows "size (filter_mset holds_turn (pl_tasks q)) = (if tm_muted (pl_shared q) then 1 else 0) \<and>
    (\<forall>t\<in>#pl_tasks q. watch_gen t = None \<or> watch_gen t = Some (tm_generation (pl_shared q))) \<and>
    pool_inevitable turn_task_step turn_over q"
proof (intro conjI)
  note ok = turn_lock_reach_ok [OF assms]
  show "size (filter_mset holds_turn (pl_tasks q)) = (if tm_muted (pl_shared q) then 1 else 0)"
    using ok(1) by (simp add: turn_ok_def)
  show "\<forall>t\<in>#pl_tasks q. watch_gen t = None \<or> watch_gen t = Some (tm_generation (pl_shared q))"
  proof
    fix t assume "t \<in># pl_tasks q"
    then show "watch_gen t = None \<or> watch_gen t = Some (tm_generation (pl_shared q))"
      using ok(1) by (cases "watch_gen t") (auto simp: turn_ok_def)
  qed
  have "pool_inevitable turn_task_step
      (\<lambda>r. pl_tasks r = {#} \<and> turn_ok (pl_tasks r) (pl_shared r) \<and> announced_ok (pl_tasks r) (pl_shared r)) q"
    using turn_lock.inevitable_empty [of q] ok by simp
  then show "pool_inevitable turn_task_step turn_over q"
    by (rule pool_inevitable_mono) (metis pool.surjective old.unit.exhaust turn_ok_over)
qed

definition half_duplex_run :: "turn_task move list" where
  "half_duplex_run = [CallTask BeginTurn, RunTask 0, RunTask 0, RunTask 0, RunTask 0, RunTask 0]"

theorem turn_lock_released_witness:
  "\<exists>q. pool_reach turn_task_step turn_entry (pool_new (turn_mute_new 12000000000) 0) q \<and> tm_muted (pl_shared q) \<and>
     tm_end_tx (pl_shared q) = [SttMute True] \<and> pool_inevitable turn_task_step turn_over q"
proof -
  have "pool_exec turn_task_step half_duplex_run [] (turn_mute_new 12000000000) 0 =
      Some ([WatchLoop 1 12000000000], (turn_mute_new 12000000000)\<lparr>tm_muted := True, tm_generation := 1, tm_end_tx := [SttMute True]\<rparr>, 0)"
    by (simp add: half_duplex_run_def turn_mute_new_def)
  then have r: "pool_reach turn_task_step turn_entry (pool_new (turn_mute_new 12000000000) 0)
      (pool_at [WatchLoop 1 12000000000] ((turn_mute_new 12000000000)\<lparr>tm_muted := True, tm_generation := 1, tm_end_tx := [SttMute True]\<rparr>) 0)"
    unfolding pool_new_at by (rule pool_exec_reach) (simp add: half_duplex_run_def turn_entry_def)
  show ?thesis by (rule exI, rule conjI, rule r) (use turn_lock_released [OF r] in simp)
qed

subsection \<open>Where the lock leaks\<close>

text \<open>A watchdog lowers the flag and announces it in two steps. A turn that begins between them announces first: the
  recognizer hears \<open>SttMute(false)\<close> last and stays open for the whole turn that holds the lock.\<close>

lemma turn_lock_announcements_race:
  "\<exists>q. pool_reach turn_task_step turn_entry (pool_new (turn_mute_new timeout) 0) q \<and> tm_muted (pl_shared q) \<and>
     pl_tasks q = {#WatchStart 2#} \<and> tm_end_tx (pl_shared q) = [SttMute True, SttMute True, SttMute False]"
proof -
  define ms where "ms = [CallTask BeginTurn, RunTask 0, RunTask 0, RunTask 0, RunTask 0, RunTask 0, ClockAt timeout,
    RunTask 0, RunTask 0, RunTask 0, RunTask 0, RunTask 0, CallTask BeginTurn, RunTask 0, RunTask 0, RunTask 1, RunTask 0, RunTask 0]"
  have "pool_exec turn_task_step ms [] (turn_mute_new timeout) 0 =
      Some ([WatchStart 2], \<lparr>tm_muted = True, tm_generation = 2, tm_bot_until = None,
        tm_end_tx = [SttMute True, SttMute True, SttMute False], no_audio_timeout = timeout\<rparr>, timeout)"
    by (simp add: ms_def turn_mute_new_def)
  then have r: "pool_reach turn_task_step turn_entry (pool_new (turn_mute_new timeout) 0)
      (pool_at [WatchStart 2] \<lparr>tm_muted = True, tm_generation = 2, tm_bot_until = None,
        tm_end_tx = [SttMute True, SttMute True, SttMute False], no_audio_timeout = timeout\<rparr> timeout)"
    unfolding pool_new_at by (rule pool_exec_reach) (simp add: ms_def turn_entry_def)
  show ?thesis by (rule exI, rule conjI, rule r) simp
qed

text \<open>Audio extends the estimate but does not raise the flag: what the bot says after a pause in the same turn, for
  example after a tool call, plays with the recognizer open.\<close>

lemma turn_lock_misses_later_audio:
  assumes "n1 = advance_playout None 0 samples rate"
  shows "\<exists>q. pool_reach turn_task_step turn_entry (pool_new (turn_mute_new timeout) 0) q \<and> \<not> tm_muted (pl_shared q) \<and>
     pl_tasks q = {#} \<and> tm_end_tx (pl_shared q) = [SttMute True, SttMute False] \<and>
     tm_bot_until (pl_shared q) = Some (advance_playout (Some n1) n1 samples rate)"
proof -
  define ms where "ms = [CallTask BeginTurn, RunTask 0, RunTask 0, RunTask 0, RunTask 0, RunTask 0,
    CallTask (NoteBotAudio samples rate), RunTask 0, ClockAt n1, RunTask 0, RunTask 0, RunTask 0, RunTask 0, RunTask 0, RunTask 0,
    CallTask (NoteBotAudio samples rate), RunTask 0]"
  have "pool_exec turn_task_step ms [] (turn_mute_new timeout) 0 =
      Some ([], \<lparr>tm_muted = False, tm_generation = 1, tm_bot_until = Some (advance_playout (Some n1) n1 samples rate),
        tm_end_tx = [SttMute True, SttMute False], no_audio_timeout = timeout\<rparr>, n1)"
    by (simp add: ms_def turn_mute_new_def assms [symmetric])
  then have r: "pool_reach turn_task_step turn_entry (pool_new (turn_mute_new timeout) 0)
      (pool_at [] \<lparr>tm_muted = False, tm_generation = 1, tm_bot_until = Some (advance_playout (Some n1) n1 samples rate),
        tm_end_tx = [SttMute True, SttMute False], no_audio_timeout = timeout\<rparr> n1)"
    unfolding pool_new_at by (rule pool_exec_reach) (auto simp: ms_def turn_entry_def)
  show ?thesis by (rule exI, rule conjI, rule r) simp
qed

section \<open>The bot-speaking notifier\<close>

record bot_speaking_inner =
  bs_speaking :: bool
  bs_generation :: u64
  bs_bot_until :: "nat option"
  bs_head_tx :: "sess_frame list"
  bs_carrier_rate :: u32

definition bot_speaking_new :: "u32 \<Rightarrow> bot_speaking_inner" where
  "bot_speaking_new rate =
     \<lparr>bs_speaking = False, bs_generation = 0, bs_bot_until = None, bs_head_tx = [], bs_carrier_rate = rate\<rparr>"

text \<open>Program points of \<open>note_audio\<close>, of its playout watchdog and of \<open>on_interruption\<close>, which both the sink and the
  interrupt reactor call.\<close>

datatype notify_task =
    NoteAudio nat
  | NoteSwap
  | NoteSend
  | NoteSpawn
  | PlayLoop u64
  | PlayUntil u64
  | PlayClock u64 "nat option"
  | PlaySleep u64 nat
  | PlayLeave u64
  | PlaySwap
  | StopSend
  | IntrBump
  | IntrClear
  | IntrSwap

fun notify_task_step :: "(notify_task, bot_speaking_inner) pool_op" where
  "notify_task_step now (NoteAudio samples) s =
     Some (s\<lparr>bs_bot_until := Some (advance_playout (bs_bot_until s) now samples (bs_carrier_rate s))\<rparr>, [NoteSwap])"
| "notify_task_step now NoteSwap s = Some (s\<lparr>bs_speaking := True\<rparr>, if bs_speaking s then [] else [NoteSend])"
| "notify_task_step now NoteSend s = Some (s\<lparr>bs_head_tx := bs_head_tx s @ [BotStartedSpeaking]\<rparr>, [NoteSpawn])"
| "notify_task_step now NoteSpawn s =
     (let my_gen = bs_generation s + 1 in Some (s\<lparr>bs_generation := my_gen\<rparr>, [PlayLoop my_gen]))"
| "notify_task_step now (PlayLoop g) s = Some (s, if bs_generation s \<noteq> g then [] else [PlayUntil g])"
| "notify_task_step now (PlayUntil g) s = Some (s, [PlayClock g (bs_bot_until s)])"
| "notify_task_step now (PlayClock g til) s =
     Some (s, [case til of
        Some t \<Rightarrow> if now < t then PlaySleep g (now + min (t - now) poll_nanos) else PlayLeave g
      | None \<Rightarrow> PlayLeave g])"
| "notify_task_step now (PlaySleep g wake) s = (if now < wake then None else Some (s, [PlayLoop g]))"
| "notify_task_step now (PlayLeave g) s = Some (s, if bs_generation s = g then [PlaySwap] else [])"
| "notify_task_step now PlaySwap s = Some (s\<lparr>bs_speaking := False\<rparr>, if bs_speaking s then [StopSend] else [])"
| "notify_task_step now StopSend s = Some (s\<lparr>bs_head_tx := bs_head_tx s @ [BotStoppedSpeaking]\<rparr>, [])"
| "notify_task_step now IntrBump s = Some (s\<lparr>bs_generation := bs_generation s + 1\<rparr>, [IntrClear])"
| "notify_task_step now IntrClear s = Some (s\<lparr>bs_bot_until := None\<rparr>, [IntrSwap])"
| "notify_task_step now IntrSwap s = Some (s\<lparr>bs_speaking := False\<rparr>, if bs_speaking s then [StopSend] else [])"

definition notify_entry :: "notify_task \<Rightarrow> bool" where
  "notify_entry t \<longleftrightarrow> t = IntrBump \<or> (\<exists>n. t = NoteAudio n)"

text \<open>The edges announced and about to be announced always add up to the flag, and a raised flag has a task that will
  lower it: the watchdog of the current generation, or an operation still on its way to raise or lower it.\<close>

fun play_gen :: "notify_task \<Rightarrow> u64 option" where
  "play_gen (PlayLoop g) = Some g"
| "play_gen (PlayUntil g) = Some g"
| "play_gen (PlayClock g til) = Some g"
| "play_gen (PlaySleep g wake) = Some g"
| "play_gen (PlayLeave g) = Some g"
| "play_gen _ = None"

definition lowers :: "u64 \<Rightarrow> notify_task \<Rightarrow> bool" where
  "lowers g t \<longleftrightarrow> play_gen t = Some g \<or> t \<in> {NoteSend, NoteSpawn, PlaySwap, IntrClear, IntrSwap}"

definition edges_ok :: "notify_task multiset \<Rightarrow> bot_speaking_inner \<Rightarrow> bool" where
  "edges_ok T s \<longleftrightarrow>
     count_list (bs_head_tx s) BotStartedSpeaking + count T NoteSend =
       count_list (bs_head_tx s) BotStoppedSpeaking + count T StopSend + of_bool (bs_speaking s)"

definition watched :: "notify_task multiset \<Rightarrow> bot_speaking_inner \<Rightarrow> bool" where
  "watched T s \<longleftrightarrow> (bs_speaking s \<longrightarrow> (\<exists>t\<in>#T. lowers (bs_generation s) t))"

lemma edges_run:
  assumes "edges_ok (add_mset t T) s" and "notify_task_step n t s = Some (s', ts)"
  shows "edges_ok (mset ts + T) s'"
  using assms
  by (cases t) (simp_all add: edges_ok_def Let_def split: if_splits option.splits, (auto split: if_splits)?)

lemma lowers_simps [simp]:
  "lowers g NoteSend" "lowers g NoteSpawn" "lowers g PlaySwap" "lowers g IntrClear" "lowers g IntrSwap"
  "lowers g (PlayLoop h) \<longleftrightarrow> h = g" "lowers g (PlayUntil h) \<longleftrightarrow> h = g" "lowers g (PlayClock h til) \<longleftrightarrow> h = g"
  "lowers g (PlaySleep h w) \<longleftrightarrow> h = g" "lowers g (PlayLeave h) \<longleftrightarrow> h = g"
  "\<not> lowers g (NoteAudio k)" "\<not> lowers g NoteSwap" "\<not> lowers g StopSend" "\<not> lowers g IntrBump"
  by (simp_all add: lowers_def)

lemma watched_run:
  assumes "watched (add_mset t T) s" and "notify_task_step n t s = Some (s', ts)"
  shows "watched (mset ts + T) s'"
  using assms by (cases t) (auto simp: watched_def Let_def split: if_splits option.splits)

fun notify_weight :: "notify_task \<Rightarrow> nat" where
  "notify_weight (NoteAudio k) = 8"
| "notify_weight NoteSwap = 7"
| "notify_weight NoteSend = 6"
| "notify_weight NoteSpawn = 5"
| "notify_weight IntrBump = 4"
| "notify_weight IntrClear = 3"
| "notify_weight IntrSwap = 2"
| "notify_weight PlaySwap = 2"
| "notify_weight StopSend = 1"
| "notify_weight t = 3"

fun notify_wait :: "bot_speaking_inner \<Rightarrow> nat \<Rightarrow> notify_task \<Rightarrow> nat" where
  "notify_wait s n (PlayLoop g) = 4 * (until_nanos (bs_bot_until s) - n) + 4"
| "notify_wait s n (PlayUntil g) = 4 * (until_nanos (bs_bot_until s) - n) + 3"
| "notify_wait s n (PlayClock g til) = 4 * (max (until_nanos til) (until_nanos (bs_bot_until s)) - n) + 2"
| "notify_wait s n (PlaySleep g w) = 4 * (until_nanos (bs_bot_until s) - max n w) + 5"
| "notify_wait s n (PlayLeave g) = 1"
| "notify_wait s n t = 0"

lemma notify_wait_falls: "m \<le> n \<Longrightarrow> notify_wait s n t \<le> notify_wait s m t"
  by (cases t) simp_all

lemma notify_rank_falls:
  assumes "notify_task_step n t s = Some (s', ts)"
  shows "sum_list (map notify_weight ts) < notify_weight t \<or>
    sum_list (map notify_weight ts) = notify_weight t \<and> s' = s \<and> sum_list (map (notify_wait s n) ts) < notify_wait s n t"
  using assms by (cases t) (auto simp: Let_def poll_nanos_def split: if_splits option.splits)

lemma notify_wakes: "\<exists>n\<ge>m. notify_task_step n t s \<noteq> None"
proof (cases t)
  case (PlaySleep g w)
  then show ?thesis by (intro exI [of _ "max m w"]) simp
qed (auto simp: Let_def)

interpretation speaking: pool_progress notify_task_step notify_entry "\<lambda>T s. edges_ok T s \<and> watched T s" notify_weight notify_wait
proof
  show "edges_ok (add_mset t T) s \<and> watched (add_mset t T) s" if "edges_ok T s \<and> watched T s" and "notify_entry t" for T s t
    using that by (auto simp: edges_ok_def watched_def notify_entry_def)
  show "edges_ok (mset ts + T) s' \<and> watched (mset ts + T) s'"
    if "edges_ok (add_mset t T) s \<and> watched (add_mset t T) s" and "notify_task_step n t s = Some (s', ts)" for t T s n s' ts
    using that by (blast intro: edges_run watched_run)
qed (use notify_wakes notify_wait_falls notify_rank_falls in blast)+

lemma speaking_reach_ok:
  assumes "pool_reach notify_task_step notify_entry (pool_new (bot_speaking_new rate) n0) q"
  shows "edges_ok (pl_tasks q) (pl_shared q)" "watched (pl_tasks q) (pl_shared q)"
  using speaking.ok_reach [OF assms] by (simp_all add: edges_ok_def watched_def bot_speaking_new_def)

text \<open>The burst is over: no task is left, the bot counts as silent, and as many stops as starts have been announced.\<close>

definition burst_over :: "(notify_task, bot_speaking_inner) pool \<Rightarrow> bool" where
  "burst_over p \<longleftrightarrow> pl_tasks p = {#} \<and> \<not> bs_speaking (pl_shared p) \<and>
     count_list (bs_head_tx (pl_shared p)) BotStartedSpeaking = count_list (bs_head_tx (pl_shared p)) BotStoppedSpeaking"

text \<open>C29. The notifier never leaves the voice activity detector waiting for an edge. In every interleaving of bot audio,
  playout watchdogs and interruptions from the sink and from the reactor, the start edges announced and pending outnumber
  the stop edges announced and pending by one exactly while the bot counts as speaking. And from there, once no further
  call comes, every run of the tasks, in whatever order and however late each is scheduled, ends with no task left, the
  bot silent and as many stops announced as starts. The counts say nothing of the order of the edges.\<close>

theorem speaking_edges_balance:
  assumes "pool_reach notify_task_step notify_entry (pool_new (bot_speaking_new rate) n0) q"
  shows "count_list (bs_head_tx (pl_shared q)) BotStartedSpeaking + count (pl_tasks q) NoteSend =
      count_list (bs_head_tx (pl_shared q)) BotStoppedSpeaking + count (pl_tasks q) StopSend + of_bool (bs_speaking (pl_shared q)) \<and>
    pool_inevitable notify_task_step burst_over q"
proof
  note ok = speaking_reach_ok [OF assms]
  show "count_list (bs_head_tx (pl_shared q)) BotStartedSpeaking + count (pl_tasks q) NoteSend =
      count_list (bs_head_tx (pl_shared q)) BotStoppedSpeaking + count (pl_tasks q) StopSend + of_bool (bs_speaking (pl_shared q))"
    using ok(1) by (simp add: edges_ok_def)
  have "pool_inevitable notify_task_step
      (\<lambda>r. pl_tasks r = {#} \<and> edges_ok (pl_tasks r) (pl_shared r) \<and> watched (pl_tasks r) (pl_shared r)) q"
    using speaking.inevitable_empty [of q] ok by simp
  then show "pool_inevitable notify_task_step burst_over q"
    by (rule pool_inevitable_mono) (auto simp: burst_over_def edges_ok_def watched_def)
qed

definition first_chunk :: "notify_task move list" where
  "first_chunk = [CallTask (NoteAudio 160), RunTask 0, RunTask 0, RunTask 0]"

theorem speaking_edges_balance_witness:
  "\<exists>q. pool_reach notify_task_step notify_entry (pool_new (bot_speaking_new 8000) 0) q \<and> bs_speaking (pl_shared q) \<and>
     bs_head_tx (pl_shared q) = [BotStartedSpeaking] \<and> pool_inevitable notify_task_step burst_over q"
proof -
  have "pool_exec notify_task_step first_chunk [] (bot_speaking_new 8000) 0 =
      Some ([NoteSpawn], (bot_speaking_new 8000)\<lparr>bs_speaking := True, bs_bot_until := Some (advance_playout None 0 160 8000),
        bs_head_tx := [BotStartedSpeaking]\<rparr>, 0)"
    by (simp add: first_chunk_def bot_speaking_new_def)
  then have r: "pool_reach notify_task_step notify_entry (pool_new (bot_speaking_new 8000) 0)
      (pool_at [NoteSpawn] ((bot_speaking_new 8000)\<lparr>bs_speaking := True, bs_bot_until := Some (advance_playout None 0 160 8000),
        bs_head_tx := [BotStartedSpeaking]\<rparr>) 0)"
    unfolding pool_new_at by (rule pool_exec_reach) (auto simp: first_chunk_def notify_entry_def)
  show ?thesis by (rule exI, rule conjI, rule r) (use speaking_edges_balance [OF r] in simp)
qed

text \<open>The balance says nothing about the order. An interruption between the swap and the send of \<open>note_audio\<close> announces
  the stop before the start: every later observer takes a silent bot for a speaking one, until the next reply ends.\<close>

lemma speaking_edges_swapped:
  "\<exists>q. pool_reach notify_task_step notify_entry (pool_new (bot_speaking_new rate) 0) q \<and> pl_tasks q = {#} \<and>
     \<not> bs_speaking (pl_shared q) \<and> bs_head_tx (pl_shared q) = [BotStoppedSpeaking, BotStartedSpeaking]"
proof -
  define ms where "ms = [CallTask (NoteAudio 0), RunTask 0, RunTask 0, CallTask IntrBump] @ replicate 11 (RunTask 0)"
  have "pool_exec notify_task_step ms [] (bot_speaking_new rate) 0 =
      Some ([], (bot_speaking_new rate)\<lparr>bs_generation := 2, bs_head_tx := [BotStoppedSpeaking, BotStartedSpeaking]\<rparr>, 0)"
    by (simp add: ms_def bot_speaking_new_def numeral_eq_Suc)
  then have r: "pool_reach notify_task_step notify_entry (pool_new (bot_speaking_new rate) 0)
      (pool_at [] ((bot_speaking_new rate)\<lparr>bs_generation := 2, bs_head_tx := [BotStoppedSpeaking, BotStartedSpeaking]\<rparr>) 0)"
    unfolding pool_new_at by (rule pool_exec_reach) (auto simp: ms_def notify_entry_def)
  show ?thesis by (rule exI, rule conjI, rule r) (simp add: bot_speaking_new_def)
qed

end
