(* ===== verification/Rolling_Context.thy ===== *)
theory Rolling_Context
  imports Live_State
begin

text \<open>
  The conversation stages of the cascaded pipeline, \<^verbatim>\<open>flowcat-core/src/pipeline/cascaded.rs\<close>: the rolling LLM context with its
  background summarizer, the user and assistant aggregators, the bridge between LLM and brain, and the kickoff.

  The stages share the context behind a mutex; here they share the record \<open>cascade\<close>. The summarizer runs in a task of its
  own: taking its snapshot and applying its result are events of their own, which may come between any two frames. The
  summarizer and the printing of JSON are arguments; calls of the turn lock's \<open>begin\<close> are counted.
\<close>

section \<open>The context\<close>

record rolling_context =
  rc_messages :: "json list"
  rc_system_prompt :: "ustr option"
  rc_tools :: "json list"

definition rolling_context_new :: "ustr option \<Rightarrow> json list \<Rightarrow> rolling_context" where
  "rolling_context_new sys ts = \<lparr>rc_messages = [], rc_system_prompt = sys, rc_tools = ts\<rparr>"

definition rc_push :: "rolling_context \<Rightarrow> string \<Rightarrow> ustr \<Rightarrow> rolling_context" where
  "rc_push c role content = c\<lparr>rc_messages := rc_messages c @ [json_message role content]\<rparr>"

definition rc_snapshot :: "rolling_context \<Rightarrow> json llm_context" where
  "rc_snapshot c =
     \<lparr>messages = (case rc_system_prompt c of Some sys \<Rightarrow> [json_message ''system'' sys] | None \<Rightarrow> []) @ rc_messages c,
      ctx_tools = rc_tools c\<rparr>"

definition rc_reprompt :: "rolling_context \<Rightarrow> ustr \<Rightarrow> json list \<Rightarrow> rolling_context" where
  "rc_reprompt c sys ts = c\<lparr>rc_system_prompt := Some sys, rc_tools := ts\<rparr>"

definition value_text :: "(json \<Rightarrow> ustr) \<Rightarrow> json \<Rightarrow> ustr" where
  "value_text render v = (case v of JStr s \<Rightarrow> s | other \<Rightarrow> render other)"

definition assistant_call_message :: "(json \<Rightarrow> ustr) \<Rightarrow> ustr \<Rightarrow> ustr \<Rightarrow> json \<Rightarrow> json" where
  "assistant_call_message render i name args =
     JObj [(lit ''content'', JNull), (lit ''role'', JStr (lit ''assistant'')),
           (lit ''tool_calls'', JArr [JObj
              [(lit ''function'', JObj [(lit ''arguments'', JStr (value_text render args)), (lit ''name'', JStr name)]),
               (lit ''id'', JStr i), (lit ''type'', JStr (lit ''function''))]])]"

definition tool_message :: "(json \<Rightarrow> ustr) \<Rightarrow> ustr \<Rightarrow> json \<Rightarrow> json" where
  "tool_message render i content =
     JObj [(lit ''content'', JStr (value_text render content)), (lit ''role'', JStr (lit ''tool'')), (lit ''tool_call_id'', JStr i)]"

definition push_assistant_tool_call :: "(json \<Rightarrow> ustr) \<Rightarrow> rolling_context \<Rightarrow> ustr \<Rightarrow> ustr \<Rightarrow> json \<Rightarrow> rolling_context" where
  "push_assistant_tool_call render c i name args =
     c\<lparr>rc_messages := rc_messages c @ [assistant_call_message render i name args]\<rparr>"

definition push_tool_result :: "(json \<Rightarrow> ustr) \<Rightarrow> rolling_context \<Rightarrow> ustr \<Rightarrow> json \<Rightarrow> rolling_context" where
  "push_tool_result render c i content = c\<lparr>rc_messages := rc_messages c @ [tool_message render i content]\<rparr>"

section \<open>The stages\<close>

record summarizer_config =
  trigger_after_messages :: nat
  keep_recent_messages :: nat

definition summarizer_config_default :: summarizer_config where
  "summarizer_config_default = \<lparr>trigger_after_messages = 20, keep_recent_messages = 4\<rparr>"

datatype summary_job = Spawned | Summarizing "json list" nat

record cascade =
  cs_ctx :: rolling_context
  cs_summarizer_cfg :: summarizer_config
  cs_job :: "summary_job option"
  cs_buffer :: ustr
  in_response :: bool
  cs_pending :: "ustr \<rightharpoonup> ustr \<times> json"
  cs_kicked_off :: bool
  cs_transcript :: transcript
  turns_begun :: nat

definition cascade_new :: "rolling_context \<Rightarrow> summarizer_config \<Rightarrow> cascade" where
  "cascade_new c cfg =
     \<lparr>cs_ctx = c, cs_summarizer_cfg = cfg, cs_job = None, cs_buffer = [], in_response = False, cs_pending = (\<lambda>_. None),
      cs_kicked_off = False, cs_transcript = [], turns_begun = 0\<rparr>"

definition llm_context_frame :: "json llm_context \<Rightarrow> sess_frame" where
  "llm_context_frame c =
     LlmContext \<lparr>messages = map JsonValue (messages c), ctx_tools = map JsonValue (ctx_tools c)\<rparr>"

text \<open>The summarizer task: spawned once the history is long enough and none is in flight; it takes the history; it
  applies the summary in place of the older messages, never leaving a tool result at the front of the kept tail.\<close>

definition maybe_summarize :: "cascade \<Rightarrow> nat \<Rightarrow> cascade" where
  "maybe_summarize s len =
     (if len < trigger_after_messages (cs_summarizer_cfg s) then s
      else if cs_job s \<noteq> None then s
      else s\<lparr>cs_job := Some Spawned\<rparr>)"

definition summary_snapshot :: "cascade \<Rightarrow> cascade" where
  "summary_snapshot s =
     (case cs_job s of
        Some Spawned \<Rightarrow>
          (let history = rc_messages (cs_ctx s);
               through = length history - keep_recent_messages (cs_summarizer_cfg s)
           in s\<lparr>cs_job := if through = 0 then None else Some (Summarizing (take through history) through)\<rparr>)
      | _ \<Rightarrow> s)"

definition is_tool_message :: "json \<Rightarrow> bool" where
  "is_tool_message m = ((case jget m (lit ''role'') of None \<Rightarrow> None | Some r \<Rightarrow> as_str r) = Some (lit ''tool''))"

definition splice_summary :: "nat \<Rightarrow> ustr \<Rightarrow> json list \<Rightarrow> json list" where
  "splice_summary through summary ms =
     json_message ''system'' (lit ''Summary so far: '' @ summary) # dropWhile is_tool_message (drop (min through (length ms)) ms)"

definition summary_apply :: "(json list \<Rightarrow> ustr option) \<Rightarrow> cascade \<Rightarrow> cascade" where
  "summary_apply summarize s =
     (case cs_job s of
        Some (Summarizing history through) \<Rightarrow>
          (case summarize history of
             Some summary \<Rightarrow>
               s\<lparr>cs_ctx := (cs_ctx s)\<lparr>rc_messages := splice_summary through summary (rc_messages (cs_ctx s))\<rparr>, cs_job := None\<rparr>
           | None \<Rightarrow> s\<lparr>cs_job := None\<rparr>)
      | _ \<Rightarrow> s)"

definition user_process :: "(cascade, sess_env, sess_value) tap_step" where
  "user_process l s env n =
     (case env_frame env of
        Transcription t uid lang True \<Rightarrow>
          (let s1 = s\<lparr>cs_transcript := push_user (cs_transcript s) t, cs_ctx := rc_push (cs_ctx s) ''user'' t\<rparr>;
               snapshot = rc_snapshot (cs_ctx s1);
               s2 = maybe_summarize s1 (length (rc_messages (cs_ctx s1)));
               s3 = s2\<lparr>turns_begun := turns_begun s2 + 1\<rparr>;
               (es, n1) = push_down l n (llm_context_frame snapshot)
           in Some (s3, es, n1))
      | _ \<Rightarrow> Some (s, push_env l env, n))"

definition commit_reply :: "cascade \<Rightarrow> ustr \<Rightarrow> cascade" where
  "commit_reply s reply =
     s\<lparr>cs_transcript := push_bot (cs_transcript s) reply, cs_ctx := rc_push (cs_ctx s) ''assistant'' reply\<rparr>"

definition assistant_on_interruption :: "cascade \<Rightarrow> cascade" where
  "assistant_on_interruption s =
     (let s1 = s\<lparr>in_response := False, cs_buffer := []\<rparr>
      in if cs_buffer s \<noteq> [] then commit_reply s1 (cs_buffer s) else s1)"

definition assistant_process :: "(cascade, sess_env, sess_value) tap_step" where
  "assistant_process l s env n =
     (case env_frame env of
        LlmResponseStart \<Rightarrow> Some (s\<lparr>in_response := True, cs_buffer := []\<rparr>, push_env l env, n)
      | LlmText chunk \<Rightarrow> Some (s\<lparr>cs_buffer := cs_buffer s @ chunk\<rparr>, [], n)
      | LlmResponseEnd \<Rightarrow>
          (let s1 = s\<lparr>in_response := False, cs_buffer := []\<rparr>
           in if cs_buffer s \<noteq> []
              then let (es, n1) = push_down l n (TtsSpeak (cs_buffer s) (Some False))
                   in Some (commit_reply s1 (cs_buffer s), es @ push_env l env, n1)
              else Some (s1, push_env l env, n))
      | _ \<Rightarrow> Some (s, push_env l env, n))"

definition is_transition_ack :: "json \<Rightarrow> bool" where
  "is_transition_ack r =
     (case (case jget r (lit ''status'') of None \<Rightarrow> None | Some v \<Rightarrow> as_str v) of
        Some s \<Rightarrow> s \<in> {lit ''moved'', lit ''stay'', lit ''ended''}
      | None \<Rightarrow> False)"

definition tool_decl_value :: "tool_decl \<Rightarrow> json" where
  "tool_decl_value t =
     JObj [(lit ''description'', JStr (td_description t)), (lit ''name'', JStr (td_name t)), (lit ''params'', td_params t)]"

definition json_of :: "sess_value \<Rightarrow> json" where
  "json_of v = (case v of JsonValue j \<Rightarrow> j | _ \<Rightarrow> JNull)"

fun start_calls :: "link \<Rightarrow> cascade \<Rightarrow> sess_value function_call list \<Rightarrow> u64 \<Rightarrow> cascade \<times> sess_value eff list \<times> u64" where
  "start_calls l s [] n = (s, [], n)"
| "start_calls l s (c # cs) n =
     (let s1 = s\<lparr>cs_pending := (cs_pending s)(fc_tool_call_id c \<mapsto> (fc_function_name c, json_of (fc_arguments c)))\<rparr>;
          (e1, n1) = push_down l n (model_tool_call (fc_tool_call_id c) (fc_function_name c) (json_of (fc_arguments c)));
          (s2, e2, n2) = start_calls l s1 cs n1
      in (s2, e1 @ e2, n2))"

definition bridge_result :: "(json \<Rightarrow> ustr) \<Rightarrow> cascade \<Rightarrow> ustr \<Rightarrow> json \<Rightarrow> cascade" where
  "bridge_result render s i r =
     (let c1 = (case cs_pending s i of
                  Some (name, args) \<Rightarrow> push_assistant_tool_call render (cs_ctx s) i name args
                | None \<Rightarrow> cs_ctx s)
      in s\<lparr>cs_pending := (cs_pending s)(i := None), cs_ctx := push_tool_result render c1 i r\<rparr>)"

definition bridge_process :: "(json \<Rightarrow> ustr) \<Rightarrow> (cascade, sess_env, sess_value) tap_step" where
  "bridge_process render l s env n =
     (case env_frame env of
        FunctionCallsStarted calls \<Rightarrow> Some (start_calls l s calls n)
      | Custom c \<Rightarrow>
          (case cf_value c of
             Some (Reprompt p ts) \<Rightarrow>
               (let s1 = s\<lparr>cs_ctx := rc_reprompt (cs_ctx s) p (map tool_decl_value ts)\<rparr>;
                    (es, n1) = push_up l n (llm_context_frame (rc_snapshot (cs_ctx s1)))
                in Some (s1, es, n1))
           | Some (ToolResult i r) \<Rightarrow>
               if \<not> is_transition_ack r then
                 (let s1 = bridge_result render s i r;
                      (es, n1) = push_up l n (llm_context_frame (rc_snapshot (cs_ctx s1)))
                  in Some (s1, es, n1))
               else Some (s\<lparr>cs_pending := (cs_pending s)(i := None)\<rparr>, [], n)
           | _ \<Rightarrow> Some (s, push_env l env, n))
      | _ \<Rightarrow> Some (s, push_env l env, n))"

definition kickoff_process :: "(cascade, sess_env, sess_value) tap_step" where
  "kickoff_process l s env n =
     (if \<not> cs_kicked_off s \<and> env_frame env = ClientConnected then
        (let s1 = s\<lparr>cs_kicked_off := True, turns_begun := turns_begun s + 1\<rparr>;
             snapshot = (rc_snapshot (cs_ctx s1))\<lparr>ctx_tools := []\<rparr>;
             (es, n1) = push_down l n (llm_context_frame snapshot)
         in Some (s1, es @ push_env l env, n1))
      else Some (s, push_env l env, n))"

section \<open>Interleavings\<close>

datatype (plugins only: code size) cascade_event =
    AtUser sess_env
  | AtAssistant sess_env
  | AtBridge sess_env
  | AtKickoff sess_env
  | AssistantInterrupted
  | SummarySnapshot
  | SummaryApply

definition cascade_step ::
  "(json \<Rightarrow> ustr) \<Rightarrow> (json list \<Rightarrow> ustr option) \<Rightarrow> (cascade, cascade_event, sess_value) tap_step" where
  "cascade_step render summarize l s ev n =
     (case ev of
        AtUser env \<Rightarrow> user_process l s env n
      | AtAssistant env \<Rightarrow> assistant_process l s env n
      | AtBridge env \<Rightarrow> bridge_process render l s env n
      | AtKickoff env \<Rightarrow> kickoff_process l s env n
      | AssistantInterrupted \<Rightarrow> Some (assistant_on_interruption s, [], n)
      | SummarySnapshot \<Rightarrow> Some (summary_snapshot s, [], n)
      | SummaryApply \<Rightarrow> Some (summary_apply summarize s, [], n))"

section \<open>Tool messages answer tool calls\<close>

text \<open>The condition chat-completion services check: a \<open>tool\<close> message must directly follow the assistant message that made
  the call it answers.\<close>

definition tool_call_id_of :: "json \<Rightarrow> ustr option" where
  "tool_call_id_of m = (case jget m (lit ''tool_call_id'') of None \<Rightarrow> None | Some v \<Rightarrow> as_str v)"

definition makes_call :: "json \<Rightarrow> ustr \<Rightarrow> bool" where
  "makes_call m i = (case jget m (lit ''tool_calls'') of
     Some (JArr cs) \<Rightarrow> list_ex (\<lambda>c. jget c (lit ''id'') = Some (JStr i)) cs | _ \<Rightarrow> False)"

definition answers_previous :: "json option \<Rightarrow> json \<Rightarrow> bool" where
  "answers_previous prev m =
     (case (prev, tool_call_id_of m) of (Some p, Some i) \<Rightarrow> makes_call p i | _ \<Rightarrow> False)"

fun paired_from :: "json option \<Rightarrow> json list \<Rightarrow> bool" where
  "paired_from prev [] = True"
| "paired_from prev (m # ms) = ((is_tool_message m \<longrightarrow> answers_previous prev m) \<and> paired_from (Some m) ms)"

lemma paired_append:
  "paired_from prev (xs @ ys) \<longleftrightarrow> paired_from prev xs \<and> paired_from (if xs = [] then prev else Some (last xs)) ys"
  by (induction prev xs rule: paired_from.induct) auto

lemma paired_weaken: "paired_from None ms \<Longrightarrow> paired_from prev ms"
  by (cases ms) (auto simp: answers_previous_def)

lemma paired_drop_tools: "paired_from prev ms \<Longrightarrow> paired_from q (dropWhile is_tool_message ms)"
proof (induction ms arbitrary: prev)
  case (Cons m ms)
  then show ?case by (cases "is_tool_message m") auto
qed simp

lemma paired_drop: "paired_from prev ms \<Longrightarrow> \<exists>p. paired_from p (drop k ms)"
proof (induction ms arbitrary: prev k)
  case (Cons m ms)
  then show ?case by (cases k) auto
qed auto

lemma paired_splice: "paired_from None ms \<Longrightarrow> paired_from None (splice_summary k t ms)"
  using paired_drop [of None ms "min k (length ms)"] paired_drop_tools
  by (auto simp: splice_summary_def is_tool_message_def jget_def json_message_def as_str_def lit_def)

lemma message_roles [simp]:
  "\<not> is_tool_message (json_message ''user'' t)" "\<not> is_tool_message (json_message ''assistant'' t)"
  "\<not> is_tool_message (json_message ''system'' t)" "\<not> is_tool_message (assistant_call_message render i nm args)"
  by (simp_all add: is_tool_message_def jget_def json_message_def assistant_call_message_def as_str_def lit_def)

lemma tool_message_answers: "answers_previous (Some (assistant_call_message render i nm args)) (tool_message render i r)"
  by (simp add: answers_previous_def tool_call_id_of_def makes_call_def assistant_call_message_def tool_message_def jget_def as_str_def lit_def)

lemma paired_snoc: "paired_from None ms \<Longrightarrow> \<not> is_tool_message m \<Longrightarrow> paired_from None (ms @ [m])"
  by (simp add: paired_append)

definition ctx_paired :: "rolling_context \<Rightarrow> bool" where
  "ctx_paired c = paired_from None (rc_messages c)"

lemma ctx_paired_ops:
  assumes "ctx_paired c"
  shows "ctx_paired (rc_push c ''user'' t)" "ctx_paired (rc_push c ''assistant'' t)" "ctx_paired (rc_reprompt c sys ts)"
    "paired_from None (messages (rc_snapshot c))"
    "ctx_paired (push_tool_result render (push_assistant_tool_call render c i nm args) i r)"
  using assms paired_weaken [of "rc_messages c"]
  by (simp_all add: ctx_paired_def rc_push_def rc_reprompt_def rc_snapshot_def push_tool_result_def push_assistant_tool_call_def
      paired_append tool_message_answers split: option.split)

text \<open>The calls the bridge has open: started ones not yet answered.\<close>

definition started :: "cascade_event \<Rightarrow> ustr set" where
  "started ev = (case ev of AtBridge env \<Rightarrow> (case env_frame env of FunctionCallsStarted cs \<Rightarrow> fc_tool_call_id ` set cs | _ \<Rightarrow> {}) | _ \<Rightarrow> {})"

definition answered :: "cascade_event \<Rightarrow> (ustr \<times> json) option" where
  "answered ev = (case ev of
     AtBridge env \<Rightarrow> (case custom_value (env_frame env) of Some (ToolResult i r) \<Rightarrow> Some (i, r) | _ \<Rightarrow> None)
   | _ \<Rightarrow> None)"

fun well_answered :: "ustr set \<Rightarrow> cascade_event list \<Rightarrow> bool" where
  "well_answered ids [] = True"
| "well_answered ids (ev # evs) =
     (case answered ev of
        None \<Rightarrow> well_answered (ids \<union> started ev) evs
      | Some (i, r) \<Rightarrow> (is_transition_ack r \<or> i \<in> ids) \<and> well_answered (ids - {i}) evs)"

definition event_env :: "cascade_event \<Rightarrow> sess_env option" where
  "event_env ev = (case ev of AtUser e \<Rightarrow> Some e | AtAssistant e \<Rightarrow> Some e | AtBridge e \<Rightarrow> Some e | AtKickoff e \<Rightarrow> Some e | _ \<Rightarrow> None)"

definition context_of :: "sess_frame \<Rightarrow> json list list" where
  "context_of f = (case f of LlmContext c \<Rightarrow> [map json_of (messages c)] | _ \<Rightarrow> [])"

definition contexts :: "sess_frame list \<Rightarrow> json list list" where
  "contexts fs = concat (map context_of fs)"

lemma contexts_simps [simp]:
  "contexts [] = []" "contexts (xs @ ys) = contexts xs @ contexts ys"
  "contexts (f # fs) = context_of f @ contexts fs"
  by (simp_all add: contexts_def)

lemma context_of_snapshot [simp]: "context_of (llm_context_frame c) = [messages c]"
  by (simp add: context_of_def llm_context_frame_def json_of_def o_def)

lemma start_calls_facts:
  "start_calls l s cs n = (s', es, n') \<Longrightarrow>
     cs_ctx s' = cs_ctx s \<and> dom (cs_pending s') = dom (cs_pending s) \<union> fc_tool_call_id ` set cs \<and> contexts (sent_frames es) = []"
proof (induction cs arbitrary: s n es)
  case (Cons c cs)
  obtain e1 n1 where p: "push_down l n (model_tool_call (fc_tool_call_id c) (fc_function_name c) (json_of (fc_arguments c))) = (e1, n1)"
    by fastforce
  have "sent_frames e1 = (if l_next l = None then [] else [model_tool_call (fc_tool_call_id c) (fc_function_name c) (json_of (fc_arguments c))])"
    using sent_frames_push_down p by (metis fst_conv)
  then have "contexts (sent_frames e1) = []" by (simp add: context_of_def model_tool_call_def)
  moreover define s1 where "s1 = s\<lparr>cs_pending := (cs_pending s)(fc_tool_call_id c \<mapsto> (fc_function_name c, json_of (fc_arguments c)))\<rparr>"
  obtain s2 e2 n2 where rest: "start_calls l s1 cs n1 = (s2, e2, n2)" by (cases "start_calls l s1 cs n1")
  have eq: "s' = s2" "es = e1 @ e2" using Cons.prems rest by (simp_all add: p Let_def s1_def)
  have "n2 = n'" using Cons.prems rest by (simp add: p Let_def s1_def)
  with rest eq have "start_calls l s1 cs n1 = (s', e2, n')" by simp
  note ih = Cons.IH [OF this]
  have "dom (cs_pending s1) = insert (fc_tool_call_id c) (dom (cs_pending s))" "cs_ctx s1 = cs_ctx s" by (auto simp: s1_def)
  ultimately show ?case using ih eq(2) by auto
qed simp

lemma contexts_forward: "context_of f = [] \<Longrightarrow> contexts (sent_frames (push l m f d)) = []"
  by simp

text \<open>One event keeps the pairing, and whatever context it sends to the LLM is paired.\<close>

definition step_good :: "cascade \<Rightarrow> cascade_event \<Rightarrow> cascade \<Rightarrow> sess_value eff list \<Rightarrow> bool" where
  "step_good s ev s' es \<longleftrightarrow> ctx_paired (cs_ctx s') \<and> (\<forall>ms\<in>set (contexts (sent_frames es)). paired_from None ms) \<and>
     dom (cs_pending s') = (case answered ev of None \<Rightarrow> dom (cs_pending s) \<union> started ev | Some (i, r) \<Rightarrow> dom (cs_pending s) - {i})"

lemma sent_one_down: "push_down l n f = (es, n') \<Longrightarrow> set (contexts (sent_frames es)) \<subseteq> set (context_of f)"
  using sent_frames_push_down [of l n f] by (simp split: if_splits)

lemma sent_one_up: "push_up l n f = (es, n') \<Longrightarrow> set (contexts (sent_frames es)) \<subseteq> set (context_of f)"
  using sent_frames_push_up [of l n f] by (simp split: if_splits)

lemma user_good:
  assumes "ctx_paired (cs_ctx s)" and "context_of (env_frame env) = []" and "user_process l s env n = Some (s', es, n')"
  shows "step_good s (AtUser env) s' es"
proof (cases "\<exists>t uid lang. env_frame env = Transcription t uid lang True")
  case True
  then obtain t uid lang where f: "env_frame env = Transcription t uid lang True" by blast
  let ?c = "rc_push (cs_ctx s) ''user'' t"
  obtain es1 n1 where p: "push_down l n (llm_context_frame (rc_snapshot ?c)) = (es1, n1)" by fastforce
  have c: "cs_ctx s' = ?c" "cs_pending s' = cs_pending s" "es = es1"
    using assms(3) by (auto simp: user_process_def f Let_def p maybe_summarize_def split: if_splits)
  show ?thesis
    using sent_one_down [OF p] ctx_paired_ops(1) [OF assms(1)] ctx_paired_ops(4) [OF ctx_paired_ops(1) [OF assms(1), of t]]
    by (auto simp: step_good_def c answered_def started_def)
next
  case False
  then have "s' = s" "es = push_env l env"
    using assms(3) by (auto simp: user_process_def split: frame.splits bool.splits)
  then show ?thesis using assms(1,2) by (simp add: step_good_def answered_def started_def)
qed

lemma assistant_good:
  assumes "ctx_paired (cs_ctx s)" and "context_of (env_frame env) = []" and "assistant_process l s env n = Some (s', es, n')"
  shows "step_good s (AtAssistant env) s' es"
proof -
  have sp: "context_of (TtsSpeak t b) = []" for t b by (simp add: context_of_def)
  note ok = ctx_paired_ops(2) [OF assms(1)]
  have "ctx_paired (cs_ctx s') \<and> cs_pending s' = cs_pending s \<and> contexts (sent_frames es) = []"
    using assms sent_one_down [of l n "TtsSpeak (cs_buffer s) (Some False)"]
    by (cases "env_frame env") (auto simp: assistant_process_def commit_reply_def ok sp Let_def split: if_splits prod.splits)
  then show ?thesis by (simp add: step_good_def answered_def started_def)
qed

lemma kickoff_good:
  assumes "ctx_paired (cs_ctx s)" and "context_of (env_frame env) = []" and "kickoff_process l s env n = Some (s', es, n')"
  shows "step_good s (AtKickoff env) s' es"
proof (cases "\<not> cs_kicked_off s \<and> env_frame env = ClientConnected")
  case True
  obtain es1 n1 where p: "push_down l n (llm_context_frame ((rc_snapshot (cs_ctx s))\<lparr>ctx_tools := []\<rparr>)) = (es1, n1)" by fastforce
  have "cs_ctx s' = cs_ctx s" "cs_pending s' = cs_pending s" "es = es1 @ push_env l env"
    using assms(3) True by (auto simp: kickoff_process_def Let_def p)
  then show ?thesis
    using sent_one_down [OF p] ctx_paired_ops(4) [OF assms(1)] assms(1,2) by (auto simp: step_good_def answered_def started_def)
next
  case False
  then have "s' = s" "es = push_env l env" using assms(3) by (auto simp: kickoff_process_def)
  then show ?thesis using assms(1,2) by (simp add: step_good_def answered_def started_def)
qed

lemma bridge_good:
  assumes "ctx_paired (cs_ctx s)" and "context_of (env_frame env) = []" and "bridge_process render l s env n = Some (s', es, n')"
    and "\<forall>i r. custom_value (env_frame env) = Some (ToolResult i r) \<longrightarrow> is_transition_ack r \<or> i \<in> dom (cs_pending s)"
  shows "step_good s (AtBridge env) s' es"
proof (cases "\<exists>cs. env_frame env = FunctionCallsStarted cs")
  case True
  then obtain cs where f: "env_frame env = FunctionCallsStarted cs" by blast
  have "start_calls l s cs n = (s', es, n')" using assms(3) by (simp add: bridge_process_def f)
  from start_calls_facts [OF this] show ?thesis
    using assms(1) by (simp add: step_good_def answered_def started_def f custom_value_def)
next
  case False
  have st: "started (AtBridge env) = {}" using False by (cases "env_frame env") (auto simp: started_def)
  show ?thesis
  proof (cases "custom_value (env_frame env)")
    case None
    then have "s' = s" "es = push_env l env"
      using assms(3) False by (cases "env_frame env"; simp add: bridge_process_def custom_value_def)+
    then show ?thesis using assms(1,2) None st by (simp add: step_good_def answered_def)
  next
    case (Some v)
    then obtain c where f: "env_frame env = Custom c" "cf_value c = Some v"
      by (cases "env_frame env") (auto simp: custom_value_def)
    show ?thesis
    proof (cases v)
      case (Reprompt p ts)
      let ?c = "rc_reprompt (cs_ctx s) p (map tool_decl_value ts)"
      obtain es1 n1 where u: "push_up l n (llm_context_frame (rc_snapshot ?c)) = (es1, n1)" by fastforce
      have "cs_ctx s' = ?c" "cs_pending s' = cs_pending s" "es = es1"
        using assms(3) Reprompt by (auto simp: bridge_process_def f Let_def u)
      then show ?thesis
        using sent_one_up [OF u] ctx_paired_ops(3) [OF assms(1)] ctx_paired_ops(4) [OF ctx_paired_ops(3) [OF assms(1)]] Some st Reprompt
        by (auto simp: step_good_def answered_def)
    next
      case (ToolResult i r)
      show ?thesis
      proof (cases "is_transition_ack r")
        case True
        then have "s' = s\<lparr>cs_pending := (cs_pending s)(i := None)\<rparr>" "es = []"
          using assms(3) ToolResult by (auto simp: bridge_process_def f)
        then show ?thesis using assms(1) Some ToolResult by (simp add: step_good_def answered_def)
      next
        case noack: False
        then obtain nm args where pend: "cs_pending s i = Some (nm, args)" using assms(4) Some ToolResult by auto
        let ?c = "push_tool_result render (push_assistant_tool_call render (cs_ctx s) i nm args) i r"
        obtain es1 n1 where u: "push_up l n (llm_context_frame (rc_snapshot ?c)) = (es1, n1)" by fastforce
        have "cs_ctx s' = ?c" "cs_pending s' = (cs_pending s)(i := None)" "es = es1"
          using assms(3) ToolResult noack by (auto simp: bridge_process_def bridge_result_def pend f Let_def u)
        then show ?thesis
          using sent_one_up [OF u] ctx_paired_ops(5) [OF assms(1)] ctx_paired_ops(4) [OF ctx_paired_ops(5) [OF assms(1)]] Some ToolResult
          by (auto simp: step_good_def answered_def)
      qed
    qed (use assms(1-3) Some st f in \<open>auto simp: step_good_def answered_def bridge_process_def split: if_splits\<close>)
  qed
qed

lemma background_good:
  assumes "ctx_paired (cs_ctx s)"
  shows "step_good s AssistantInterrupted (assistant_on_interruption s) []" "step_good s SummarySnapshot (summary_snapshot s) []"
    "step_good s SummaryApply (summary_apply summarize s) []"
proof -
  show "step_good s AssistantInterrupted (assistant_on_interruption s) []"
    using assms ctx_paired_ops(2) [OF assms]
    by (simp add: step_good_def answered_def started_def assistant_on_interruption_def commit_reply_def Let_def)
  show "step_good s SummarySnapshot (summary_snapshot s) []"
    using assms by (simp add: step_good_def answered_def started_def summary_snapshot_def Let_def split: option.split summary_job.split)
  show "step_good s SummaryApply (summary_apply summarize s) []"
    using assms paired_splice
    by (simp add: step_good_def answered_def started_def summary_apply_def ctx_paired_def split: option.split summary_job.split)
qed

lemma cascade_step_good:
  assumes "ctx_paired (cs_ctx s)" and "\<forall>e\<in>set_option (event_env ev). context_of (env_frame e) = []"
    and "\<forall>a\<in>set_option (answered ev). is_transition_ack (snd a) \<or> fst a \<in> dom (cs_pending s)"
    and "cascade_step render summarize l s ev n = Some (s', es, n')"
  shows "step_good s ev s' es"
proof (cases ev)
  case (AtUser env)
  then show ?thesis using user_good assms by (simp add: cascade_step_def event_env_def)
next
  case (AtAssistant env)
  then show ?thesis using assistant_good assms by (simp add: cascade_step_def event_env_def)
next
  case (AtBridge env)
  have "\<forall>i r. custom_value (env_frame env) = Some (ToolResult i r) \<longrightarrow> is_transition_ack r \<or> i \<in> dom (cs_pending s)"
    using assms(3) AtBridge by (auto simp: answered_def)
  then show ?thesis using bridge_good assms AtBridge by (simp add: cascade_step_def event_env_def)
next
  case (AtKickoff env)
  then show ?thesis using kickoff_good assms by (simp add: cascade_step_def event_env_def)
qed (use background_good [OF assms(1)] assms(4) in \<open>auto simp: cascade_step_def\<close>)

lemma cascade_run_good:
  assumes "ctx_paired (cs_ctx s)" and "\<forall>ev\<in>set evs. \<forall>e\<in>set_option (event_env ev). context_of (env_frame e) = []"
    and "well_answered (dom (cs_pending s)) evs" and "run_frames (cascade_step render summarize) l s evs n = Some (s', es, n')"
  shows "ctx_paired (cs_ctx s') \<and> (\<forall>ms\<in>set (contexts (sent_frames es)). paired_from None ms)"
  using assms
proof (induction evs arbitrary: s n es)
  case (Cons ev evs)
  then obtain s1 es1 n1 es2 where 1: "cascade_step render summarize l s ev n = Some (s1, es1, n1)"
    and 2: "run_frames (cascade_step render summarize) l s1 evs n1 = Some (s', es2, n')" and es: "es = es1 @ es2"
    by (auto split: Option.bind_splits)
  have "\<forall>a\<in>set_option (answered ev). is_transition_ack (snd a) \<or> fst a \<in> dom (cs_pending s)"
    using Cons.prems(3) by (auto split: option.splits)
  from cascade_step_good [OF Cons.prems(1) _ this 1] Cons.prems(2)
  have g: "step_good s ev s1 es1" by simp
  have "well_answered (dom (cs_pending s1)) evs"
    using Cons.prems(3) g by (auto simp: step_good_def split: option.splits)
  from Cons.IH [OF _ _ this 2] Cons.prems(2) g show ?case by (auto simp: step_good_def es)
qed simp

text \<open>C23. No LLM run is refused for a stray tool message. Whatever the interleaving of user turns, streamed and interrupted
  replies, transitions, tool calls and their results, and background summaries applied in the middle of it all, the
  rolling context, and every context sent to the LLM, has each tool result directly behind the assistant message that made
  its call, as long as the results that reach the bridge answer calls that are open.\<close>

theorem llm_contexts_pair_tools:
  assumes "\<forall>ev\<in>set evs. \<forall>e\<in>set_option (event_env ev). context_of (env_frame e) = []" and "well_answered {} evs"
    and "run_frames (cascade_step render summarize) l (cascade_new (rolling_context_new sys ts) cfg) evs n = Some (s', es, n')"
  shows "paired_from None (rc_messages (cs_ctx s')) \<and> (\<forall>ms\<in>set (contexts (sent_frames es)). paired_from None ms)"
proof -
  have "ctx_paired (cs_ctx (cascade_new (rolling_context_new sys ts) cfg))"
    by (simp add: ctx_paired_def cascade_new_def rolling_context_new_def)
  moreover have "well_answered (dom (cs_pending (cascade_new (rolling_context_new sys ts) cfg))) evs"
    using assms(2) by (simp add: cascade_new_def)
  ultimately show ?thesis using cascade_run_good [OF _ assms(1) _ assms(3)] by (simp add: ctx_paired_def)
qed

lemma cascade_step_total: "\<exists>s' es n'. cascade_step render summarize l s ev n = Some (s', es, n')"
proof -
  have "\<exists>s' es n'. user_process l s env n = Some (s', es, n')" for env
    by (cases "env_frame env") (simp_all add: user_process_def Let_def case_prod_unfold split: bool.split)
  moreover have "\<exists>s' es n'. assistant_process l s env n = Some (s', es, n')" for env
    by (cases "env_frame env") (simp_all add: assistant_process_def Let_def case_prod_unfold)
  moreover have "\<exists>s' es n'. bridge_process render l s env n = Some (s', es, n')" for env
  proof (cases "env_frame env")
    case (FunctionCallsStarted cs)
    then show ?thesis by (cases "start_calls l s cs n") (simp add: bridge_process_def)
  qed (simp_all add: bridge_process_def Let_def case_prod_unfold split: option.split sess_value.split)
  moreover have "\<exists>s' es n'. kickoff_process l s env n = Some (s', es, n')" for env
    by (simp add: kickoff_process_def Let_def case_prod_unfold)
  ultimately show ?thesis by (cases ev) (simp_all add: cascade_step_def)
qed

lemma cascade_run_total: "\<exists>s' es n'. run_frames (cascade_step render summarize) l s evs n = Some (s', es, n')"
  by (rule run_frames_total) (rule cascade_step_total)

definition demo_at :: "sess_frame \<Rightarrow> sess_env" where
  "demo_at f = fst (envelope_new 9 f Downstream)"

lemma demo_at_simps [simp]: "env_frame (demo_at f) = f" "env_direction (demo_at f) = Downstream"
  by (simp_all add: demo_at_def envelope_new_def case_prod_unfold Let_def)

definition demo_cascade_events :: "cascade_event list" where
  "demo_cascade_events =
     [AtUser (demo_at (Transcription (lit ''hi'') (lit ''user'') None True)),
      AtBridge (demo_at (FunctionCallsStarted [\<lparr>fc_function_name = lit ''find'', fc_tool_call_id = lit ''c1'', fc_arguments = JsonValue JNull\<rparr>])),
      SummarySnapshot, AtBridge (demo_at (tool_result (lit ''c1'') (JStr (lit ''ok'')))), SummaryApply]"

definition demo_cascade_link :: link where
  "demo_cascade_link = \<lparr>l_next = Some \<lparr>tx_chan = 1, tx_name = ''next''\<rparr>, l_prev = Some \<lparr>tx_chan = 0, tx_name = ''prev''\<rparr>, l_name = ''C'',
     l_observer = False, enable_metrics = False, enable_usage_metrics = False, ttfb_start = 0, processing_start = 0\<rparr>"

theorem llm_contexts_pair_tools_witness:
  "\<exists>s' es n'. run_frames (cascade_step (\<lambda>_. []) (\<lambda>_. Some [])) demo_cascade_link
      (cascade_new (rolling_context_new None []) \<lparr>trigger_after_messages = 1, keep_recent_messages = 0\<rparr>) demo_cascade_events 9 =
      Some (s', es, n') \<and> paired_from None (rc_messages (cs_ctx s'))"
proof -
  obtain s' es n' where r: "run_frames (cascade_step (\<lambda>_. []) (\<lambda>_. Some [])) demo_cascade_link
      (cascade_new (rolling_context_new None []) \<lparr>trigger_after_messages = 1, keep_recent_messages = 0\<rparr>) demo_cascade_events 9 =
      Some (s', es, n')" using cascade_run_total by blast
  have "\<forall>ev\<in>set demo_cascade_events. \<forall>e\<in>set_option (event_env ev). context_of (env_frame e) = []"
    by (simp add: demo_cascade_events_def event_env_def context_of_def tool_result_def)
  moreover have "well_answered {} demo_cascade_events"
    by (simp add: demo_cascade_events_def answered_def started_def custom_value_def tool_result_def)
  ultimately show ?thesis using llm_contexts_pair_tools [OF _ _ r] r by blast
qed

section \<open>Replies are spoken once\<close>

text \<open>A reply streamed in chunks and completed, or cut off by an interruption with its end marker still to come.\<close>

fun reply_events :: "(sess_frame \<Rightarrow> sess_env) \<Rightarrow> ustr list \<times> bool \<Rightarrow> cascade_event list" where
  "reply_events mk (chunks, ctd) =
     AtAssistant (mk LlmResponseStart) # map (\<lambda>t. AtAssistant (mk (LlmText t))) chunks @
     (if ctd then [AssistantInterrupted] else []) @ [AtAssistant (mk LlmResponseEnd)]"

text \<open>What the synthesis stage downstream would speak: it takes \<open>TtsSpeak\<close>, and raw \<open>LlmText\<close> as well.\<close>

definition spoken :: "sess_frame list \<Rightarrow> ustr list" where
  "spoken fs = concat (map (\<lambda>f. case f of TtsSpeak t b \<Rightarrow> [t] | LlmText t \<Rightarrow> [t] | _ \<Rightarrow> []) fs)"

definition completed_replies :: "(ustr list \<times> bool) list \<Rightarrow> ustr list" where
  "completed_replies rs = filter (\<lambda>t. t \<noteq> []) (map (\<lambda>r. concat (fst r)) (filter (\<lambda>r. \<not> snd r) rs))"

definition heard_replies :: "(ustr list \<times> bool) list \<Rightarrow> ustr list" where
  "heard_replies rs = filter (\<lambda>t. t \<noteq> []) (map (\<lambda>r. concat (fst r)) rs)"

definition downstream_wire :: "(sess_frame \<Rightarrow> sess_env) \<Rightarrow> bool" where
  "downstream_wire mk \<longleftrightarrow> (\<forall>f. env_frame (mk f) = f \<and> env_direction (mk f) = Downstream)"

lemma spoken_append [simp]: "spoken (xs @ ys) = spoken xs @ spoken ys"
  by (simp add: spoken_def)

lemma stream_chunks:
  assumes "downstream_wire mk"
  shows "run_frames (cascade_step render summarize) l s (map (\<lambda>t. AtAssistant (mk (LlmText t))) chunks) n =
    Some (s\<lparr>cs_buffer := cs_buffer s @ concat chunks\<rparr>, [], n)"
proof (induction chunks arbitrary: s)
  case (Cons c cs)
  have "cascade_step render summarize l s (AtAssistant (mk (LlmText c))) n = Some (s\<lparr>cs_buffer := cs_buffer s @ c\<rparr>, [], n)"
    using assms by (simp add: cascade_step_def assistant_process_def downstream_wire_def)
  then show ?case by (simp add: Cons)
qed simp

lemma one_reply:
  assumes "downstream_wire mk" and "l_next l \<noteq> None"
  shows "\<exists>s' es n'. run_frames (cascade_step render summarize) l s (reply_events mk r) n = Some (s', es, n') \<and>
    spoken (sent_frames es) = completed_replies [r] \<and>
    rc_messages (cs_ctx s') = rc_messages (cs_ctx s) @ map (json_message ''assistant'') (heard_replies [r]) \<and>
    said Bot (cs_transcript s') = said Bot (cs_transcript s) @ concat (heard_replies [r])"
proof (cases r)
  case (Pair chunks ctd)
  define s0 where "s0 = s\<lparr>in_response := True, cs_buffer := []\<rparr>"
  define s1 where "s1 = s0\<lparr>cs_buffer := concat chunks\<rparr>"
  have a: "cascade_step render summarize l s (AtAssistant (mk LlmResponseStart)) n = Some (s0, push_env l (mk LlmResponseStart), n)"
    using assms(1) by (simp add: cascade_step_def assistant_process_def downstream_wire_def s0_def)
  have b: "run_frames (cascade_step render summarize) l s0 (map (\<lambda>t. AtAssistant (mk (LlmText t))) chunks) n = Some (s1, [], n)"
    using stream_chunks [OF assms(1), of render summarize l s0 chunks n] by (simp add: s0_def s1_def)
  obtain es1 :: "sess_value eff list" and n1 where p: "push_down l n (TtsSpeak (concat chunks) (Some False)) = (es1, n1)" by fastforce
  have es1: "sent_frames es1 = [TtsSpeak (concat chunks) (Some False)]"
    using sent_frames_push_down assms(2) p by (metis fst_conv)
  define finished where "finished = s1\<lparr>in_response := False, cs_buffer := []\<rparr>"
  have quiet: "cascade_step render summarize l u (AtAssistant (mk LlmResponseEnd)) n =
      Some (u\<lparr>in_response := False, cs_buffer := []\<rparr>, push_env l (mk LlmResponseEnd), n)" if "cs_buffer u = []" for u
    using assms(1) that by (simp add: cascade_step_def assistant_process_def downstream_wire_def)
  have ended: "cascade_step render summarize l s1 (AtAssistant (mk LlmResponseEnd)) n =
      Some (commit_reply finished (concat chunks), es1 @ push_env l (mk LlmResponseEnd), n1)" if "concat chunks \<noteq> []"
    using assms(1) that p by (simp add: cascade_step_def assistant_process_def downstream_wire_def s1_def finished_def Let_def)
  have intr: "cascade_step render summarize l s1 AssistantInterrupted n =
      Some (if concat chunks \<noteq> [] then commit_reply finished (concat chunks) else finished, [], n)"
    by (simp add: cascade_step_def assistant_on_interruption_def s1_def finished_def Let_def)
  have silent: "spoken [] = []" "spoken [env_frame (mk LlmResponseStart)] = []" "spoken [env_frame (mk LlmResponseEnd)] = []"
    using assms(1) by (simp_all add: spoken_def downstream_wire_def)
  have fin: "cs_buffer finished = []" "rc_messages (cs_ctx finished) = rc_messages (cs_ctx s)" "cs_transcript finished = cs_transcript s"
    by (simp_all add: finished_def s1_def s0_def)
  have com: "cs_buffer (commit_reply finished t) = []" "rc_messages (cs_ctx (commit_reply finished t)) = rc_messages (cs_ctx s) @ [json_message ''assistant'' t]"
    "said Bot (cs_transcript (commit_reply finished t)) = said Bot (cs_transcript s) @ t" for t
    using fin by (simp_all add: commit_reply_def rc_push_def push_bot_def transcript_push_said)
  have upd: "rc_messages (cs_ctx (u\<lparr>in_response := False, cs_buffer := []\<rparr>)) = rc_messages (cs_ctx u)"
    "cs_transcript (u\<lparr>in_response := False, cs_buffer := []\<rparr>) = cs_transcript u" for u by simp_all
  have sp1: "spoken (sent_frames es1) = [concat chunks]" by (simp add: es1 spoken_def)
  show ?thesis
  proof (cases "concat chunks = []")
    case True
    have b1: "cs_buffer s1 = []" "rc_messages (cs_ctx s1) = rc_messages (cs_ctx s)" "cs_transcript s1 = cs_transcript s"
      using True by (simp_all add: s1_def s0_def)
    show ?thesis
      using True fin b1
      by (cases ctd) (simp_all add: Pair a run_frames_append b intr quiet silent
          completed_replies_def heard_replies_def del: concat_eq_Nil_conv)
  next
    case False
    show ?thesis
      using False com
      by (cases ctd) (simp_all add: Pair a run_frames_append b intr quiet [OF com(1)] ended silent sp1
          completed_replies_def heard_replies_def del: concat_eq_Nil_conv)
  qed
qed

text \<open>C24. Every reply reaches the caller and the history once. Over any run of streamed replies, completed or cut off by an
  interruption (with the late end marker of the cut one still arriving): what is sent on for the synthesis stage to speak,
  as whole utterances or as raw tokens, are the completed, non-empty replies, whole and in order; the LLM history and the transcript also keep what had been
  streamed of the cut ones.\<close>

theorem replies_spoken_once:
  assumes "downstream_wire mk" and "l_next l \<noteq> None"
  shows "\<exists>s' es n'. run_frames (cascade_step render summarize) l s (concat (map (reply_events mk) rs)) n = Some (s', es, n') \<and>
    spoken (sent_frames es) = completed_replies rs \<and>
    rc_messages (cs_ctx s') = rc_messages (cs_ctx s) @ map (json_message ''assistant'') (heard_replies rs) \<and>
    said Bot (cs_transcript s') = said Bot (cs_transcript s) @ concat (heard_replies rs)"
proof (induction rs arbitrary: s n)
  case Nil
  show ?case by (simp add: spoken_def completed_replies_def heard_replies_def)
next
  case (Cons r rs)
  obtain s1 es1 n1 where 1: "run_frames (cascade_step render summarize) l s (reply_events mk r) n = Some (s1, es1, n1)"
    "spoken (sent_frames es1) = completed_replies [r]"
    "rc_messages (cs_ctx s1) = rc_messages (cs_ctx s) @ map (json_message ''assistant'') (heard_replies [r])"
    "said Bot (cs_transcript s1) = said Bot (cs_transcript s) @ concat (heard_replies [r])"
    using one_reply [OF assms] by blast
  obtain s2 es2 n2 where 2: "run_frames (cascade_step render summarize) l s1 (concat (map (reply_events mk) rs)) n1 = Some (s2, es2, n2)"
    "spoken (sent_frames es2) = completed_replies rs"
    "rc_messages (cs_ctx s2) = rc_messages (cs_ctx s1) @ map (json_message ''assistant'') (heard_replies rs)"
    "said Bot (cs_transcript s2) = said Bot (cs_transcript s1) @ concat (heard_replies rs)"
    using Cons by blast
  have "completed_replies (r # rs) = completed_replies [r] @ completed_replies rs"
    "heard_replies (r # rs) = heard_replies [r] @ heard_replies rs" by (simp_all add: completed_replies_def heard_replies_def)
  then show ?case using 1 2 by (simp add: run_frames_append)
qed

theorem replies_spoken_once_witness:
  "\<exists>s' es n'. run_frames (cascade_step (\<lambda>_. []) (\<lambda>_. None)) demo_cascade_link
      (cascade_new (rolling_context_new None []) summarizer_config_default)
      (concat (map (reply_events demo_at) [([lit ''he'', lit ''y''], False), ([lit ''so''], True)])) 9 = Some (s', es, n') \<and>
    spoken (sent_frames es) = [lit ''hey''] \<and> said Bot (cs_transcript s') = lit ''heyso''"
proof -
  have "downstream_wire demo_at" "l_next demo_cascade_link \<noteq> None" by (simp_all add: downstream_wire_def demo_cascade_link_def)
  from replies_spoken_once [OF this, of "\<lambda>_. []" "\<lambda>_. None" "cascade_new (rolling_context_new None []) summarizer_config_default"
      "[([lit ''he'', lit ''y''], False), ([lit ''so''], True)]" 9]
  show ?thesis by (simp add: completed_replies_def heard_replies_def cascade_new_def said_def) blast
qed

end
