(* ===== verification/Cascaded_Edge.thy ===== *)
theory Cascaded_Edge
  imports Turn_Lock Rolling_Context
begin

text \<open>
  The stages of the cascaded pipeline next to the carrier, \<^verbatim>\<open>flowcat-core/src/pipeline/cascaded.rs\<close>: the speech gate in front
  of the recognizer, the latch that drops audio of an interrupted reply, and the output stage.

  The output stage updates the turn lock's estimate directly; its calls of the notifier, whose interleavings are in
  \<open>Turn_Lock\<close>, are collected as the entry points called. The carrier's answer to a call is an argument, given the
  calls made so far.
\<close>

section \<open>The speech gate\<close>

record speech_gate =
  sg_open :: bool
  preroll :: "i16 list"
  preroll_cap :: nat
  sg_sample_rate :: u32

definition speech_gate_preroll_ms :: nat where
  "speech_gate_preroll_ms = 300"

definition speech_gate_new :: speech_gate where
  "speech_gate_new =
     \<lparr>sg_open = False, preroll = [], preroll_cap = 16000 * speech_gate_preroll_ms div 1000, sg_sample_rate = 16000\<rparr>"

definition gate_start :: "start_params \<Rightarrow> speech_gate \<Rightarrow> speech_gate" where
  "gate_start p s =
     s\<lparr>sg_sample_rate := audio_in_sample_rate p,
       preroll_cap := unat (audio_in_sample_rate p) * speech_gate_preroll_ms div 1000\<rparr>"

definition gate_on_interruption :: "speech_gate \<Rightarrow> speech_gate" where
  "gate_on_interruption s = s\<lparr>preroll := []\<rparr>"

fun keep_preroll :: "nat \<Rightarrow> i16 list \<Rightarrow> i16 list \<Rightarrow> i16 list" where
  "keep_preroll cap ring [] = ring"
| "keep_preroll cap ring (x # xs) = keep_preroll cap ((if length ring = cap then tl ring else ring) @ [x]) xs"

definition gate_process :: "(speech_gate, sess_env, sess_value) tap_step" where
  "gate_process l s env n =
     (case env_frame env of
        InputAudio a \<Rightarrow>
          if sg_open s then Some (s, push_env l env, n)
          else Some (s\<lparr>preroll := keep_preroll (preroll_cap s) (preroll s) (pcm a)\<rparr>, [], n)
      | UserStartedSpeaking \<Rightarrow>
          (let s1 = s\<lparr>sg_open := True, preroll := []\<rparr>
           in if preroll s \<noteq> []
              then let (es, n1) = push_down l n (InputAudio (mono (preroll s) (sg_sample_rate s)))
                   in Some (s1, es @ push_env l env, n1)
              else Some (s1, push_env l env, n))
      | UserStoppedSpeaking \<Rightarrow> Some (s\<lparr>sg_open := False\<rparr>, push_env l env, n)
      | _ \<Rightarrow> Some (s, push_env l env, n))"

section \<open>The stale-audio latch\<close>

record stale_latch =
  sl_generation :: u64
  sl_armed :: u64
  sl_cleared :: u64

definition stale_latch_new :: "u64 \<Rightarrow> stale_latch" where
  "stale_latch_new g = \<lparr>sl_generation = g, sl_armed = 0, sl_cleared = 0\<rparr>"

definition is_stale :: "stale_latch \<Rightarrow> bool" where
  "is_stale s \<longleftrightarrow> sl_cleared s < sl_armed s"

definition latch_clear :: "stale_latch \<Rightarrow> stale_latch" where
  "latch_clear s = s\<lparr>sl_cleared := max (sl_cleared s) (sl_generation s)\<rparr>"

text \<open>\<open>arm\<close> (by the reactor) and \<open>clear\<close> (by the sink) are a load and a \<open>fetch_max\<close> each; the detector bumps the
  generation. Each of the two runs one such operation at a time; the loaded value is what it carries.\<close>

datatype latch_event = Bump | ArmLoad | ArmMax | ClearLoad | ClearMax

record latch_run =
  lr_latch :: stale_latch
  lr_arm :: "u64 option"
  lr_clear :: "u64 option"

definition max_opt :: "u64 \<Rightarrow> u64 option \<Rightarrow> u64" where
  "max_opt a b = (case b of None \<Rightarrow> a | Some c \<Rightarrow> max a c)"

fun latch_step :: "latch_run \<Rightarrow> latch_event \<Rightarrow> latch_run" where
  "latch_step r Bump = r\<lparr>lr_latch := (lr_latch r)\<lparr>sl_generation := sl_generation (lr_latch r) + 1\<rparr>\<rparr>"
| "latch_step r ArmLoad = r\<lparr>lr_arm := Some (sl_generation (lr_latch r))\<rparr>"
| "latch_step r ArmMax = r\<lparr>lr_latch := (lr_latch r)\<lparr>sl_armed := max_opt (sl_armed (lr_latch r)) (lr_arm r)\<rparr>, lr_arm := None\<rparr>"
| "latch_step r ClearLoad = r\<lparr>lr_clear := Some (sl_generation (lr_latch r))\<rparr>"
| "latch_step r ClearMax = r\<lparr>lr_latch := (lr_latch r)\<lparr>sl_cleared := max_opt (sl_cleared (lr_latch r)) (lr_clear r)\<rparr>, lr_clear := None\<rparr>"

definition latch_run_of :: "stale_latch \<Rightarrow> latch_event list \<Rightarrow> latch_run" where
  "latch_run_of s evs = foldl latch_step \<lparr>lr_latch = s, lr_arm = None, lr_clear = None\<rparr> evs"

section \<open>The output stage\<close>

record 'r cascaded_output =
  co_resampler :: "'r resampler option"
  co_tts_rate :: u32
  co_carrier_rate :: u32
  co_live :: live_state
  co_end_tx :: "sess_frame list"
  co_turn_mute :: turn_mute
  co_notifier :: "notify_task list option"
  co_latch :: "stale_latch option"
  co_calls :: "carrier_call list"
  co_reads :: nat

definition cascaded_output_new :: "u32 \<Rightarrow> u32 \<Rightarrow> live_state \<Rightarrow> turn_mute \<Rightarrow> 'r cascaded_output" where
  "cascaded_output_new tts cr st tm =
     \<lparr>co_resampler = None, co_tts_rate = tts, co_carrier_rate = cr, co_live = st, co_end_tx = [], co_turn_mute = tm,
      co_notifier = None, co_latch = None, co_calls = [], co_reads = 0\<rparr>"

definition with_bot_notifier :: "'r cascaded_output \<Rightarrow> 'r cascaded_output" where
  "with_bot_notifier s = s\<lparr>co_notifier := Some []\<rparr>"

definition with_suppress_latch :: "stale_latch \<Rightarrow> 'r cascaded_output \<Rightarrow> 'r cascaded_output" where
  "with_suppress_latch latch s = s\<lparr>co_latch := Some latch\<rparr>"

definition co_ask :: "carrier_answers \<Rightarrow> 'r cascaded_output \<Rightarrow> carrier_call \<Rightarrow> 'r cascaded_output \<times> flowcat_error option" where
  "co_ask ans s c = (s\<lparr>co_calls := co_calls s @ [c]\<rparr>, ans (co_calls s) c)"

definition co_now :: "(nat \<Rightarrow> nat) \<Rightarrow> 'r cascaded_output \<Rightarrow> 'r cascaded_output \<times> nat" where
  "co_now clock s = (s\<lparr>co_reads := Suc (co_reads s)\<rparr>, clock (co_reads s))"

definition notify :: "notify_task \<Rightarrow> 'r cascaded_output \<Rightarrow> 'r cascaded_output" where
  "notify t s = s\<lparr>co_notifier := map_option (\<lambda>ts. ts @ [t]) (co_notifier s)\<rparr>"

definition fail_transport :: "'r cascaded_output \<Rightarrow> flowcat_error \<Rightarrow> 'r cascaded_output" where
  "fail_transport s e =
     (let was = lv_transport_dead (co_live s);
          s1 = s\<lparr>co_live := record_error (co_live s) e\<rparr>;
          newly_dead = (lv_transport_dead (co_live s1) \<and> \<not> was)
      in if newly_dead then s1\<lparr>co_end_tx := co_end_tx s1 @ [End None]\<rparr> else s1)"

definition sink_on_interruption :: "carrier_answers \<Rightarrow> 'r cascaded_output \<Rightarrow> 'r cascaded_output" where
  "sink_on_interruption ans s =
     (let s1 = s\<lparr>co_latch := map_option latch_clear (co_latch s)\<rparr>;
          (s2, r) = co_ask ans s1 CarrierClear;
          s3 = (case r of None \<Rightarrow> s2 | Some e \<Rightarrow> fail_transport s2 e);
          s4 = s3\<lparr>co_turn_mute := (co_turn_mute s3)\<lparr>tm_bot_until := None\<rparr>\<rparr>
      in notify IntrBump s4)"

definition sink_open :: "'r rubato \<Rightarrow> 'r cascaded_output \<Rightarrow> flowcat_error + 'r cascaded_output" where
  "sink_open R s =
     (case resampler_new R (co_tts_rate s) (co_carrier_rate s) of
        Inl e \<Rightarrow> Inl e
      | Inr rs \<Rightarrow> Inr (s\<lparr>co_resampler := Some rs\<rparr>))"

definition sink_audio ::
  "'r rubato \<Rightarrow> carrier_answers \<Rightarrow> (nat \<Rightarrow> nat) \<Rightarrow> 'r cascaded_output \<Rightarrow> audio_frame \<Rightarrow> 'r cascaded_output option" where
  "sink_audio R ans clock s a =
     (if lv_transport_dead (co_live s) then Some s
      else if (case co_latch s of None \<Rightarrow> False | Some latch \<Rightarrow> is_stale latch) then Some s
      else
        let chunk = chunk_of_frame a;
            (s0, now0) = co_now clock s;
            s1 = s0\<lparr>co_live := (co_live s0)\<lparr>lv_recorder := push_outbound now0 (lv_recorder (co_live s0)) chunk\<rparr>\<rparr>
        in case co_resampler s1 of
             None \<Rightarrow> None
           | Some rs \<Rightarrow>
               (case resampler_process R rs chunk of
                  (rs1, Inl e) \<Rightarrow> Some (s1\<lparr>co_resampler := Some rs1, co_live := record_error (co_live s1) e\<rparr>)
                | (rs1, Inr down) \<Rightarrow>
                    (let s2 = s1\<lparr>co_resampler := Some rs1\<rparr>
                     in if ac_pcm down = [] then Some s2
                        else case co_ask ans s2 (CarrierAudio down) of
                               (s3, Some e) \<Rightarrow> Some (fail_transport s3 e)
                             | (s3, None) \<Rightarrow>
                                 (let (s4, now) = co_now clock s3;
                                      k = length (ac_pcm down);
                                      tm = co_turn_mute s4;
                                      s5 = s4\<lparr>co_turn_mute := tm\<lparr>tm_bot_until :=
                                             Some (advance_playout (tm_bot_until tm) now k (co_carrier_rate s4))\<rparr>\<rparr>
                                  in Some (notify (NoteAudio k) s5)))))"

definition sink_end :: "(nat \<Rightarrow> nat) \<Rightarrow> 'r cascaded_output \<Rightarrow> 'r cascaded_output" where
  "sink_end clock s =
     (let til = tm_bot_until (co_turn_mute s);
          s1 = s\<lparr>co_turn_mute := (co_turn_mute s)\<lparr>tm_bot_until := None\<rparr>\<rparr>
      in case til of
           None \<Rightarrow> s1
         | Some t \<Rightarrow>
             (let (s2, now) = co_now clock s1
              in if now < t then s2\<lparr>co_calls := co_calls s2 @ [CarrierSleep (min (t - now) max_playout_drain)]\<rparr> else s2))"

definition sink_frame ::
  "'r rubato \<Rightarrow> carrier_answers \<Rightarrow> (nat \<Rightarrow> nat) \<Rightarrow> ('r cascaded_output, sess_env, sess_value) tap_step" where
  "sink_frame R ans clock l s env n =
     (let audio = (\<lambda>a. map_option (\<lambda>s1. (s1, [], n)) (sink_audio R ans clock s a))
      in case env_frame env of
           OutputAudio a \<Rightarrow> audio a
         | TtsAudio a ctx \<Rightarrow> audio a
         | End r \<Rightarrow> Some (sink_end clock s, push_env l env, n)
         | _ \<Rightarrow> Some (s, push_env l env, n))"

text \<open>What reaches the stage: a frame, an interruption, or a write of the latch by the reactor or the detector.\<close>

datatype (plugins only: code size) sink_event = SinkFrame sess_env | SinkInterrupted | SinkLatch "stale_latch option"

definition sink_step ::
  "'r rubato \<Rightarrow> carrier_answers \<Rightarrow> (nat \<Rightarrow> nat) \<Rightarrow> ('r cascaded_output, sink_event, sess_value) tap_step" where
  "sink_step R ans clock l s ev n =
     (case ev of
        SinkFrame env \<Rightarrow> sink_frame R ans clock l s env n
      | SinkInterrupted \<Rightarrow> Some (sink_on_interruption ans s, [], n)
      | SinkLatch latch \<Rightarrow> Some (s\<lparr>co_latch := latch\<rparr>, [], n))"

section \<open>What the gate lets through\<close>

definition last_samples :: "nat \<Rightarrow> i16 list \<Rightarrow> i16 list" where
  "last_samples k xs = drop (length xs - k) xs"

lemma keep_preroll_last:
  assumes "0 < cap" and "length ring \<le> cap"
  shows "keep_preroll cap ring xs = last_samples cap (ring @ xs)"
  using assms
proof (induction cap ring xs rule: keep_preroll.induct)
  case (2 cap ring x xs)
  show ?case
  proof (cases "length ring = cap")
    case True
    then obtain y ys where "ring = y # ys" using 2 by (cases ring) auto
    then show ?thesis using 2 True by (simp add: last_samples_def Suc_diff_le)
  qed (use 2 in \<open>simp add: last_samples_def\<close>)
qed (simp add: last_samples_def)

lemma last_samples_again: "last_samples k (last_samples k xs @ ys) = last_samples k (xs @ ys)"
  by (cases "length xs \<le> k") (simp_all add: last_samples_def add.commute)

lemma length_last_samples [simp]: "length (last_samples k xs) \<le> k"
  by (simp add: last_samples_def)

text \<open>An utterance as the detector delimits it: audio before the rising edge, audio up to the falling edge.\<close>

definition utterance :: "audio_frame list \<times> audio_frame list \<Rightarrow> sess_frame list" where
  "utterance u = map InputAudio (fst u) @ [UserStartedSpeaking] @ map InputAudio (snd u) @ [UserStoppedSpeaking]"

definition gated :: "nat \<Rightarrow> u32 \<Rightarrow> audio_frame list \<times> audio_frame list \<Rightarrow> sess_frame list" where
  "gated cap rate u =
     (let pre = last_samples cap (concat (map pcm (fst u)))
      in (if pre = [] then [] else [InputAudio (mono pre rate)]) @
         [UserStartedSpeaking] @ map InputAudio (snd u) @ [UserStoppedSpeaking])"

lemma gate_quiet:
  assumes "downstream_wire mk" and "\<not> sg_open s" and "0 < preroll_cap s" and "length (preroll s) \<le> preroll_cap s"
  shows "run_frames gate_process l s (map (\<lambda>a. mk (InputAudio a)) qs) n =
    Some (s\<lparr>preroll := last_samples (preroll_cap s) (preroll s @ concat (map pcm qs))\<rparr>, [], n)"
  using assms
proof (induction qs arbitrary: s)
  case (Cons q qs)
  let ?s1 = "s\<lparr>preroll := last_samples (preroll_cap s) (preroll s @ pcm q)\<rparr>"
  have "gate_process l s (mk (InputAudio q)) n = Some (?s1, [], n)"
    using Cons.prems by (simp add: gate_process_def downstream_wire_def keep_preroll_last)
  then show ?case using Cons.prems Cons.IH [of ?s1] by (simp add: last_samples_again [of _ "preroll s @ pcm q", simplified])
qed (simp add: last_samples_def)

lemma gate_speech:
  assumes "downstream_wire mk" and "sg_open s"
  shows "run_frames gate_process l s (map (\<lambda>a. mk (InputAudio a)) ss) n =
    Some (s, concat (map (\<lambda>a. push_env l (mk (InputAudio a))) ss), n)"
  using assms by (induction ss) (simp_all add: gate_process_def downstream_wire_def)

lemma sent_forwarded:
  assumes "downstream_wire mk" and "l_next l \<noteq> None"
  shows "sent_frames (concat (map (\<lambda>a. push_env l (mk (f a))) xs)) = map f xs"
  using assms by (induction xs) (simp_all add: downstream_wire_def)

lemma gate_edges:
  assumes "downstream_wire mk" and "l_next l \<noteq> None"
  shows "\<exists>es n'. gate_process l s (mk UserStartedSpeaking) n = Some (s\<lparr>sg_open := True, preroll := []\<rparr>, es, n') \<and>
      sent_frames es = (if preroll s = [] then [] else [InputAudio (mono (preroll s) (sg_sample_rate s))]) @ [UserStartedSpeaking]"
    "gate_process l s (mk UserStoppedSpeaking) n = Some (s\<lparr>sg_open := False\<rparr>, push_env l (mk UserStoppedSpeaking), n)"
proof -
  obtain es1 :: "sess_value eff list" and n1 where p: "push_down l n (InputAudio (mono (preroll s) (sg_sample_rate s))) = (es1, n1)"
    by fastforce
  have "sent_frames es1 = [InputAudio (mono (preroll s) (sg_sample_rate s))]"
    using sent_frames_push_down assms(2) p by (metis fst_conv)
  then show "\<exists>es n'. gate_process l s (mk UserStartedSpeaking) n = Some (s\<lparr>sg_open := True, preroll := []\<rparr>, es, n') \<and>
      sent_frames es = (if preroll s = [] then [] else [InputAudio (mono (preroll s) (sg_sample_rate s))]) @ [UserStartedSpeaking]"
    using assms p by (simp add: gate_process_def downstream_wire_def Let_def)
qed (use assms in \<open>simp add: gate_process_def downstream_wire_def\<close>)

lemma gate_one:
  assumes "downstream_wire mk" and "l_next l \<noteq> None" and "\<not> sg_open s" and "0 < preroll_cap s" and "preroll s = []"
  shows "\<exists>es n'. run_frames gate_process l s (map mk (utterance u)) n = Some (s, es, n') \<and>
    sent_frames es = gated (preroll_cap s) (sg_sample_rate s) u"
proof -
  let ?pre = "last_samples (preroll_cap s) (concat (map pcm (fst u)))"
  let ?s1 = "s\<lparr>preroll := ?pre\<rparr>"
  let ?s2 = "s\<lparr>sg_open := True\<rparr>"
  have 1: "run_frames gate_process l s (map (mk \<circ> InputAudio) (fst u)) n = Some (?s1, [], n)"
    using gate_quiet [OF assms(1,3,4)] assms(5) by (simp add: comp_def)
  obtain es n1 where 2: "gate_process l ?s1 (mk UserStartedSpeaking) n = Some (?s1\<lparr>sg_open := True, preroll := []\<rparr>, es, n1)"
    "sent_frames es = (if ?pre = [] then [] else [InputAudio (mono ?pre (sg_sample_rate s))]) @ [UserStartedSpeaking]"
    using gate_edges(1) [OF assms(1,2), of ?s1 n] by auto
  have s2: "?s1\<lparr>sg_open := True, preroll := []\<rparr> = ?s2" using assms(5) by simp
  have 3: "run_frames gate_process l ?s2 (map (mk \<circ> InputAudio) (snd u)) n1 =
      Some (?s2, concat (map (\<lambda>a. push_env l (mk (InputAudio a))) (snd u)), n1)"
    using gate_speech [OF assms(1), of ?s2] by (simp add: comp_def)
  have 4: "?s2\<lparr>sg_open := False\<rparr> = s" using assms(3) by simp
  have 5: "sent_frames (push_env l (mk UserStoppedSpeaking)) = [UserStoppedSpeaking]"
    using assms(1,2) by (simp add: downstream_wire_def)
  show ?thesis
    using 2(2) 5 sent_forwarded [OF assms(1,2), of InputAudio]
    by (simp add: utterance_def gated_def run_frames_append 1 2(1) s2 3 gate_edges(2) [OF assms(1,2)] 4 Let_def)
qed

lemma gate_utterances:
  assumes "downstream_wire mk" and "l_next l \<noteq> None" and "\<not> sg_open s" and "0 < preroll_cap s" and "preroll s = []"
  shows "\<exists>es n'. run_frames gate_process l s (map mk (concat (map utterance us))) n = Some (s, es, n') \<and>
    sent_frames es = concat (map (gated (preroll_cap s) (sg_sample_rate s)) us)"
proof (induction us arbitrary: n)
  case (Cons u us)
  obtain es1 n1 where 1: "run_frames gate_process l s (map mk (utterance u)) n = Some (s, es1, n1)"
    "sent_frames es1 = gated (preroll_cap s) (sg_sample_rate s) u" using gate_one [OF assms] by blast
  obtain es2 n2 where 2: "run_frames gate_process l s (map mk (concat (map utterance us))) n1 = Some (s, es2, n2)"
    "sent_frames es2 = concat (map (gated (preroll_cap s) (sg_sample_rate s)) us)" using Cons by blast
  show ?case using 1 2 by (simp add: run_frames_append)
qed simp

text \<open>C30. The recognizer gets each utterance whole, with the last 300 ms before it, and nothing else. For a gate started
  with an input rate at which 300 ms are at least one sample, and for any number of utterances, each with any amount
  of audio before the detector's rising edge: what leaves the gate is, for each, the last 300 ms of samples before the
  edge as one frame, the edge, the audio up to the falling edge unchanged, and that edge; and the gate is then as at the
  start, so nothing of one utterance leaks into the next.\<close>

theorem gate_passes_utterances:
  assumes "downstream_wire mk" and "l_next l \<noteq> None" and "0 < unat (audio_in_sample_rate p) * 300 div 1000"
  shows "\<exists>es n'. run_frames gate_process l (gate_start p speech_gate_new) (map mk (concat (map utterance us))) n =
      Some (gate_start p speech_gate_new, es, n') \<and>
    sent_frames es = concat (map (gated (unat (audio_in_sample_rate p) * 300 div 1000) (audio_in_sample_rate p)) us)"
  using gate_utterances [OF assms(1,2), of "gate_start p speech_gate_new" us n] assms(3)
  by (simp add: gate_start_def speech_gate_new_def speech_gate_preroll_ms_def)

definition demo_quiet :: "i16 list" where
  "demo_quiet = replicate 9000 5 @ [1, 2]"

theorem gate_passes_utterances_witness:
  "\<exists>es n'. run_frames gate_process demo_cascade_link (gate_start start_params_default speech_gate_new)
      (map demo_at (utterance ([mono demo_quiet 16000], [mono [4] 16000]))) 9 =
      Some (gate_start start_params_default speech_gate_new, es, n') \<and>
    sent_frames es = [InputAudio (mono (replicate 4798 5 @ [1, 2]) 16000), UserStartedSpeaking, InputAudio (mono [4] 16000),
      UserStoppedSpeaking]"
proof -
  have "downstream_wire demo_at" "l_next demo_cascade_link \<noteq> None" "0 < unat (audio_in_sample_rate start_params_default) * 300 div 1000"
    by (simp_all add: downstream_wire_def demo_cascade_link_def start_params_default_def)
  from gate_passes_utterances [OF this, of "[([mono demo_quiet 16000], [mono [4] 16000])]" 9]
  show ?thesis by (simp add: gated_def last_samples_def mono_def Let_def start_params_default_def demo_quiet_def drop_append)
qed

section \<open>A dead transport\<close>

fun carried :: "carrier_call list \<Rightarrow> audio_chunk list" where
  "carried [] = []"
| "carried (CarrierAudio c # cs) = c # carried cs"
| "carried (_ # cs) = carried cs"

lemma carried_append [simp]: "carried (xs @ ys) = carried xs @ carried ys"
  by (induction xs rule: carried.induct) simp_all

definition end_once :: "'r cascaded_output \<Rightarrow> bool" where
  "end_once s \<longleftrightarrow> co_end_tx s = (if lv_transport_dead (co_live s) then [End None] else [])"

text \<open>What every step keeps: one request to end per death, and after it no audio.\<close>

definition quiet_after :: "'r cascaded_output \<Rightarrow> 'r cascaded_output \<Rightarrow> bool" where
  "quiet_after s t \<longleftrightarrow> (end_once s \<longrightarrow> end_once t) \<and>
     (lv_transport_dead (co_live s) \<longrightarrow> lv_transport_dead (co_live t) \<and> carried (co_calls t) = carried (co_calls s))"

lemma quiet_after_trans: "quiet_after s t \<Longrightarrow> quiet_after t u \<Longrightarrow> quiet_after s u"
  by (auto simp: quiet_after_def)

lemma quiet_after_same:
  assumes "lv_transport_dead (co_live t) = lv_transport_dead (co_live s)" and "co_end_tx t = co_end_tx s"
    and "carried (co_calls t) = carried (co_calls s) \<or> \<not> lv_transport_dead (co_live s)"
  shows "quiet_after s t"
  using assms by (auto simp: quiet_after_def end_once_def)

lemma record_error_dead:
  "lv_transport_dead (record_error st e) \<longleftrightarrow> lv_transport_dead st \<or> (\<exists>t. e = ErrTransport t)"
  by (cases e) (simp_all add: record_error_def Let_def)

lemma quiet_fail: "quiet_after s (fail_transport s e)"
  by (auto simp: fail_transport_def quiet_after_def end_once_def Let_def record_error_dead)

lemma resampler_error_not_transport:
  "resampler_process R rs c = (rs1, Inl e) \<Longrightarrow> e \<noteq> ErrTransport t"
  by (auto simp: resampler_process_def Let_def split: if_splits option.splits prod.splits sum.splits)

lemma quiet_audio:
  assumes "sink_audio R ans clock s a = Some t"
  shows "quiet_after s t"
proof (cases "lv_transport_dead (co_live s) \<or> (case co_latch s of None \<Rightarrow> False | Some latch \<Rightarrow> is_stale latch)")
  case True
  then have "t = s" using assms by (auto simp: sink_audio_def split: if_splits)
  then show ?thesis by (simp add: quiet_after_def)
next
  case False
  define s1 where "s1 = (s\<lparr>co_reads := Suc (co_reads s)\<rparr>)\<lparr>co_live := (co_live s)\<lparr>lv_recorder :=
    push_outbound (clock (co_reads s)) (lv_recorder (co_live s)) (chunk_of_frame a)\<rparr>\<rparr>"
  obtain rs where rs: "co_resampler s = Some rs"
    using assms False by (cases "co_resampler s") (simp_all add: sink_audio_def co_now_def Let_def)
  obtain rs1 r where p: "resampler_process R rs (chunk_of_frame a) = (rs1, r)" by fastforce
  have live: "\<not> lv_transport_dead (co_live s)" using False by simp
  show ?thesis
  proof (cases r)
    case (Inl e)
    then have "t = s1\<lparr>co_resampler := Some rs1, co_live := record_error (co_live s1) e\<rparr>"
      using assms False rs p by (simp add: sink_audio_def co_now_def Let_def s1_def)
    moreover have "\<nexists>x. e = ErrTransport x" using resampler_error_not_transport p Inl by metis
    ultimately show ?thesis using live by (intro quiet_after_same) (simp_all add: record_error_dead s1_def)
  next
    case (Inr down)
    define s2 where "s2 = s1\<lparr>co_resampler := Some rs1\<rparr>"
    define s3 where "s3 = s2\<lparr>co_calls := co_calls s2 @ [CarrierAudio down]\<rparr>"
    have q2: "quiet_after s s2" and q3: "quiet_after s s3"
      using live by (intro quiet_after_same; simp add: s1_def s2_def s3_def)+
    have "ac_pcm down = [] \<and> t = s2 \<or>
        (\<exists>e. ans (co_calls s2) (CarrierAudio down) = Some e \<and> t = fail_transport s3 e) \<or>
        (co_live t = co_live s3 \<and> co_end_tx t = co_end_tx s3 \<and> co_calls t = co_calls s3)"
      using assms False rs p Inr
      by (auto simp: sink_audio_def co_now_def co_ask_def notify_def Let_def s1_def s2_def s3_def split: if_splits option.splits)
    then show ?thesis
      using q2 q3 quiet_fail [of s3] quiet_after_trans [of s s3] quiet_after_same [of t s3] by auto
  qed
qed

lemma quiet_interruption: "quiet_after s (sink_on_interruption ans s)"
proof -
  define s2 where "s2 = s\<lparr>co_latch := map_option latch_clear (co_latch s), co_calls := co_calls s @ [CarrierClear]\<rparr>"
  have q: "quiet_after s s2" by (rule quiet_after_same) (simp_all add: s2_def)
  obtain s3 where s3: "s3 = s2 \<or> (\<exists>e. s3 = fail_transport s2 e)" and t: "quiet_after s3 (sink_on_interruption ans s)"
  proof (cases "ans (co_calls s) CarrierClear")
    case None
    then show ?thesis
      by (intro that [of s2]) (simp_all add: sink_on_interruption_def co_ask_def notify_def Let_def s2_def quiet_after_same)
  next
    case (Some e)
    then show ?thesis
      by (intro that [of "fail_transport s2 e"])
        (auto simp: sink_on_interruption_def co_ask_def notify_def Let_def s2_def intro!: quiet_after_same)
  qed
  have "quiet_after s s3" using s3 q quiet_fail quiet_after_trans by blast
  then show ?thesis using t quiet_after_trans by blast
qed

lemma quiet_end: "quiet_after s (sink_end clock s)"
  by (rule quiet_after_same) (auto simp: sink_end_def co_now_def Let_def split: option.split)

lemma quiet_step:
  assumes "sink_step R ans clock l s ev n = Some (t, es, n')"
  shows "quiet_after s t"
proof (cases ev)
  case (SinkFrame env)
  have same: "quiet_after s s" by (simp add: quiet_after_def)
  from SinkFrame assms have "sink_frame R ans clock l s env n = Some (t, es, n')" by (simp add: sink_step_def)
  then have "(\<exists>a. sink_audio R ans clock s a = Some t) \<or> t = sink_end clock s \<or> t = s"
    by (cases "env_frame env") (auto simp: sink_frame_def Let_def)
  then show ?thesis using quiet_audio quiet_end same by blast
qed (use assms in \<open>auto simp: sink_step_def quiet_interruption intro: quiet_after_same\<close>)

lemma quiet_run: "run_frames (sink_step R ans clock) l s evs n = Some (t, es, n') \<Longrightarrow> quiet_after s t"
proof (induction evs arbitrary: s n es)
  case (Cons ev evs)
  then obtain s1 es1 n1 es2 where "sink_step R ans clock l s ev n = Some (s1, es1, n1)"
    "run_frames (sink_step R ans clock) l s1 evs n1 = Some (t, es2, n')"
    by (auto split: Option.bind_splits)
  then show ?case using quiet_step Cons.IH quiet_after_trans by blast
qed (simp add: quiet_after_def)

text \<open>A stage that has started has a resampler, and then no frame makes it panic.\<close>

lemma fail_transport_resampler [simp]: "co_resampler (fail_transport s e) = co_resampler s"
  by (simp add: fail_transport_def Let_def)

lemma sink_step_total:
  assumes "co_resampler s \<noteq> None"
  shows "\<exists>t es n'. sink_step R ans clock l s ev n = Some (t, es, n') \<and> co_resampler t \<noteq> None"
proof -
  have audio: "\<exists>t. sink_audio R ans clock s a = Some t \<and> co_resampler t \<noteq> None" for a
    using assms by (auto simp: sink_audio_def co_now_def co_ask_def notify_def Let_def split: option.split prod.split sum.split)
  have intr: "co_resampler (sink_on_interruption ans s) = co_resampler s"
    by (simp add: sink_on_interruption_def co_ask_def notify_def Let_def split: option.split)
  have fin: "co_resampler (sink_end clock s) = co_resampler s"
    by (simp add: sink_end_def co_now_def Let_def split: option.split)
  show ?thesis
  proof (cases ev)
    case (SinkFrame env)
    show ?thesis
      using assms fin audio
      by (cases "env_frame env") (auto simp: SinkFrame sink_step_def sink_frame_def Let_def dest: spec)
  qed (use assms intr in \<open>simp_all add: sink_step_def\<close>)
qed

lemma sink_run_total:
  "co_resampler s \<noteq> None \<Longrightarrow> \<exists>t es n'. run_frames (sink_step R ans clock) l s evs n = Some (t, es, n') \<and> co_resampler t \<noteq> None"
proof (induction evs arbitrary: s n)
  case (Cons ev evs)
  obtain s1 es1 n1 where 1: "sink_step R ans clock l s ev n = Some (s1, es1, n1)" "co_resampler s1 \<noteq> None"
    using sink_step_total [OF Cons.prems] by blast
  then show ?case using Cons.IH [OF 1(2), of n1] by auto
qed auto

text \<open>The ways the stage can be built: with or without the notifier and the latch of duplex mode.\<close>

definition sink_built :: "'r cascaded_output \<Rightarrow> 'r cascaded_output \<Rightarrow> stale_latch \<Rightarrow> bool" where
  "sink_built s0 s latch \<longleftrightarrow> s \<in> {s0, with_bot_notifier s0, with_suppress_latch latch s0, with_suppress_latch latch (with_bot_notifier s0)}"

text \<open>C31. A carrier that goes away ends the call once. The stage is built in any of its ways and started, so that
  it has its resampler. Whatever frames, interruptions and latch writes then reach it and however the carrier answers:
  it does not panic; it has asked for the end of the call exactly once if the transport is dead, and not at all
  otherwise; and from the moment the transport is dead no further audio is handed to it.\<close>

theorem dead_transport_ends_once:
  fixes R :: "'r rubato"
  assumes "sink_built (cascaded_output_new tts cr (live_state_new cr) tm) s latch" and "sink_open R s = Inr s0"
  shows "\<exists>s1 es1 n1 s2 es2 n2.
    run_frames (sink_step R ans clock) l s0 xs n = Some (s1, es1, n1) \<and>
    run_frames (sink_step R ans clock) l s1 ys n1 = Some (s2, es2, n2) \<and>
    co_end_tx s2 = (if lv_transport_dead (co_live s2) then [End None] else []) \<and>
    (lv_transport_dead (co_live s1) \<longrightarrow> lv_transport_dead (co_live s2) \<and> carried (co_calls s2) = carried (co_calls s1))"
proof -
  have opn: "co_resampler s0 \<noteq> None" and once: "end_once s0"
    using assms by (auto simp: sink_open_def sink_built_def end_once_def cascaded_output_new_def live_state_new_def
        with_bot_notifier_def with_suppress_latch_def split: sum.splits)
  obtain s1 es1 n1 where 1: "run_frames (sink_step R ans clock) l s0 xs n = Some (s1, es1, n1)" "co_resampler s1 \<noteq> None"
    using sink_run_total [OF opn] by blast
  obtain s2 es2 n2 where 2: "run_frames (sink_step R ans clock) l s1 ys n1 = Some (s2, es2, n2)"
    using sink_run_total [OF 1(2)] by blast
  have "end_once s2" using once quiet_run [OF 1(1)] quiet_run [OF 2] by (simp add: quiet_after_def)
  moreover have "lv_transport_dead (co_live s1) \<longrightarrow> lv_transport_dead (co_live s2) \<and> carried (co_calls s2) = carried (co_calls s1)"
    using quiet_run [OF 2] by (simp add: quiet_after_def)
  ultimately show ?thesis using 1(1) 2 by (auto simp: end_once_def)
qed

definition demo_sink_audio :: "i16 \<Rightarrow> sink_event" where
  "demo_sink_audio x = SinkFrame (demo_at (OutputAudio (mono [x] 8000)))"

text \<open>The carrier takes one chunk and is gone.\<close>

definition demo_carrier :: carrier_answers where
  "demo_carrier cs c = (if cs = [] then None else Some (ErrTransport []))"

theorem dead_transport_ends_once_witness:
  "\<exists>s0 s1 es1 n1 s2 es2 n2.
    sink_open demo_rubato (cascaded_output_new 8000 8000 (live_state_new 8000) (turn_mute_new 0)) = Inr s0 \<and>
    run_frames (sink_step demo_rubato demo_carrier (\<lambda>k. k)) demo_cascade_link s0 [demo_sink_audio 1, demo_sink_audio 2] 9 =
      Some (s1, es1, n1) \<and>
    run_frames (sink_step demo_rubato demo_carrier (\<lambda>k. k)) demo_cascade_link s1 [demo_sink_audio 3, SinkInterrupted] n1 =
      Some (s2, es2, n2) \<and>
    lv_transport_dead (co_live s1) \<and> map ac_pcm (carried (co_calls s1)) = [[1], [2]] \<and>
    map ac_pcm (carried (co_calls s2)) = [[1], [2]] \<and> co_end_tx s2 = [End None]"
proof -
  let ?s = "cascaded_output_new 8000 8000 (live_state_new 8000) (turn_mute_new 0) :: nat cascaded_output"
  let ?step = "sink_step demo_rubato demo_carrier (\<lambda>k. k)"
  define s0 where "s0 = ?s\<lparr>co_resampler := Some \<lparr>from_rate = 8000, to_rate = 8000, rs_inner = None, in_buf = []\<rparr>\<rparr>"
  have b: "sink_built ?s ?s (stale_latch_new 0)" by (simp add: sink_built_def)
  have o: "sink_open demo_rubato ?s = Inr s0"
    by (simp add: sink_open_def resampler_new_def s0_def cascaded_output_new_def)
  obtain s1 es1 n1 s2 es2 n2 where r: "run_frames ?step demo_cascade_link s0 [demo_sink_audio 1, demo_sink_audio 2] 9 = Some (s1, es1, n1)"
    "run_frames ?step demo_cascade_link s1 [demo_sink_audio 3, SinkInterrupted] n1 = Some (s2, es2, n2)"
    and e: "co_end_tx s2 = (if lv_transport_dead (co_live s2) then [End None] else [])"
    "lv_transport_dead (co_live s1) \<longrightarrow> lv_transport_dead (co_live s2) \<and> carried (co_calls s2) = carried (co_calls s1)"
    using dead_transport_ends_once [OF b o, of demo_carrier "\<lambda>k. k" demo_cascade_link "[demo_sink_audio 1, demo_sink_audio 2]" 9
      "[demo_sink_audio 3, SinkInterrupted]"] by blast
  have d: "lv_transport_dead (co_live s1)" "map ac_pcm (carried (co_calls s1)) = [[1], [2]]"
    using r(1)
    by (auto simp: sink_step_def sink_frame_def sink_audio_def demo_sink_audio_def demo_carrier_def s0_def cascaded_output_new_def
        live_state_new_def co_now_def co_ask_def notify_def fail_transport_def record_error_def resampler_process_def
        chunk_of_frame_def mono_def Let_def)
  show ?thesis by (intro exI conjI, rule o, rule r(1), rule r(2)) (use d e in simp_all)
qed

section \<open>The latch settles\<close>

definition bumps :: "latch_event list \<Rightarrow> nat" where
  "bumps evs = count_list evs Bump"

definition opt_le :: "u64 option \<Rightarrow> u64 \<Rightarrow> bool" where
  "opt_le a g = (case a of None \<Rightarrow> True | Some x \<Rightarrow> x \<le> g)"

text \<open>Nothing in the latch or in flight is ahead of the generation, as long as that has not wrapped.\<close>

definition latch_ok :: "latch_run \<Rightarrow> bool" where
  "latch_ok r \<longleftrightarrow> (let g = sl_generation (lr_latch r) in
     sl_armed (lr_latch r) \<le> g \<and> sl_cleared (lr_latch r) \<le> g \<and> opt_le (lr_arm r) g \<and> opt_le (lr_clear r) g)"

lemma u64_le_Suc: "unat (g :: u64) + 1 < 2 ^ 64 \<Longrightarrow> unat (g + 1) = unat g + 1 \<and> (x \<le> g \<longrightarrow> x \<le> g + 1)"
  by (simp add: unat_word_ariths word_le_nat_alt)

lemma latch_step_ok:
  assumes "latch_ok r" and "unat (sl_generation (lr_latch r)) + bumps [ev] < 2 ^ 64"
  shows "latch_ok (latch_step r ev) \<and>
    unat (sl_generation (lr_latch (latch_step r ev))) = unat (sl_generation (lr_latch r)) + bumps [ev]"
proof (cases ev)
  case Bump
  then have "unat (sl_generation (lr_latch r)) + 1 < 2 ^ 64" using assms(2) by (simp add: bumps_def)
  note le = u64_le_Suc [OF this]
  show ?thesis using assms(1) Bump le by (auto simp: latch_ok_def bumps_def opt_le_def Let_def split: option.splits)
qed (use assms(1) in \<open>auto simp: latch_ok_def bumps_def opt_le_def max_opt_def Let_def split: option.splits\<close>)

lemma latch_run_ok:
  assumes "latch_ok r" and "unat (sl_generation (lr_latch r)) + bumps evs < 2 ^ 64"
  shows "latch_ok (foldl latch_step r evs)"
  using assms
proof (induction evs arbitrary: r)
  case (Cons ev evs)
  have "unat (sl_generation (lr_latch r)) + bumps [ev] < 2 ^ 64" using Cons.prems(2) by (simp add: bumps_def split: if_splits)
  note step = latch_step_ok [OF Cons.prems(1) this]
  show ?case using Cons.IH [of "latch_step r ev"] step Cons.prems(2) by (simp add: bumps_def split: if_splits)
qed simp

lemma latch_run_gen:
  "bumps evs = 0 \<Longrightarrow> sl_generation (lr_latch (foldl latch_step r evs)) = sl_generation (lr_latch r)"
proof (induction evs arbitrary: r)
  case (Cons ev evs)
  then show ?case by (cases ev) (simp_all add: bumps_def)
qed simp

lemma latch_run_clear:
  "set evs \<subseteq> {ArmLoad, ArmMax} \<Longrightarrow> lr_clear (foldl latch_step r evs) = lr_clear r"
  by (induction evs arbitrary: r) auto

lemma latch_run_cleared: "sl_cleared (lr_latch r) \<le> sl_cleared (lr_latch (foldl latch_step r evs))"
proof (induction evs arbitrary: r)
  case (Cons ev evs)
  have "sl_cleared (lr_latch r) \<le> sl_cleared (lr_latch (latch_step r ev))"
    by (cases ev) (auto simp: max_opt_def split: option.split)
  then show ?case using Cons [of "latch_step r ev"] by simp
qed simp

text \<open>C32. The order in which the reactor and the sink are scheduled does not matter: once the sink has acknowledged an
  interruption (loaded the generation after the last barge-in and written it), bot audio passes, whatever loads and
  writes of the reactor come before, between and after. A late \<open>arm\<close> cannot silence the bot for the rest of the call.\<close>

theorem stale_latch_settles:
  assumes "evs = pre @ ClearLoad # mid @ ClearMax # post" and "bumps evs < 2 ^ 64"
    and "set mid \<subseteq> {ArmLoad, ArmMax}" and "bumps post = 0"
  shows "\<not> is_stale (lr_latch (latch_run_of (stale_latch_new 0) evs))"
proof -
  let ?r0 = "\<lparr>lr_latch = stale_latch_new 0, lr_arm = None, lr_clear = None\<rparr>"
  define r1 where "r1 = foldl latch_step ?r0 pre"
  define r2 where "r2 = foldl latch_step (latch_step r1 ClearLoad) mid"
  define r3 where "r3 = latch_step r2 ClearMax"
  define r4 where "r4 = foldl latch_step r3 post"
  have final: "latch_run_of (stale_latch_new 0) evs = r4"
    by (simp add: latch_run_of_def assms(1) r1_def r2_def r3_def r4_def)
  have "bumps mid = 0" using assms(3) by (auto simp: bumps_def count_list_0_iff)
  then have gen: "sl_generation (lr_latch r2) = sl_generation (lr_latch r1)" by (simp add: r2_def latch_run_gen)
  have "lr_clear r2 = Some (sl_generation (lr_latch r1))" using latch_run_clear [OF assms(3)] by (simp add: r2_def)
  then have "sl_generation (lr_latch r3) \<le> sl_cleared (lr_latch r3)" using gen by (simp add: r3_def max_opt_def)
  also have "sl_cleared (lr_latch r3) \<le> sl_cleared (lr_latch r4)" by (simp add: r4_def latch_run_cleared)
  finally have "sl_generation (lr_latch r4) \<le> sl_cleared (lr_latch r4)" using assms(4) by (simp add: r4_def latch_run_gen)
  moreover have "latch_ok r4"
  proof -
    have "latch_ok ?r0" by (simp add: latch_ok_def opt_le_def stale_latch_new_def)
    then have "latch_ok (foldl latch_step ?r0 evs)" using assms(2) by (intro latch_run_ok) (simp_all add: stale_latch_new_def)
    then show ?thesis using final by (simp add: latch_run_of_def)
  qed
  ultimately show ?thesis by (auto simp: final is_stale_def latch_ok_def Let_def)
qed

theorem stale_latch_settles_witness:
  "is_stale (lr_latch (latch_run_of (stale_latch_new 0) [Bump, ArmLoad, ArmMax])) \<and>
   \<not> is_stale (lr_latch (latch_run_of (stale_latch_new 0) [Bump, ArmLoad, ClearLoad, ArmMax, ClearMax, ArmLoad, ArmMax]))"
proof
  show "is_stale (lr_latch (latch_run_of (stale_latch_new 0) [Bump, ArmLoad, ArmMax]))"
    by (simp add: is_stale_def latch_run_of_def stale_latch_new_def max_opt_def)
  show "\<not> is_stale (lr_latch (latch_run_of (stale_latch_new 0) [Bump, ArmLoad, ClearLoad, ArmMax, ClearMax, ArmLoad, ArmMax]))"
    by (rule stale_latch_settles [of _ "[Bump, ArmLoad]" "[ArmMax]" "[ArmLoad, ArmMax]"]) (simp_all add: bumps_def)
qed

end
