(* ===== verification/Service_Adapters.thy ===== *)
theory Service_Adapters
  imports Realtime_Session Rolling_Context
begin

text \<open>
  The processors that lift a speech recognizer, a language model and a speech synthesizer into the pipeline,
  \<^verbatim>\<open>flowcat-core/src/service/adapters.rs\<close>, over the service traits of \<^verbatim>\<open>service/mod.rs\<close>.

  The services are arguments: records of functions over a state of their own. A streamed response is the list of its
  frames; between two of them the adapter reads the barge-in generation, whose readings are an argument too.
\<close>

section \<open>The services\<close>

record 's stt_service =
  stt_start :: "'s \<Rightarrow> start_params \<Rightarrow> 's \<times> flowcat_error option"
  run_stt :: "'s \<Rightarrow> audio_frame \<Rightarrow> 's \<times> (flowcat_error + sess_frame list)"
  stt_flush :: "'s \<Rightarrow> 's \<times> (flowcat_error + sess_frame list)"
  set_muted :: "'s \<Rightarrow> bool \<Rightarrow> 's"

record 's tts_service =
  tts_start :: "'s \<Rightarrow> start_params \<Rightarrow> 's \<times> flowcat_error option"
  run_tts :: "'s \<Rightarrow> ustr \<Rightarrow> 's \<times> (flowcat_error + sess_frame list)"

record 's llm_service =
  llm_start :: "'s \<Rightarrow> start_params \<Rightarrow> 's \<times> flowcat_error option"
  run_llm :: "'s \<Rightarrow> sess_value llm_context \<Rightarrow> 's \<times> (flowcat_error + sess_frame list)"
  set_tools :: "'s \<Rightarrow> tool_decl list \<Rightarrow> 's"

section \<open>Recognition\<close>

record 's stt_processor =
  sp_svc :: 's
  pending_audio_seconds :: f64

definition stt_processor_new :: "'s \<Rightarrow> 's stt_processor" where
  "stt_processor_new svc = \<lparr>sp_svc = svc, pending_audio_seconds = FNum 0\<rparr>"

definition audio_seconds :: "audio_frame \<Rightarrow> f64" where
  "audio_seconds a =
     fl_div f64_fmt (fl_div f64_fmt (f64_of_nat (length (pcm a))) (f64_of_nat (unat (max (num_channels a) 1))))
       (f64_of_nat (unat (max (af_sample_rate a) 1)))"

text \<open>The frames a service returned, or its error reported upstream.\<close>

definition forward_result :: "link \<Rightarrow> u64 \<Rightarrow> string \<Rightarrow> flowcat_error + sess_frame list \<Rightarrow> sess_value eff list \<times> u64" where
  "forward_result l n what r =
     (case r of
        Inr fs \<Rightarrow> push_downs l n fs
      | Inl e \<Rightarrow> push_error l n (lit what @ lit '': '' @ error_text e) False)"

definition stt_process :: "'s stt_service \<Rightarrow> ('s stt_processor, sess_env, sess_value) tap_step" where
  "stt_process S l s env n =
     (case env_frame env of
        InputAudio a \<Rightarrow>
          (let secs = fl_add f64_fmt (pending_audio_seconds s) (audio_seconds a);
               (es1, n1, left) = (if fl_ge secs (FNum 1)
                 then let (es, k) = push_down l n (Metrics [SttUsage ''stt'' secs]) in (es, k, FNum 0)
                 else ([], n, secs));
               (svc, r) = run_stt S (sp_svc s) a;
               (es2, n2) = forward_result l n1 ''stt'' r
           in Some (s\<lparr>sp_svc := svc, pending_audio_seconds := left\<rparr>, es1 @ es2, n2))
      | UserStoppedSpeaking \<Rightarrow>
          (let (svc, r) = stt_flush S (sp_svc s);
               (es, n1) = forward_result l n ''stt flush'' r
           in Some (s\<lparr>sp_svc := svc\<rparr>, es @ push_env l env, n1))
      | SttMute muted \<Rightarrow> Some (s\<lparr>sp_svc := set_muted S (sp_svc s) muted\<rparr>, push_env l env, n)
      | _ \<Rightarrow> Some (s, push_env l env, n))"

section \<open>The language model\<close>

record 's llm_processor =
  lp_svc :: 's
  lp_flag :: bool
  lp_reads :: nat

definition llm_processor_new :: "'s \<Rightarrow> 's llm_processor" where
  "llm_processor_new svc = \<lparr>lp_svc = svc, lp_flag = False, lp_reads = 0\<rparr>"

definition llm_with_interrupt_flag :: "'s llm_processor \<Rightarrow> 's llm_processor" where
  "llm_with_interrupt_flag s = s\<lparr>lp_flag := True\<rparr>"

text \<open>Consuming the stream: the frames pushed, whether a barge-in cancelled it, and the readings taken.\<close>

fun llm_stream :: "(nat \<Rightarrow> u64) \<Rightarrow> u64 option \<Rightarrow> nat \<Rightarrow> sess_frame list \<Rightarrow> sess_frame list \<times> bool \<times> nat" where
  "llm_stream gens start_gen k [] = ([], False, k)"
| "llm_stream gens None k (f # fs) = (let (ps, c, k') = llm_stream gens None k fs in (f # ps, c, k'))"
| "llm_stream gens (Some g0) k (f # fs) =
     (if gens k \<noteq> g0 then ([], True, Suc k)
      else let (ps, c, k') = llm_stream gens (Some g0) (Suc k) fs in (f # ps, c, k'))"

definition llm_processor_run ::
  "'s llm_service \<Rightarrow> (nat \<Rightarrow> u64) \<Rightarrow> link \<Rightarrow> 's llm_processor \<Rightarrow> sess_value llm_context \<Rightarrow> u64 \<Rightarrow>
     's llm_processor \<times> sess_value eff list \<times> u64" where
  "llm_processor_run L gens l s ctx n =
     (let start_gen = (if lp_flag s then Some (gens (lp_reads s)) else None);
          k0 = (if lp_flag s then Suc (lp_reads s) else lp_reads s);
          (svc, r) = run_llm L (lp_svc s) ctx
      in case r of
           Inl e \<Rightarrow>
             (let (es, n1) = push_error l n (lit ''llm: '' @ error_text e) False
              in (s\<lparr>lp_svc := svc, lp_reads := k0\<rparr>, es, n1))
         | Inr stream \<Rightarrow>
             (let (pushed, cancelled, k1) = llm_stream gens start_gen k0 stream;
                  (es, n1) = push_downs l n (pushed @ (if cancelled then [LlmResponseEnd] else []))
              in (s\<lparr>lp_svc := svc, lp_reads := k1\<rparr>, es, n1)))"

definition settings_tools :: "(json \<Rightarrow> tool_decl option) \<Rightarrow> sess_value \<Rightarrow> tool_decl list option" where
  "settings_tools parse settings =
     (case settings of
        JsonValue j \<Rightarrow> (case jget j (lit ''tools'') of Some (JArr ts) \<Rightarrow> Some (List.map_filter parse ts) | _ \<Rightarrow> None)
      | _ \<Rightarrow> None)"

definition llm_process ::
  "'s llm_service \<Rightarrow> (json \<Rightarrow> tool_decl option) \<Rightarrow> (nat \<Rightarrow> u64) \<Rightarrow> ('s llm_processor, sess_env, sess_value) tap_step" where
  "llm_process L parse gens l s env n =
     (case env_frame env of
        LlmContext ctx \<Rightarrow> Some (llm_processor_run L gens l s ctx n)
      | Transcription t uid lang True \<Rightarrow>
          Some (llm_processor_run L gens l s \<lparr>messages = [JsonValue (json_message ''user'' t)], ctx_tools = []\<rparr> n)
      | UpdateSettings Llm settings \<Rightarrow>
          Some (case settings_tools parse settings of
                  Some ts \<Rightarrow> s\<lparr>lp_svc := set_tools L (lp_svc s) ts\<rparr>
                | None \<Rightarrow> s, push_env l env, n)
      | _ \<Rightarrow> Some (s, push_env l env, n))"

section \<open>Synthesis\<close>

definition playable :: "sess_frame \<Rightarrow> sess_frame" where
  "playable f = (case f of TtsAudio a ctx \<Rightarrow> OutputAudio a | other \<Rightarrow> other)"

definition tts_run :: "'s tts_service \<Rightarrow> link \<Rightarrow> 's \<Rightarrow> ustr \<Rightarrow> u64 \<Rightarrow> 's \<times> sess_value eff list \<times> u64" where
  "tts_run T l svc t n =
     (case run_tts T svc t of
        (svc1, Inr fs) \<Rightarrow>
          (let (es, n1) = push_downs l n (Metrics [TtsUsage ''tts'' (of_nat (length t))] # map playable fs)
           in (svc1, es, n1))
      | (svc1, Inl e) \<Rightarrow>
          (let (es, n1) = push_error l n (lit ''tts: '' @ error_text e) False
           in (svc1, es, n1)))"

definition tts_process :: "'s tts_service \<Rightarrow> ('s, sess_env, sess_value) tap_step" where
  "tts_process T l svc env n =
     (case env_frame env of
        TtsSpeak t b \<Rightarrow> Some (tts_run T l svc t n)
      | LlmText t \<Rightarrow> Some (tts_run T l svc t n)
      | _ \<Rightarrow> Some (svc, push_env l env, n))"

section \<open>A barge-in closes the response it cuts\<close>

lemma llm_stream_prefix:
  "llm_stream gens g k fs = (ps, c, k') \<Longrightarrow> \<exists>j. ps = take j fs \<and> (if c then j < length fs else j = length fs)"
proof (induction gens g k fs arbitrary: ps rule: llm_stream.induct)
  case (2 gens k f fs)
  then obtain qs j where "ps = f # qs" "qs = take j fs" "if c then j < length fs else j = length fs"
    by (auto simp: Let_def split: prod.splits)
  then show ?case by (intro exI [of _ "Suc j"]) auto
next
  case (3 gens g0 k f fs)
  show ?case
  proof (cases "gens k = g0")
    case True
    then obtain qs j where "ps = f # qs" "qs = take j fs" "if c then j < length fs else j = length fs"
      using 3 by (auto simp: Let_def split: prod.splits)
    then show ?thesis by (intro exI [of _ "Suc j"]) auto
  qed (use 3 in auto)
qed auto

definition is_framing :: "sess_frame \<Rightarrow> bool" where
  "is_framing f \<longleftrightarrow> f = LlmResponseStart \<or> f = LlmResponseEnd"

lemma llm_processor_run_frames:
  assumes "run_llm L (lp_svc s) ctx = (svc, Inr (body @ [LlmResponseEnd]))" and "l_next l \<noteq> None"
  shows "\<exists>p es n1 j. llm_processor_run L gens l s ctx n = (p, es, n1) \<and> sent_frames es = take j body @ [LlmResponseEnd]"
proof -
  let ?g = "if lp_flag s then Some (gens (lp_reads s)) else None"
  let ?k = "if lp_flag s then Suc (lp_reads s) else lp_reads s"
  obtain ps c k1 where st: "llm_stream gens ?g ?k (body @ [LlmResponseEnd]) = (ps, c, k1)" by (metis prod_cases3)
  obtain j where j: "ps = take j (body @ [LlmResponseEnd])" "if c then j < length (body @ [LlmResponseEnd]) else j = length (body @ [LlmResponseEnd])"
    using llm_stream_prefix [OF st] by blast
  obtain es :: "sess_value eff list" and n1 where p: "push_downs l n (ps @ (if c then [LlmResponseEnd] else [])) = (es, n1)" by fastforce
  have sent: "sent_frames es = ps @ (if c then [LlmResponseEnd] else [])"
    using sent_frames_push_downs assms(2) p by (metis fst_conv)
  have run: "llm_processor_run L gens l s ctx n = (s\<lparr>lp_svc := svc, lp_reads := k1\<rparr>, es, n1)"
    using st p assms(1) by (simp add: llm_processor_run_def Let_def)
  have "sent_frames es = take (min j (length body)) body @ [LlmResponseEnd]" using sent j by (cases c) auto
  then show ?thesis using run by blast
qed

lemma assistant_total: "\<exists>s' es n'. assistant_process l a env n = Some (s', es, n')"
  by (cases "env_frame env") (simp_all add: assistant_process_def Let_def case_prod_unfold)

lemma assistant_closes:
  assumes "downstream_wire mk"
  shows "\<exists>s' es n'. run_frames assistant_process l a (map mk (fs @ [LlmResponseEnd])) n = Some (s', es, n') \<and>
    \<not> in_response s' \<and> cs_buffer s' = []"
proof -
  obtain s1 es1 n1 where 1: "run_frames assistant_process l a (map mk fs) n = Some (s1, es1, n1)"
    using run_frames_total [of assistant_process l] assistant_total by blast
  obtain s2 es2 n2 where "assistant_process l s1 (mk LlmResponseEnd) n1 = Some (s2, es2, n2)" "\<not> in_response s2" "cs_buffer s2 = []"
    using assms by (cases "cs_buffer s1 = []")
      (auto simp: assistant_process_def downstream_wire_def commit_reply_def Let_def case_prod_unfold)
  then show ?thesis using 1 by (simp add: run_frames_append)
qed

text \<open>C33. A barge-in cannot leave the assistant in the middle of a reply. A model that frames its response (a start, texts
  and calls, an end) is run with the barge-in generation read between any two frames: what leaves the adapter is a
  prefix of the response, closed by exactly one end marker, and the assistant aggregator behind it ends outside any
  response with an empty buffer, ready for the next turn.\<close>

theorem barge_in_closes_response:
  assumes "run_llm L (lp_svc s) ctx = (svc, Inr (LlmResponseStart # body @ [LlmResponseEnd]))"
    and "\<not> list_ex is_framing body" and "downstream_wire mk" and "l_next l \<noteq> None"
  shows "\<exists>p es n1 i. llm_process L parse gens l s (mk (LlmContext ctx)) n = Some (p, es, n1) \<and>
    sent_frames es = take i (LlmResponseStart # body) @ [LlmResponseEnd] \<and> count_list (sent_frames es) LlmResponseEnd = 1 \<and>
    (\<exists>a' es' n2. run_frames assistant_process l a (map mk (sent_frames es)) n1 = Some (a', es', n2) \<and>
       \<not> in_response a' \<and> cs_buffer a' = [])"
proof -
  have "run_llm L (lp_svc s) ctx = (svc, Inr ((LlmResponseStart # body) @ [LlmResponseEnd]))" using assms(1) by simp
  from llm_processor_run_frames [OF this assms(4), of gens n] obtain p es n1 i
    where run: "llm_processor_run L gens l s ctx n = (p, es, n1)" and sent: "sent_frames es = take i (LlmResponseStart # body) @ [LlmResponseEnd]"
    by blast
  have "LlmResponseEnd \<notin> set (take i (LlmResponseStart # body))"
    using assms(2) set_take_subset [of i "LlmResponseStart # body"] by (auto simp: list_ex_iff is_framing_def)
  then have one: "count_list (sent_frames es) LlmResponseEnd = 1" by (simp add: sent count_list_0_iff)
  have step: "llm_process L parse gens l s (mk (LlmContext ctx)) n = Some (p, es, n1)"
    using run assms(3) by (simp add: llm_process_def downstream_wire_def)
  have "\<exists>a' es' n2. run_frames assistant_process l a (map mk (sent_frames es)) n1 = Some (a', es', n2) \<and>
      \<not> in_response a' \<and> cs_buffer a' = []"
    using assistant_closes [OF assms(3), of l a "take i (LlmResponseStart # body)" n1] unfolding sent .
  then show ?thesis using step sent one by blast
qed

definition demo_llm :: "unit llm_service" where
  "demo_llm = \<lparr>llm_start = (\<lambda>s p. (s, None)),
     run_llm = (\<lambda>s c. (s, Inr [LlmResponseStart, LlmText (lit ''a''), LlmText (lit ''b''), LlmResponseEnd])), set_tools = (\<lambda>s ts. s)\<rparr>"

theorem barge_in_closes_response_witness:
  "\<exists>p es n1 i. llm_process demo_llm (\<lambda>_. None) (\<lambda>k. if k < 2 then 0 else 1) demo_cascade_link (llm_with_interrupt_flag (llm_processor_new ()))
      (demo_at (LlmContext \<lparr>messages = [], ctx_tools = []\<rparr>)) 9 = Some (p, es, n1) \<and>
    sent_frames es = take i [LlmResponseStart, LlmText (lit ''a''), LlmText (lit ''b'')] @ [LlmResponseEnd]"
proof -
  have "run_llm demo_llm (lp_svc (llm_with_interrupt_flag (llm_processor_new ()))) \<lparr>messages = [], ctx_tools = []\<rparr> =
      ((), Inr (LlmResponseStart # [LlmText (lit ''a''), LlmText (lit ''b'')] @ [LlmResponseEnd]))"
    "\<not> list_ex is_framing [LlmText (lit ''a''), LlmText (lit ''b'')]" "downstream_wire demo_at" "l_next demo_cascade_link \<noteq> None"
    by (simp_all add: demo_llm_def is_framing_def downstream_wire_def demo_cascade_link_def)
  from barge_in_closes_response [OF this] show ?thesis by blast
qed

section \<open>What synthesis is billed for\<close>

text \<open>What the trait documents of a synthesizer's frames.\<close>

definition tts_emits :: "'s tts_service \<Rightarrow> bool" where
  "tts_emits T \<longleftrightarrow> (\<forall>svc t svc' fs. run_tts T svc t = (svc', Inr fs) \<longrightarrow>
     (\<forall>f\<in>set fs. (\<exists>c. f = TtsStarted c) \<or> (\<exists>a c. f = TtsAudio a c) \<or> (\<exists>c. f = TtsStopped c)))"

fun synthesized :: "'s tts_service \<Rightarrow> 's \<Rightarrow> ustr list \<Rightarrow> ustr list" where
  "synthesized T svc [] = []"
| "synthesized T svc (t # ts) =
     (case run_tts T svc t of
        (svc1, Inr fs) \<Rightarrow> t # synthesized T svc1 ts
      | (svc1, Inl e) \<Rightarrow> synthesized T svc1 ts)"

abbreviation observe_all :: "nat \<Rightarrow> live_state \<Rightarrow> sess_frame list \<Rightarrow> live_state" where
  "observe_all now \<equiv> foldl (\<lambda>st f. recorder_observe st now f)"

lemma observe_tts_frames [simp]:
  "recorder_observe st now (TtsStarted c) = st" "recorder_observe st now (TtsStopped c) = st"
  "recorder_observe st now (OutputAudio a) = st" "recorder_observe st now (Error msg fatal who) = st"
  "recorder_observe st now (Metrics [m]) = fold_metric st m"
  by (simp_all add: recorder_observe_def)

lemma observe_playable:
  assumes "\<forall>f\<in>set fs. (\<exists>c. f = TtsStarted c) \<or> (\<exists>a c. f = TtsAudio a c) \<or> (\<exists>c. f = TtsStopped c)"
  shows "observe_all now st (map playable fs) = st"
  using assms
proof (induction fs)
  case (Cons f fs)
  consider c where "f = TtsStarted c" | a c where "f = TtsAudio a c" | c where "f = TtsStopped c" using Cons.prems by fastforce
  then have "recorder_observe st now (playable f) = st" by cases (simp_all add: playable_def)
  moreover have "observe_all now st (map playable fs) = st" by (rule Cons.IH) (use Cons.prems in simp)
  ultimately show ?case by simp
qed simp

lemma tts_step_bills:
  assumes "tts_emits T" and "l_next l \<noteq> None"
  shows "\<exists>svc1 r es n1. run_tts T svc t = (svc1, r) \<and> tts_run T l svc t n = (svc1, es, n1) \<and>
    (\<forall>st. lv_tts_characters (observe_all now st (sent_frames es)) =
       lv_tts_characters st + (case r of Inr fs \<Rightarrow> of_nat (length t) | Inl e \<Rightarrow> 0))"
proof -
  obtain svc1 r where r: "run_tts T svc t = (svc1, r)" by fastforce
  show ?thesis
  proof (cases r)
    case (Inl e)
    obtain es :: "sess_value eff list" and n1 where p: "push_error l n (lit ''tts: '' @ error_text e) False = (es, n1)" by fastforce
    have "sent_frames es = (if l_prev l = None then [] else [Error (lit ''tts: '' @ error_text e) False (Some (l_name l))])"
      using p sent_frames_push_up unfolding push_error_def by (metis fst_conv)
    then show ?thesis using r Inl p by (auto simp: tts_run_def)
  next
    case (Inr fs)
    let ?fs = "Metrics [TtsUsage ''tts'' (of_nat (length t))] # map playable fs"
    obtain es :: "sess_value eff list" and n1 where p: "push_downs l n ?fs = (es, n1)" by fastforce
    have sent: "sent_frames es = ?fs" using sent_frames_push_downs [OF assms(2)] p by (metis fst_conv)
    have "\<forall>f\<in>set fs. (\<exists>c. f = TtsStarted c) \<or> (\<exists>a c. f = TtsAudio a c) \<or> (\<exists>c. f = TtsStopped c)"
      using assms(1) r Inr unfolding tts_emits_def by blast
    then have "lv_tts_characters (observe_all now st (sent_frames es)) = lv_tts_characters st + of_nat (length t)" for st
      using observe_playable [of fs now] by (simp add: sent)
    then show ?thesis using r Inr p by (simp add: tts_run_def)
  qed
qed

text \<open>C34. The caller is billed for what was synthesized. For any sequence of utterances, some of which the synthesizer
  may fail on, the character count the recorder folds from the frames of the adapter grows by the number of Unicode
  characters of the utterances that succeeded, modulo \<open>2 ^ 64\<close>, and by nothing else.\<close>

theorem tts_characters_billed:
  assumes "tts_emits T" and "downstream_wire mk" and "l_next l \<noteq> None"
  shows "\<exists>svc' es n'. run_frames (tts_process T) l svc (map (\<lambda>t. mk (TtsSpeak t (Some False))) ts) n = Some (svc', es, n') \<and>
    lv_tts_characters (observe_all now st (sent_frames es)) =
      lv_tts_characters st + of_nat (sum_list (map length (synthesized T svc ts)))"
proof (induction ts arbitrary: svc n st)
  case (Cons t ts)
  obtain svc1 r es1 n1 where 1: "run_tts T svc t = (svc1, r)" "tts_run T l svc t n = (svc1, es1, n1)"
    and b: "\<And>st. lv_tts_characters (observe_all now st (sent_frames es1)) =
       lv_tts_characters st + (case r of Inr fs \<Rightarrow> of_nat (length t) | Inl e \<Rightarrow> 0)"
    using tts_step_bills [OF assms(1,3)] by metis
  obtain svc2 es2 n2 where 2: "run_frames (tts_process T) l svc1 (map (\<lambda>t. mk (TtsSpeak t (Some False))) ts) n1 = Some (svc2, es2, n2)"
    and c: "lv_tts_characters (observe_all now (observe_all now st (sent_frames es1)) (sent_frames es2)) =
      lv_tts_characters (observe_all now st (sent_frames es1)) + of_nat (sum_list (map length (synthesized T svc1 ts)))"
    using Cons by blast
  have "tts_process T l svc (mk (TtsSpeak t (Some False))) n = Some (svc1, es1, n1)"
    using 1 assms(2) by (simp add: tts_process_def downstream_wire_def)
  then show ?case using 1(1) 2 b c by (simp split: sum.split)
qed simp

definition demo_tts :: "nat tts_service" where
  "demo_tts = \<lparr>tts_start = (\<lambda>s p. (s, None)), run_tts = (\<lambda>s t. (Suc s, if s = 1 then Inl (ErrNetwork []) else Inr [TtsStarted None, TtsStopped None]))\<rparr>"

theorem tts_characters_billed_witness:
  "\<exists>svc' es n'. run_frames (tts_process demo_tts) demo_cascade_link 0
      (map (\<lambda>t. demo_at (TtsSpeak t (Some False))) [lit ''abc'', lit ''lost'', lit ''de'']) 9 = Some (svc', es, n') \<and>
    lv_tts_characters (observe_all 0 (live_state_new 8000) (sent_frames es)) = 5"
proof -
  have "tts_emits demo_tts" "downstream_wire demo_at" "l_next demo_cascade_link \<noteq> None"
    by (auto simp: tts_emits_def demo_tts_def downstream_wire_def demo_cascade_link_def split: if_splits)
  from tts_characters_billed [OF this, of 0 "[lit ''abc'', lit ''lost'', lit ''de'']" 9 0 "live_state_new 8000"]
  show ?thesis by (simp add: demo_tts_def live_state_new_def)
qed

end
