(* ===== verification/Sdp.thy ===== *)
theory Sdp
  imports Rtp Json
begin

text \<open>
  The session descriptions of the SIP stack, \<^verbatim>\<open>flowcat-core/src/sip/sdp.rs\<close>: building an offer or answer for one G.711 stream,
  and scanning a peer's description line by line. The standard library's line splitting and the parsing of \<open>u8\<close>, \<open>u16\<close>
  and \<open>Ipv4Addr\<close> are written out.
\<close>

section \<open>Strings\<close>

text \<open>\<open>str::lines\<close>: pieces between newlines, each without the carriage return before its newline; an empty last piece is
  no line.\<close>

definition strip_cr :: "ustr \<Rightarrow> ustr" where
  "strip_cr s = (if s \<noteq> [] \<and> last s = 13 then butlast s else s)"

definition str_lines :: "ustr \<Rightarrow> ustr list" where
  "str_lines s = (let ps = split_on 10 s in map strip_cr (butlast ps) @ (if last ps = [] then [] else [last ps]))"

definition trim_end_cr :: "ustr \<Rightarrow> ustr" where
  "trim_end_cr s = rev (dropWhile (\<lambda>c. c = 13) (rev s))"

text \<open>\<open>parse\<close> of an unsigned number below a bound: an optional plus sign, digits.\<close>

definition parse_below :: "nat \<Rightarrow> ustr \<Rightarrow> nat option" where
  "parse_below bound s =
     (let ds = (case s of c # cs \<Rightarrow> if c = 43 then cs else s | [] \<Rightarrow> [])
      in if ds \<noteq> [] \<and> list_all is_ascii_digit ds \<and> digits_value ds < bound then Some (digits_value ds) else None)"

definition parse_u16 :: "ustr \<Rightarrow> u16 option" where
  "parse_u16 s = map_option of_nat (parse_below (2 ^ 16) s)"

definition parse_u8 :: "ustr \<Rightarrow> u8 option" where
  "parse_u8 s = map_option of_nat (parse_below (2 ^ 8) s)"

datatype ipv4 = Ipv4 u8 u8 u8 u8

fun show_ipv4 :: "ipv4 \<Rightarrow> ustr" where
  "show_ipv4 (Ipv4 a b c d) =
     show_nat (unat a) @ [46] @ show_nat (unat b) @ [46] @ show_nat (unat c) @ [46] @ show_nat (unat d)"

text \<open>An octet: one to three digits, no superfluous zero in front, at most 255.\<close>

definition parse_octet :: "ustr \<Rightarrow> u8 option" where
  "parse_octet s =
     (if s \<noteq> [] \<and> length s \<le> 3 \<and> list_all is_ascii_digit s \<and> \<not> (1 < length s \<and> hd s = 48) \<and> digits_value s < 256
      then Some (of_nat (digits_value s)) else None)"

definition parse_ipv4 :: "ustr \<Rightarrow> ipv4 option" where
  "parse_ipv4 s =
     (case map parse_octet (split_on 46 s) of
        [Some a, Some b, Some c, Some d] \<Rightarrow> Some (Ipv4 a b c d)
      | _ \<Rightarrow> None)"

section \<open>Codecs and media\<close>

datatype g711_codec = Pcmu | Pcma

fun g711_payload_type :: "g711_codec \<Rightarrow> u8" where
  "g711_payload_type Pcmu = pt_pcmu"
| "g711_payload_type Pcma = pt_pcma"

fun rtpmap_name :: "g711_codec \<Rightarrow> ustr" where
  "rtpmap_name Pcmu = lit ''PCMU''"
| "rtpmap_name Pcma = lit ''PCMA''"

definition from_payload_type :: "u8 \<Rightarrow> g711_codec option" where
  "from_payload_type pt = (if pt = pt_pcmu then Some Pcmu else if pt = pt_pcma then Some Pcma else None)"

record sdp_media =
  sm_ip :: ipv4
  sm_port :: u16
  sm_codec :: g711_codec

datatype sdp_parse_error = NoAudioMedia | NoConnection | BadPort | NoSupportedCodec

section \<open>Building\<close>

definition crlf :: "ustr list \<Rightarrow> ustr" where
  "crlf ls = concat (map (\<lambda>l. l @ [13, 10]) ls)"

definition show_pt :: "g711_codec \<Rightarrow> ustr" where
  "show_pt c = show_nat (unat (g711_payload_type c))"

definition sdp_lines :: "ipv4 \<Rightarrow> u16 \<Rightarrow> g711_codec list \<Rightarrow> ustr list" where
  "sdp_lines ip port codecs =
     [lit ''v=0'', lit ''o=- 0 0 IN IP4 '' @ show_ipv4 ip, lit ''s=flowcat'', lit ''c=IN IP4 '' @ show_ipv4 ip, lit ''t=0 0'',
      lit ''m=audio '' @ show_nat (unat port) @ lit '' RTP/AVP '' @ join_with [32] (map show_pt codecs)] @
     map (\<lambda>c. lit ''a=rtpmap:'' @ show_pt c @ lit '' '' @ rtpmap_name c @ lit ''/8000'') codecs @
     [lit ''a=ptime:20'', lit ''a=sendrecv'']"

definition build_sdp :: "ipv4 \<Rightarrow> u16 \<Rightarrow> g711_codec list \<Rightarrow> ustr" where
  "build_sdp ip port codecs = crlf (sdp_lines ip port codecs)"

definition build_offer :: "ipv4 \<Rightarrow> u16 \<Rightarrow> ustr" where
  "build_offer ip port = build_sdp ip port [Pcmu, Pcma]"

definition build_answer :: "ipv4 \<Rightarrow> u16 \<Rightarrow> g711_codec \<Rightarrow> ustr" where
  "build_answer ip port codec = build_sdp ip port [codec]"

section \<open>Parsing\<close>

definition parse_connection_ipv4 :: "ustr \<Rightarrow> ipv4 option" where
  "parse_connection_ipv4 rest =
     (case split_whitespace rest of
        a # b # addr # _ \<Rightarrow>
          if a = lit ''IN'' \<and> b = lit ''IP4'' then parse_ipv4 (hd (split_on 47 addr)) else None
      | _ \<Rightarrow> None)"

record sdp_scan =
  session_ip :: "ipv4 option"
  media_ip :: "ipv4 option"
  sc_port :: "u16 option"
  media_pts :: "u8 list"
  in_audio :: bool
  seen_audio :: bool

definition sdp_scan_new :: sdp_scan where
  "sdp_scan_new =
     \<lparr>session_ip = None, media_ip = None, sc_port = None, media_pts = [], in_audio = False, seen_audio = False\<rparr>"

definition audio_line :: "sdp_scan \<Rightarrow> ustr \<Rightarrow> sdp_scan" where
  "audio_line s audio =
     (if seen_audio s then s\<lparr>in_audio := False\<rparr>
      else let parts = split_whitespace audio
           in s\<lparr>in_audio := True, seen_audio := True,
                sc_port := (case parts of p # _ \<Rightarrow> parse_u16 p | [] \<Rightarrow> None),
                media_pts := media_pts s @ List.map_filter parse_u8 (drop 2 parts)\<rparr>)"

definition sdp_line :: "sdp_scan \<Rightarrow> ustr \<Rightarrow> sdp_scan" where
  "sdp_line s line =
     (case strip_prefix (lit ''c='') line of
        Some rest \<Rightarrow>
          (case parse_connection_ipv4 rest of
             Some addr \<Rightarrow> if in_audio s then s\<lparr>media_ip := Some addr\<rparr> else s\<lparr>session_ip := Some addr\<rparr>
           | None \<Rightarrow> s)
      | None \<Rightarrow>
          (case strip_prefix (lit ''m='') line of
             Some rest \<Rightarrow>
               (case strip_prefix (lit ''audio '') rest of
                  Some audio \<Rightarrow> audio_line s audio
                | None \<Rightarrow> s\<lparr>in_audio := False\<rparr>)
           | None \<Rightarrow> s))"

definition sdp_finish :: "sdp_scan \<Rightarrow> sdp_parse_error + sdp_media" where
  "sdp_finish s =
     (if \<not> seen_audio s then Inl NoAudioMedia
      else case (case media_ip s of Some ip \<Rightarrow> Some ip | None \<Rightarrow> session_ip s) of
        None \<Rightarrow> Inl NoConnection
      | Some ip \<Rightarrow>
          (case sc_port s of
             None \<Rightarrow> Inl BadPort
           | Some port \<Rightarrow>
               if port = 0 then Inl BadPort
               else case find_map from_payload_type (media_pts s) of
                 None \<Rightarrow> Inl NoSupportedCodec
               | Some codec \<Rightarrow> Inr \<lparr>sm_ip = ip, sm_port = port, sm_codec = codec\<rparr>))"

definition sdp_parse :: "ustr \<Rightarrow> sdp_parse_error + sdp_media" where
  "sdp_parse sdp = sdp_finish (foldl (\<lambda>s l. sdp_line s (trim_end_cr l)) sdp_scan_new (str_lines sdp))"

section \<open>Numbers and addresses read back\<close>

lemma show_nat_nonempty [simp]: "show_nat n \<noteq> []"
  by (subst show_nat.simps) simp

lemma digits_value_snoc: "digits_value (xs @ [c]) = digits_value xs * 10 + (c - 48)"
  by (simp add: digits_value_def)

lemma digits_value_show [simp]: "digits_value (show_nat n) = n"
proof (induction n rule: show_nat.induct)
  case (1 n)
  show ?case
  proof (cases "n < 10")
    case True
    then show ?thesis by (subst show_nat.simps) (simp add: digits_value_def)
  next
    case False
    then show ?thesis using 1 by (subst show_nat.simps) (simp add: digits_value_snoc)
  qed
qed

lemma digits_show [simp]: "list_all is_ascii_digit (show_nat n)"
  using show_nat_digits [of _ n] by (auto simp: list_all_iff is_ascii_digit_def)

lemma show_nat_no [simp]: "c < 48 \<or> 57 < c \<Longrightarrow> c \<notin> set (show_nat n)"
  using show_nat_digits [of c n] by auto

lemma show_nat_cases:
  "n < 10 \<Longrightarrow> show_nat n = [48 + n]" "10 \<le> n \<Longrightarrow> show_nat n = show_nat (n div 10) @ [48 + n mod 10]"
  by (simp_all add: show_nat.simps [of n])

lemma hd_show_nat: "10 \<le> n \<Longrightarrow> hd (show_nat n) \<noteq> 48"
proof (induction n rule: less_induct)
  case (less n)
  show ?case
  proof (cases "n div 10 < 10")
    case True
    then show ?thesis using less.prems by (simp add: show_nat_cases)
  next
    case False
    then show ?thesis using less.IH [of "n div 10"] less.prems by (simp add: show_nat_cases(2))
  qed
qed

lemma length_show_nat:
  assumes "n < 1000"
  shows "length (show_nat n) \<le> 3" "1 < length (show_nat n) \<Longrightarrow> 10 \<le> n"
proof -
  have two: "length (show_nat m) \<le> 2" if "m < 100" for m
    using that by (cases "m < 10") (simp_all add: show_nat_cases)
  show "length (show_nat n) \<le> 3"
    using assms two [of "n div 10"] by (cases "n < 10") (simp_all add: show_nat_cases(1) show_nat_cases(2) [of n])
  show "10 \<le> n" if "1 < length (show_nat n)" using that by (cases "n < 10") (simp_all add: show_nat_cases(1))
qed

lemma parse_below_show [simp]: "n < bound \<Longrightarrow> parse_below bound (show_nat n) = Some n"
proof -
  assume n: "n < bound"
  obtain c cs where s: "show_nat n = c # cs" by (cases "show_nat n") auto
  then have "c \<noteq> 43" using show_nat_digits [of c n] by auto
  then show ?thesis using n s digits_value_show [of n] digits_show [of n] by (simp add: parse_below_def Let_def)
qed

lemma parse_u16_show [simp]: "parse_u16 (show_nat (unat (p :: u16))) = Some p"
  using unsigned_less [of p, where 'a = nat] by (simp add: parse_u16_def)

lemma parse_u8_show [simp]: "parse_u8 (show_nat (unat (p :: u8))) = Some p"
  using unsigned_less [of p, where 'a = nat] by (simp add: parse_u8_def)

lemma parse_octet_show [simp]: "parse_octet (show_nat (unat (a :: u8))) = Some a"
proof -
  have "unat a < 256" using unsigned_less [of a, where 'a = nat] by simp
  then show ?thesis using length_show_nat [of "unat a"] hd_show_nat [of "unat a"] by (auto simp: parse_octet_def)
qed

lemma split_on_append: "c \<notin> set a \<Longrightarrow> split_on c (a @ c # b) = a # split_on c b"
  by (induction a) auto

lemma split_on_single: "c \<notin> set a \<Longrightarrow> split_on c a = [a]"
  by (induction a) auto

lemma parse_show_ipv4 [simp]: "parse_ipv4 (show_ipv4 ip) = Some ip"
proof (cases ip)
  case (Ipv4 a b c d)
  show ?thesis by (simp add: Ipv4 parse_ipv4_def split_on_append split_on_single)
qed

section \<open>Lines and words read back\<close>

definition is_word :: "ustr \<Rightarrow> bool" where
  "is_word w \<longleftrightarrow> w \<noteq> [] \<and> list_all (\<lambda>c. \<not> is_whitespace c) w"

lemma split_word_space:
  assumes "is_word w"
  shows "split_whitespace (w @ 32 # r) = w # split_whitespace r" "split_whitespace w = [w]"
proof -
  obtain c cs where w: "w = c # cs" using assms by (cases w) (auto simp: is_word_def)
  have ws: "\<not> is_whitespace c" "\<forall>x\<in>set cs. \<not> is_whitespace x" using assms by (auto simp: is_word_def list_all_iff w)
  have sp: "is_whitespace 32" by (simp add: is_whitespace_def)
  have skip: "split_whitespace (32 # r) = split_whitespace r"
    by (subst (1 2) split_whitespace.simps) (simp add: sp)
  have take: "takeWhile (\<lambda>c. \<not> is_whitespace c) (cs @ 32 # r) = cs" "dropWhile (\<lambda>c. \<not> is_whitespace c) (cs @ 32 # r) = 32 # r"
    using ws sp by (simp_all add: takeWhile_append2 dropWhile_append2)
  show "split_whitespace (w @ 32 # r) = w # split_whitespace r"
    unfolding w by (subst split_whitespace.simps) (simp add: ws take skip)
  have all: "takeWhile (\<lambda>c. \<not> is_whitespace c) cs = cs" "dropWhile (\<lambda>c. \<not> is_whitespace c) cs = []"
    using ws by (simp_all add: takeWhile_eq_all_conv dropWhile_eq_Nil_conv)
  have "split_whitespace [] = []" by (subst split_whitespace.simps) simp
  then show "split_whitespace w = [w]" unfolding w by (subst split_whitespace.simps) (simp add: ws all)
qed

lemma is_word_show [simp]: "is_word (show_nat n)"
  using show_nat_digits [of _ n] by (fastforce simp: is_word_def list_all_iff is_whitespace_def)

lemma is_word_ipv4 [simp]: "is_word (show_ipv4 ip)"
proof (cases ip)
  case (Ipv4 a b c d)
  show ?thesis
    using is_word_show [of "unat a"] is_word_show [of "unat b"] is_word_show [of "unat c"] is_word_show [of "unat d"]
    by (simp add: Ipv4 is_word_def is_whitespace_def)
qed

lemma split_join:
  assumes "\<forall>w\<in>set ws. is_word w"
  shows "split_whitespace (join_with [32] ws) = ws"
  using assms
proof (induction ws)
  case Nil
  show ?case by (subst split_whitespace.simps) (simp add: join_with_def)
next
  case (Cons w ws)
  then show ?case by (cases ws) (simp_all add: join_with_def split_word_space)
qed

definition clean_line :: "ustr \<Rightarrow> bool" where
  "clean_line l \<longleftrightarrow> 10 \<notin> set l \<and> 13 \<notin> set l"

lemma split_on_crlf: "\<forall>l\<in>set ls. clean_line l \<Longrightarrow> split_on 10 (crlf ls) = map (\<lambda>l. l @ [13]) ls @ [[]]"
proof (induction ls)
  case (Cons l ls)
  have "crlf (l # ls) = (l @ [13]) @ 10 # crlf ls" by (simp add: crlf_def)
  then show ?case using Cons by (simp add: split_on_append clean_line_def del: append_assoc)
qed (simp add: crlf_def)

lemma trim_end_clean: "clean_line l \<Longrightarrow> trim_end_cr l = l"
  by (cases l rule: rev_cases) (auto simp: trim_end_cr_def clean_line_def)

lemma sdp_parse_lines:
  assumes "\<forall>l\<in>set ls. clean_line l"
  shows "sdp_parse (crlf ls) = sdp_finish (foldl sdp_line sdp_scan_new ls)"
proof -
  have lines: "str_lines (crlf ls) = ls"
    by (simp add: str_lines_def split_on_crlf [OF assms] butlast_append strip_cr_def comp_def)
  have "foldl (\<lambda>s l. sdp_line s (trim_end_cr l)) s ls = foldl sdp_line s ls" for s
    using assms by (induction ls arbitrary: s) (simp_all add: trim_end_clean)
  then show ?thesis by (simp add: sdp_parse_def lines)
qed

lemma is_whitespace_crlf: "is_whitespace 10" "is_whitespace 13"
  by (simp_all add: is_whitespace_def)

lemma is_word_clean: "is_word w \<Longrightarrow> clean_line w"
  unfolding is_word_def clean_line_def list_all_iff by (metis is_whitespace_crlf)

lemma clean_append [simp]: "clean_line (a @ b) \<longleftrightarrow> clean_line a \<and> clean_line b"
  by (auto simp: clean_line_def)

lemma clean_join: "\<forall>w\<in>set ws. is_word w \<Longrightarrow> clean_line (join_with [32] ws)"
proof (induction ws)
  case (Cons w ws)
  then show ?case using is_word_clean [of w] by (cases ws) (simp_all add: join_with_def clean_line_def)
qed (simp add: join_with_def clean_line_def)

lemma connection_shown [simp]: "parse_connection_ipv4 (lit ''IN IP4 '' @ show_ipv4 ip) = Some ip"
proof -
  have w: "is_word (lit ''IN'')" "is_word (lit ''IP4'')" by (simp_all add: is_word_def is_whitespace_def)
  have "split_whitespace (lit ''IN'' @ 32 # lit ''IP4'' @ 32 # show_ipv4 ip) = [lit ''IN'', lit ''IP4'', show_ipv4 ip]"
    by (simp only: split_word_space [OF w(1)] split_word_space [OF w(2)] split_word_space(2) [OF is_word_ipv4])
  moreover have "47 \<notin> set (show_ipv4 ip)" by (cases ip) simp
  ultimately show ?thesis by (simp add: parse_connection_ipv4_def split_on_single)
qed

lemma audio_shown [simp]:
  "split_whitespace (show_nat (unat (port :: u16)) @ lit '' RTP/AVP '' @ join_with [32] ws) = show_nat (unat port) # lit ''RTP/AVP'' # ws"
  if "\<forall>w\<in>set ws. is_word w"
proof -
  have w: "is_word (lit ''RTP/AVP'')" by (simp add: is_word_def is_whitespace_def)
  have "split_whitespace (show_nat (unat port) @ 32 # lit ''RTP/AVP'' @ 32 # join_with [32] ws) = show_nat (unat port) # lit ''RTP/AVP'' # ws"
    by (simp only: split_word_space(1) [OF is_word_show] split_word_space(1) [OF w] split_join [OF that])
  then show ?thesis by simp
qed

section \<open>Offer and answer\<close>

lemma sdp_line_other: "c \<noteq> 99 \<Longrightarrow> c \<noteq> 109 \<Longrightarrow> sdp_line s (c # l) = s"
  by (simp add: sdp_line_def)

lemma sdp_line_connection:
  "sdp_line s (lit ''c=IN IP4 '' @ show_ipv4 ip) = (if in_audio s then s\<lparr>media_ip := Some ip\<rparr> else s\<lparr>session_ip := Some ip\<rparr>)"
  using connection_shown [of ip] by (simp add: sdp_line_def)

lemma sdp_line_audio: "sdp_line s (lit ''m=audio '' @ rest) = audio_line s rest"
  by (simp add: sdp_line_def)

lemma sdp_lines_other:
  "(\<And>l s. l \<in> set ls \<Longrightarrow> sdp_line s l = s) \<Longrightarrow> foldl sdp_line s ls = s"
  by (induction ls arbitrary: s) simp_all

lemma map_filter_shown: "List.map_filter parse_u8 (map show_pt cs) = map g711_payload_type cs"
  by (induction cs) (simp_all add: List.map_filter_simps show_pt_def)

lemma clean_shown [simp]: "clean_line (show_nat n)" "clean_line (show_ipv4 ip)" "clean_line (join_with [32] (map show_pt cs))"
  using is_word_clean [OF is_word_show] is_word_clean [OF is_word_ipv4] clean_join [of "map show_pt cs"]
  by (auto simp: show_pt_def)

lemma clean_Cons [simp]: "clean_line (c # l) \<longleftrightarrow> c \<noteq> 10 \<and> c \<noteq> 13 \<and> clean_line l" "clean_line []"
  by (auto simp: clean_line_def)

lemma clean_sdp_lines: "l \<in> set (sdp_lines ip port cs) \<Longrightarrow> clean_line l"
proof -
  have "clean_line (rtpmap_name c)" for c by (cases c) simp_all
  then show "l \<in> set (sdp_lines ip port cs) \<Longrightarrow> clean_line l" by (auto simp: sdp_lines_def show_pt_def)
qed

lemma scan_sdp_lines:
  "foldl sdp_line sdp_scan_new (sdp_lines ip port cs) =
     sdp_scan_new\<lparr>session_ip := Some ip, in_audio := True, seen_audio := True, sc_port := Some port, media_pts := map g711_payload_type cs\<rparr>"
proof -
  let ?tail = "map (\<lambda>c. lit ''a=rtpmap:'' @ show_pt c @ lit '' '' @ rtpmap_name c @ lit ''/8000'') cs"
  have tail: "foldl sdp_line s ?tail = s" for s by (rule sdp_lines_other) (auto simp: sdp_line_other)
  have words: "\<forall>w\<in>set (map show_pt cs). is_word w" by (simp add: show_pt_def)
  have audio: "audio_line s (show_nat (unat port) @ lit '' RTP/AVP '' @ join_with [32] (map show_pt cs)) =
      s\<lparr>in_audio := True, seen_audio := True, sc_port := Some port, media_pts := media_pts s @ map g711_payload_type cs\<rparr>"
    if "\<not> seen_audio s" for s
    using that by (simp add: audio_line_def audio_shown [OF words] map_filter_shown Let_def del: lit_Cons)
  have other: "sdp_line s (lit ''v=0'') = s" "sdp_line s (lit ''o=- 0 0 IN IP4 '' @ r) = s" "sdp_line s (lit ''s=flowcat'') = s"
    "sdp_line s (lit ''t=0 0'') = s" "sdp_line s (lit ''a=ptime:20'') = s" "sdp_line s (lit ''a=sendrecv'') = s" for s r by (simp_all add: sdp_line_other)
  show ?thesis
    unfolding sdp_lines_def foldl_append tail
    by (simp add: other sdp_line_connection sdp_line_audio audio sdp_scan_new_def del: lit_Cons)
qed

text \<open>C35. A description built here is understood by the parser: whatever address, non-zero port and list of codecs it is
  built for, parsing it gives that address and port and the first codec listed. So an answer commits both sides to the
  codec the answerer picked, and an offer is read as preferring \<open>PCMU\<close>.\<close>

theorem sdp_round_trip:
  assumes "port \<noteq> 0"
  shows "sdp_parse (build_sdp ip port (codec # codecs)) = Inr \<lparr>sm_ip = ip, sm_port = port, sm_codec = codec\<rparr>"
proof -
  have "\<forall>l\<in>set (sdp_lines ip port (codec # codecs)). clean_line l" using clean_sdp_lines by blast
  then have "sdp_parse (build_sdp ip port (codec # codecs)) = sdp_finish (foldl sdp_line sdp_scan_new (sdp_lines ip port (codec # codecs)))"
    unfolding build_sdp_def by (rule sdp_parse_lines)
  note this [unfolded scan_sdp_lines]
  moreover have "from_payload_type (g711_payload_type codec) = Some codec"
    by (cases codec) (simp_all add: from_payload_type_def pt_pcmu_def pt_pcma_def)
  ultimately show ?thesis using assms by (simp add: sdp_finish_def sdp_scan_new_def)
qed

theorem sdp_round_trip_witness:
  "sdp_parse (build_answer (Ipv4 34 124 207 59) 41234 Pcma) = Inr \<lparr>sm_ip = Ipv4 34 124 207 59, sm_port = 41234, sm_codec = Pcma\<rparr>"
  unfolding build_answer_def using sdp_round_trip [of 41234 "Ipv4 34 124 207 59" Pcma "[]"] by simp

text \<open>What the parser accepts is usable: a non-zero port and a codec whose payload type the peer listed.\<close>

lemma sdp_parse_usable:
  assumes "sdp_parse sdp = Inr m"
  shows "sm_port m \<noteq> 0 \<and> g711_payload_type (sm_codec m) \<in>
    set (media_pts (foldl (\<lambda>s l. sdp_line s (trim_end_cr l)) sdp_scan_new (str_lines sdp)))"
proof -
  let ?s = "foldl (\<lambda>s l. sdp_line s (trim_end_cr l)) sdp_scan_new (str_lines sdp)"
  have "find_map from_payload_type (media_pts ?s) = Some (sm_codec m)" "sm_port m \<noteq> 0"
    using assms by (auto simp: sdp_parse_def sdp_finish_def split: if_splits option.splits)
  then show ?thesis by (auto simp: from_payload_type_def dest!: find_map_Some split: if_splits)
qed

section \<open>Descriptions with several streams\<close>

lemma sdp_line_media: "x \<noteq> 97 \<Longrightarrow> sdp_line s (109 # 61 # x # rest) = s\<lparr>in_audio := False\<rparr>"
  by (simp add: sdp_line_def)

text \<open>The address of another stream. A connection line in a section after the audio section belongs to that section; the
  scan, which then is outside audio scope, takes it for the session's and the audio of the call goes there.\<close>

text \<open>Audio goes to the address of another stream: an offer with the session's address, an audio section without one of
  its own and, after it, a video section with its own address is parsed as if the audio were received at the video's
  address.\<close>

lemma sdp_takes_video_address:
  assumes "port \<noteq> 0"
  shows "sdp_parse (crlf [lit ''c=IN IP4 '' @ show_ipv4 session, lit ''m=audio '' @ show_nat (unat port) @ lit '' RTP/AVP '' @ join_with [32] [show_pt codec],
      lit ''m=video 6000 RTP/AVP 96'', lit ''c=IN IP4 '' @ show_ipv4 video]) = Inr \<lparr>sm_ip = video, sm_port = port, sm_codec = codec\<rparr>"
proof -
  let ?ls = "[lit ''c=IN IP4 '' @ show_ipv4 session, lit ''m=audio '' @ show_nat (unat port) @ lit '' RTP/AVP '' @ join_with [32] [show_pt codec],
      lit ''m=video 6000 RTP/AVP 96'', lit ''c=IN IP4 '' @ show_ipv4 video]"
  have clean: "\<forall>l\<in>set ?ls. clean_line l" using clean_shown(3) [of "[codec]"] by simp
  have word: "\<forall>w\<in>set [show_pt codec]. is_word w" by (simp add: show_pt_def)
  have audio: "audio_line s (show_nat (unat port) @ lit '' RTP/AVP '' @ join_with [32] [show_pt codec]) =
      s\<lparr>in_audio := True, seen_audio := True, sc_port := Some port, media_pts := media_pts s @ [g711_payload_type codec]\<rparr>"
    if "\<not> seen_audio s" for s
    using that map_filter_shown [of "[codec]"] by (simp add: audio_line_def audio_shown [OF word] Let_def del: lit_Cons)
  have video: "sdp_line s (lit ''m=video 6000 RTP/AVP 96'') = s\<lparr>in_audio := False\<rparr>" for s
    by (simp add: sdp_line_media)
  have "foldl sdp_line sdp_scan_new ?ls =
      sdp_scan_new\<lparr>session_ip := Some video, seen_audio := True, sc_port := Some port, media_pts := [g711_payload_type codec]\<rparr>"
    by (simp add: sdp_line_connection sdp_line_audio audio video sdp_scan_new_def del: lit_Cons)
  moreover have "from_payload_type (g711_payload_type codec) = Some codec"
    by (cases codec) (simp_all add: from_payload_type_def pt_pcmu_def pt_pcma_def)
  ultimately show ?thesis using assms by (simp add: sdp_parse_lines [OF clean] sdp_finish_def sdp_scan_new_def del: lit_Cons)
qed

end
