(* ===== verification/Sip_Media.thy ===== *)
theory Sip_Media
  imports Rtp Sdp Audio_Codec
begin

text \<open>
  The media leg of a SIP call, \<^verbatim>\<open>flowcat-core/src/sip/transport.rs\<close>: the receiving task (symmetric source, parser, jitter
  buffer, G.711), the paced sending pump and the transport calls of the pipeline.

  A task is a fold over what its \<open>select\<close> picks: a datagram, a hang-up or a socket error for the receiver; a read of the
  channel, a tick or a hang-up for the pump, interleaved with what the pipeline does to the channel. The addresses are a
  type variable. \<open>acc k\<close> says whether the pipeline still takes the chunk number \<open>k\<close>, \<open>net k\<close> whether the socket takes the
  datagram number \<open>k\<close>.
\<close>

section \<open>Codec selection\<close>

definition sip_carrier_rate :: u32 where "sip_carrier_rate = 8000"
definition frame_samples :: nat where "frame_samples = 160"
definition preroll_frames :: nat where "preroll_frames = 10"
definition rtp_recv_buf :: nat where "rtp_recv_buf = 2048"
definition outbound_chan_depth :: nat where "outbound_chan_depth = 64"

fun decode_g711 :: "g711 \<Rightarrow> g711_codec \<Rightarrow> u8 list \<Rightarrow> i16 list" where
  "decode_g711 G Pcmu pl = ulaw_to_pcm16 G pl"
| "decode_g711 G Pcma pl = alaw_to_pcm16 G pl"

fun encode_g711 :: "g711 \<Rightarrow> g711_codec \<Rightarrow> i16 list \<Rightarrow> u8 list" where
  "encode_g711 G Pcmu ss = pcm16_to_ulaw G ss"
| "encode_g711 G Pcma ss = pcm16_to_alaw G ss"

section \<open>The receiving task\<close>

record 'a rx_task =
  rt_jitter :: jitter_buffer
  rt_peer :: "'a option"
  rt_ssrc :: "u32 option"
  rt_out :: "audio_chunk list"

definition rx_task_new :: "'a rx_task" where
  "rx_task_new = \<lparr>rt_jitter = jitter_new, rt_peer = None, rt_ssrc = None, rt_out = []\<rparr>"

text \<open>Decoding and forwarding released packets; \<open>False\<close> when the pipeline is gone.\<close>

fun rx_forward :: "(nat \<Rightarrow> bool) \<Rightarrow> g711 \<Rightarrow> g711_codec \<Rightarrow> 'a rx_task \<Rightarrow> rtp_packet list \<Rightarrow> 'a rx_task \<times> bool" where
  "rx_forward acc G c s [] = (s, True)"
| "rx_forward acc G c s (p # ps) =
     (let samples = decode_g711 G c (payload p)
      in if samples = [] then rx_forward acc G c s ps
         else if acc (length (rt_out s))
         then rx_forward acc G c (s\<lparr>rt_out := rt_out s @ [\<lparr>ac_pcm = samples, ac_sample_rate = sip_carrier_rate\<rparr>]\<rparr>) ps
         else (s, False))"

text \<open>A change of the source identifier flushes and resets the jitter window first.\<close>

definition rx_switch :: "(nat \<Rightarrow> bool) \<Rightarrow> g711 \<Rightarrow> g711_codec \<Rightarrow> 'a rx_task \<Rightarrow> u32 \<Rightarrow> 'a rx_task \<times> bool" where
  "rx_switch acc G c s x =
     (case rt_ssrc s of
        None \<Rightarrow> (s\<lparr>rt_ssrc := Some x\<rparr>, True)
      | Some y \<Rightarrow>
          if y \<noteq> x then
            let (j, released) = jitter_drain (rt_jitter s);
                (s1, go) = rx_forward acc G c (s\<lparr>rt_jitter := j\<rparr>) released
            in if go then (s1\<lparr>rt_jitter := jitter_reset (rt_jitter s1), rt_ssrc := Some x\<rparr>, True) else (s1, False)
          else (s, True))"

definition rx_packet :: "(nat \<Rightarrow> bool) \<Rightarrow> g711 \<Rightarrow> g711_codec \<Rightarrow> 'a rx_task \<Rightarrow> rtp_packet \<Rightarrow> ('a rx_task \<times> bool) option" where
  "rx_packet acc G c s pkt =
     (case rx_switch acc G c s (ssrc pkt) of
        (s1, False) \<Rightarrow> Some (s1, False)
      | (s1, True) \<Rightarrow>
          (case jitter_push (rt_jitter s1) pkt of
             None \<Rightarrow> None
           | Some (j, released) \<Rightarrow> Some (rx_forward acc G c (s1\<lparr>rt_jitter := j\<rparr>) released)))"

definition rx_datagram ::
  "(nat \<Rightarrow> bool) \<Rightarrow> g711 \<Rightarrow> g711_codec \<Rightarrow> 'a rx_task \<Rightarrow> 'a \<Rightarrow> u8 list \<Rightarrow> ('a rx_task \<times> bool) option" where
  "rx_datagram acc G c s src d =
     (let parse = (\<lambda>s1. case depacketize (take rtp_recv_buf d) of
                          None \<Rightarrow> None
                        | Some (Inl e) \<Rightarrow> Some (s1, True)
                        | Some (Inr pkt) \<Rightarrow> rx_packet acc G c s1 pkt)
      in case rt_peer s of
           None \<Rightarrow> parse (s\<lparr>rt_peer := Some src\<rparr>)
         | Some p \<Rightarrow> if src \<noteq> p then Some (s, True) else parse s)"

datatype 'a rx_event = Datagram 'a "u8 list" | RxHangup | RxError

text \<open>The loop; \<open>True\<close> when it has ended. The way out flushes the window and ignores a pipeline that is gone.\<close>

definition rx_finish :: "(nat \<Rightarrow> bool) \<Rightarrow> g711 \<Rightarrow> g711_codec \<Rightarrow> 'a rx_task \<Rightarrow> 'a rx_task" where
  "rx_finish acc G c s =
     (let (j, released) = jitter_drain (rt_jitter s)
      in fst (rx_forward acc G c (s\<lparr>rt_jitter := j\<rparr>) released))"

fun rx_loop ::
  "(nat \<Rightarrow> bool) \<Rightarrow> g711 \<Rightarrow> g711_codec \<Rightarrow> 'a rx_task \<Rightarrow> 'a rx_event list \<Rightarrow> ('a rx_task \<times> bool) option" where
  "rx_loop acc G c s [] = Some (s, False)"
| "rx_loop acc G c s (Datagram src d # evs) =
     (case rx_datagram acc G c s src d of
        None \<Rightarrow> None
      | Some (s1, True) \<Rightarrow> rx_loop acc G c s1 evs
      | Some (s1, False) \<Rightarrow> Some (s1, True))"
| "rx_loop acc G c s (RxHangup # evs) = Some (rx_finish acc G c s, True)"
| "rx_loop acc G c s (RxError # evs) = Some (rx_finish acc G c s, True)"

section \<open>The sending pump\<close>

record tx_task =
  tx_sender :: rtp_sender
  tx_pending :: "i16 list"
  tx_preroll :: nat
  tx_channel_open :: bool
  tx_queue :: "i16 list list"
  tx_closed :: bool
  tx_wire :: "u8 list list"
  tx_ended :: bool

definition tx_new :: "g711_codec \<Rightarrow> u32 \<Rightarrow> u16 \<Rightarrow> u32 \<Rightarrow> tx_task" where
  "tx_new c ss sq ts =
     \<lparr>tx_sender = with_seeds (g711_payload_type c) ss sq ts, tx_pending = [], tx_preroll = preroll_frames,
      tx_channel_open = True, tx_queue = [], tx_closed = False, tx_wire = [], tx_ended = False\<rparr>"

text \<open>One datagram to the socket. On an error it is gone, the sender having counted it, and the task ends.\<close>

definition rtp_send :: "(nat \<Rightarrow> bool) \<Rightarrow> tx_task \<Rightarrow> u8 list \<Rightarrow> tx_task" where
  "rtp_send net s pl =
     (let (snd', dgram) = packetize (tx_sender s) pl
      in if net (length (tx_wire s)) then s\<lparr>tx_sender := snd', tx_wire := tx_wire s @ [dgram]\<rparr>
         else s\<lparr>tx_sender := snd', tx_ended := True\<rparr>)"

definition tx_tick :: "(nat \<Rightarrow> bool) \<Rightarrow> g711 \<Rightarrow> g711_codec \<Rightarrow> tx_task \<Rightarrow> tx_task" where
  "tx_tick net G c s =
     (if 0 < tx_preroll s
      then rtp_send net (s\<lparr>tx_preroll := tx_preroll s - 1\<rparr>) (encode_g711 G c (replicate frame_samples 0))
      else if frame_samples \<le> length (tx_pending s)
      then rtp_send net (s\<lparr>tx_pending := drop frame_samples (tx_pending s)\<rparr>)
             (encode_g711 G c (take frame_samples (tx_pending s)))
      else if \<not> tx_channel_open s then s\<lparr>tx_ended := True\<rparr>
      else s)"

definition tx_recv :: "tx_task \<Rightarrow> tx_task" where
  "tx_recv s =
     (if tx_preroll s = 0 \<and> tx_channel_open s
      then case tx_queue s of
             chunk # q \<Rightarrow> s\<lparr>tx_pending := tx_pending s @ chunk, tx_queue := q\<rparr>
           | [] \<Rightarrow> if tx_closed s then s\<lparr>tx_channel_open := False\<rparr> else s
      else s)"

text \<open>\<open>send_audio\<close>: \<open>None\<close> while the bounded channel is full, an error once the pump has ended. \<open>send_clear\<close> does
  nothing.\<close>

definition sip_send_audio :: "tx_task \<Rightarrow> audio_chunk \<Rightarrow> (flowcat_error + tx_task) option" where
  "sip_send_audio s chunk =
     (if tx_ended s then Some (Inl (ErrTransport (lit ''SIP RTP send pump stopped (peer hung up?)'')))
      else if length (tx_queue s) < outbound_chan_depth then Some (Inr (s\<lparr>tx_queue := tx_queue s @ [ac_pcm chunk]\<rparr>))
      else None)"

definition sip_send_clear :: "tx_task \<Rightarrow> flowcat_error + tx_task" where
  "sip_send_clear s = Inr s"

datatype tx_event = TxSend audio_chunk | TxClear | TxClose | TxRecv | TxTick | TxHangup

definition tx_step :: "(nat \<Rightarrow> bool) \<Rightarrow> g711 \<Rightarrow> g711_codec \<Rightarrow> tx_task \<Rightarrow> tx_event \<Rightarrow> tx_task" where
  "tx_step net G c s ev =
     (case ev of
        TxSend chunk \<Rightarrow> (case sip_send_audio s chunk of Some (Inr s1) \<Rightarrow> s1 | _ \<Rightarrow> s)
      | TxClear \<Rightarrow> (case sip_send_clear s of Inr s1 \<Rightarrow> s1 | Inl e \<Rightarrow> s)
      | TxClose \<Rightarrow> s\<lparr>tx_closed := True\<rparr>
      | TxRecv \<Rightarrow> if tx_ended s then s else tx_recv s
      | TxTick \<Rightarrow> if tx_ended s then s else tx_tick net G c s
      | TxHangup \<Rightarrow> s\<lparr>tx_ended := True\<rparr>)"

definition tx_run :: "(nat \<Rightarrow> bool) \<Rightarrow> g711 \<Rightarrow> g711_codec \<Rightarrow> tx_task \<Rightarrow> tx_event list \<Rightarrow> tx_task" where
  "tx_run net G c s evs = foldl (tx_step net G c) s evs"

section \<open>The transport as the pipeline sees it\<close>

datatype media_in = StreamStart ustr | MediaAudio audio_chunk | MediaStop

record sip_transport =
  sp_call_id :: ustr
  sp_started :: bool
  sp_inbound :: "audio_chunk list"
  sp_rx_ended :: bool
  sp_hangup :: bool

definition sip_transport_start :: "ustr \<Rightarrow> sip_transport" where
  "sip_transport_start call = \<lparr>sp_call_id = call, sp_started = False, sp_inbound = [], sp_rx_ended = False, sp_hangup = False\<rparr>"

text \<open>\<open>recv\<close>: \<open>None\<close> while neither branch of the \<open>select\<close> is ready; \<open>pick\<close> chooses when both are.\<close>

definition sip_recv :: "bool \<Rightarrow> sip_transport \<Rightarrow> (sip_transport \<times> media_in) option" where
  "sip_recv pick s =
     (if \<not> sp_started s then Some (s\<lparr>sp_started := True\<rparr>, StreamStart (sp_call_id s))
      else
        let audio = (case sp_inbound s of
                       chunk # q \<Rightarrow> Some (s\<lparr>sp_inbound := q\<rparr>, MediaAudio chunk)
                     | [] \<Rightarrow> if sp_rx_ended s then Some (s, MediaStop) else None);
            stop = (if sp_hangup s then Some (s, MediaStop) else None)
        in case (audio, stop) of
             (Some a, Some b) \<Rightarrow> Some (if pick then a else b)
           | (Some a, None) \<Rightarrow> Some a
           | (None, r) \<Rightarrow> r)"

text \<open>The pump that turns what \<open>recv\<close> gives into frames at the head of the pipeline; \<open>acc k\<close> says whether the head takes the
  frame number \<open>k\<close>.\<close>

fun transport_pump :: "(nat \<Rightarrow> bool) \<Rightarrow> nat \<Rightarrow> media_in option list \<Rightarrow> 'j frame list" where
  "transport_pump acc k [] = []"
| "transport_pump acc k (Some (StreamStart call) # es) =
     (if acc k then [ClientConnected] else []) @ transport_pump acc (Suc k) es"
| "transport_pump acc k (Some (MediaAudio chunk) # es) =
     (if acc k then InputAudio (frame_of_chunk chunk) # transport_pump acc (Suc k) es else [])"
| "transport_pump acc k (Some MediaStop # es) = (if acc k then [End None] else [])"
| "transport_pump acc k (None # es) = (if acc k then [End None] else [])"

section \<open>What the receiver hears\<close>

lemma decode_g711_Nil [simp]: "decode_g711 G c pl = [] \<longleftrightarrow> pl = []"
  by (cases c) (simp_all add: ulaw_to_pcm16_def alaw_to_pcm16_def)

definition decoded :: "g711 \<Rightarrow> g711_codec \<Rightarrow> rtp_packet list \<Rightarrow> audio_chunk list" where
  "decoded G c ps =
     map (\<lambda>p. \<lparr>ac_pcm = decode_g711 G c (payload p), ac_sample_rate = sip_carrier_rate\<rparr>) (filter (\<lambda>p. payload p \<noteq> []) ps)"

lemma decoded_append [simp]: "decoded G c (ps @ qs) = decoded G c ps @ decoded G c qs"
  and decoded_Nil [simp]: "decoded G c [] = []"
  by (simp_all add: decoded_def)

lemma rx_forward_all: "rx_forward (\<lambda>_. True) G c s ps = (s\<lparr>rt_out := rt_out s @ decoded G c ps\<rparr>, True)"
  by (induction ps arbitrary: s) (simp_all add: decoded_def)

text \<open>The packets of one source in a sequence of datagrams, as far as they parse.\<close>

definition heard :: "'a \<Rightarrow> ('a \<times> u8 list) list \<Rightarrow> rtp_packet list" where
  "heard p ds =
     concat (map (\<lambda>(src, d). if src = p then case depacketize (take rtp_recv_buf d) of Some (Inr q) \<Rightarrow> [q] | _ \<Rightarrow> [] else []) ds)"

lemma heard_simps [simp]:
  "heard p [] = []"
  "heard p ((src, d) # ds) =
     (if src = p then case depacketize (take rtp_recv_buf d) of Some (Inr q) \<Rightarrow> q # heard p ds | _ \<Rightarrow> heard p ds else heard p ds)"
  by (auto simp: heard_def split: option.split sum.split)

fun rx_packets ::
  "(nat \<Rightarrow> bool) \<Rightarrow> g711 \<Rightarrow> g711_codec \<Rightarrow> 'a rx_task \<Rightarrow> rtp_packet list \<Rightarrow> ('a rx_task \<times> bool) option" where
  "rx_packets acc G c s [] = Some (s, True)"
| "rx_packets acc G c s (q # qs) =
     (case rx_packet acc G c s q of
        None \<Rightarrow> None
      | Some (s1, True) \<Rightarrow> rx_packets acc G c s1 qs
      | Some (s1, False) \<Rightarrow> Some (s1, False))"

lemma rx_forward_peer: "rx_forward acc G c s ps = (s1, go) \<Longrightarrow> rt_peer s1 = rt_peer s"
  by (induction ps arbitrary: s) (auto simp: Let_def split: if_splits)

lemma rx_switch_peer: "rx_switch acc G c s x = (s1, go) \<Longrightarrow> rt_peer s1 = rt_peer s"
  by (auto simp: rx_switch_def split: option.splits if_splits prod.splits dest!: rx_forward_peer)

lemma rx_packet_peer: "rx_packet acc G c s q = Some (s1, go) \<Longrightarrow> rt_peer s1 = rt_peer s"
  by (auto simp: rx_packet_def split: prod.splits bool.splits option.splits dest!: rx_forward_peer rx_switch_peer)

lemma rx_datagram_cases:
  assumes "rt_peer s = Some p"
  shows "rx_datagram acc G c s src d =
    (case heard p [(src, d)] of q # _ \<Rightarrow> rx_packet acc G c s q | [] \<Rightarrow> Some (s, True))"
  using assms depacketize_total [of "take rtp_recv_buf d"]
  by (auto simp: rx_datagram_def split: option.split sum.split)

lemma rx_loop_heard:
  assumes "rt_peer s = Some p"
  shows "rx_loop acc G c s (map (case_prod Datagram) ds @ evs) =
    (case rx_packets acc G c s (heard p ds) of
       None \<Rightarrow> None
     | Some (s1, True) \<Rightarrow> rx_loop acc G c s1 evs
     | Some (s1, False) \<Rightarrow> Some (s1, True))"
  using assms
proof (induction ds arbitrary: s)
  case (Cons e ds)
  obtain src d where e: "e = (src, d)" by (cases e)
  have h: "heard p (e # ds) = heard p [(src, d)] @ heard p ds" by (simp add: e heard_def)
  show ?case
  proof (cases "heard p [(src, d)]")
    case Nil
    then show ?thesis using Cons by (simp only: h) (simp add: e rx_datagram_cases)
  next
    case (Cons q qs)
    then have "qs = []" by (auto split: if_splits option.splits sum.splits)
    with Cons show ?thesis
      using Cons.IH Cons.prems by (simp only: h) (auto simp: e rx_datagram_cases rx_packet_peer split: option.split bool.split)
  qed
qed simp

lemma jitter_push_depth: "jitter_push j p = Some (j1, out) \<Longrightarrow> jb_depth j1 = jb_depth j"
  by (auto simp: jitter_push_def release_over_eq Let_def split: if_splits bind_splits)

lemma jitter_run_depth: "jitter_run j ps = Some (j1, out) \<Longrightarrow> jb_depth j1 = jb_depth j"
  by (induction ps arbitrary: j out) (auto dest!: jitter_push_depth split: bind_splits)

lemma rx_packets_append:
  "rx_packets acc G c s qs = Some (s1, True) \<Longrightarrow> rx_packets acc G c s (qs @ qs') = rx_packets acc G c s1 qs'"
  by (induction qs arbitrary: s) (auto split: option.splits bool.splits)

lemma rx_packets_one_source:
  assumes "rt_ssrc s = Some x" and "\<forall>q\<in>set qs. ssrc q = x" and "jitter_run (rt_jitter s) qs = Some (j, out)"
  shows "rx_packets (\<lambda>_. True) G c s qs = Some (s\<lparr>rt_jitter := j, rt_out := rt_out s @ decoded G c out\<rparr>, True)"
  using assms
proof (induction qs arbitrary: s out)
  case (Cons q qs)
  from Cons.prems(3) obtain j1 out1 out2 where
    "jitter_push (rt_jitter s) q = Some (j1, out1)" "jitter_run j1 qs = Some (j, out2)" "out = out1 @ out2"
    by (auto split: bind_splits)
  with Cons show ?case by (simp add: rx_packet_def rx_switch_def rx_forward_all)
qed simp

text \<open>A call as a sequence of streams, each with its own source identifier and within the reach of the jitter
  buffer.\<close>

fun streams_ok :: "u32 option \<Rightarrow> ext list list \<Rightarrow> bool" where
  "streams_ok prev [] = True"
| "streams_ok prev (seg # segs) =
     (seg \<noteq> [] \<and> (\<forall>e\<in>set seg. ssrc (snd e) = ssrc (snd (hd seg))) \<and> prev \<noteq> Some (ssrc (snd (hd seg))) \<and>
      ok_stream jitter_depth [] seg \<and> streams_ok (Some (ssrc (snd (hd seg)))) segs)"

definition in_order :: "ext list \<Rightarrow> ext list \<Rightarrow> bool" where
  "in_order seg es \<longleftrightarrow> set es \<subseteq> set seg \<and> map fst es = sorted_list_of_set (fst ` set seg)"

definition flushed :: "g711 \<Rightarrow> g711_codec \<Rightarrow> 'a rx_task \<Rightarrow> audio_chunk list" where
  "flushed G c s = rt_out s @ decoded G c (snd (jitter_drain (rt_jitter s)))"

lemma jitter_reset_new: "jb_depth j = jitter_depth \<Longrightarrow> jitter_reset (fst (jitter_drain j)) = jitter_new"
  by (simp add: jitter_reset_def jitter_new_def jitter_with_depth_def jitter_depth_def jitter_drain_def Let_def)

lemma rx_packets_switch:
  assumes "jb_depth (rt_jitter s) = jitter_depth" and "rt_ssrc s \<noteq> Some (ssrc q)"
    and "rt_ssrc s = None \<Longrightarrow> rt_jitter s = jitter_new"
  shows "rx_packets (\<lambda>_. True) G c s (q # qs) =
    rx_packets (\<lambda>_. True) G c (s\<lparr>rt_jitter := jitter_new, rt_ssrc := Some (ssrc q), rt_out := flushed G c s\<rparr>) (q # qs)"
proof -
  have new: "snd (jitter_drain jitter_new) = []" by (simp add: jitter_drain_def jitter_new_def jitter_with_depth_def)
  have "rx_switch (\<lambda>_. True) G c s (ssrc q) =
      (s\<lparr>rt_jitter := jitter_new, rt_ssrc := Some (ssrc q), rt_out := flushed G c s\<rparr>, True)"
  proof (cases "rt_ssrc s")
    case None
    then show ?thesis using assms(3) new by (simp add: rx_switch_def flushed_def)
  next
    case (Some y)
    then show ?thesis using assms(2) jitter_reset_new [OF assms(1)]
      by (simp add: rx_switch_def flushed_def rx_forward_all split_beta)
  qed
  moreover have "rx_switch (\<lambda>_. True) G c (s\<lparr>rt_jitter := jitter_new, rt_ssrc := Some (ssrc q), rt_out := flushed G c s\<rparr>) (ssrc q) =
      (s\<lparr>rt_jitter := jitter_new, rt_ssrc := Some (ssrc q), rt_out := flushed G c s\<rparr>, True)"
    by (simp add: rx_switch_def)
  ultimately have "rx_packet (\<lambda>_. True) G c s q =
      rx_packet (\<lambda>_. True) G c (s\<lparr>rt_jitter := jitter_new, rt_ssrc := Some (ssrc q), rt_out := flushed G c s\<rparr>) q"
    unfolding rx_packet_def by (simp only:)
  then show ?thesis by (simp only: rx_packets.simps)
qed

lemma max_depth: "max jitter_depth 1 = jitter_depth"
  by (simp add: jitter_depth_def)

lemma rx_packets_streams:
  assumes "streams_ok (rt_ssrc s) segs" and "jb_depth (rt_jitter s) = jitter_depth"
    and "rt_ssrc s = None \<Longrightarrow> rt_jitter s = jitter_new"
  shows "\<exists>s1 ess. rx_packets (\<lambda>_. True) G c s (map snd (concat segs)) = Some (s1, True) \<and>
    flushed G c s1 = flushed G c s @ decoded G c (map snd (concat ess)) \<and> list_all2 in_order segs ess"
  using assms
proof (induction segs arbitrary: s)
  case Nil
  show ?case by (intro exI [of _ s] exI [of _ "[]"]) simp
next
  case (Cons seg segs)
  let ?x = "ssrc (snd (hd seg))"
  let ?s = "s\<lparr>rt_jitter := jitter_new, rt_ssrc := Some ?x, rt_out := flushed G c s\<rparr>"
  from Cons.prems(1) have seg: "seg \<noteq> []" "\<forall>q\<in>set (map snd seg). ssrc q = ?x" "rt_ssrc s \<noteq> Some ?x"
    "ok_stream (max jitter_depth 1) [] seg" "streams_ok (Some ?x) segs"
    unfolding streams_ok.simps by (blast | simp only: max_depth set_map ball_simps, blast)+
  from jitter_ordered [OF seg(4)] obtain j out es where
    j: "jitter_run jitter_new (map snd seg) = Some (j, out)" and
    es: "out @ snd (jitter_drain j) = map snd es" "in_order seg es"
    unfolding jitter_new_def in_order_def by blast
  let ?s1 = "?s\<lparr>rt_jitter := j, rt_out := rt_out ?s @ decoded G c out\<rparr>"
  have one: "rx_packets (\<lambda>_. True) G c ?s (map snd seg) = Some (?s1, True)"
    using seg(2) j by (intro rx_packets_one_source [where x = ?x]) simp_all
  have d: "jb_depth j = jitter_depth"
    using jitter_run_depth [OF j] by (simp add: jitter_new_def jitter_with_depth_def jitter_depth_def)
  from Cons.IH [of ?s1] seg(5) d obtain s2 ess where
    s2: "rx_packets (\<lambda>_. True) G c ?s1 (map snd (concat segs)) = Some (s2, True)"
    "flushed G c s2 = flushed G c ?s1 @ decoded G c (map snd (concat ess))" "list_all2 in_order segs ess" by auto
  have "rx_packets (\<lambda>_. True) G c s (map snd (concat (seg # segs))) =
      rx_packets (\<lambda>_. True) G c ?s (map snd seg @ map snd (concat segs))"
    using rx_packets_switch [of s "snd (hd seg)"] Cons.prems(2,3) seg(1,3) by (cases seg) auto
  also have "\<dots> = Some (s2, True)"
    using rx_packets_append [OF one] s2(1) by simp
  finally have "rx_packets (\<lambda>_. True) G c s (map snd (concat (seg # segs))) = Some (s2, True)" .
  moreover have "flushed G c ?s1 = flushed G c s @ decoded G c (map snd es)"
    by (simp add: flushed_def flip: es(1))
  ultimately show ?case
    using s2(2,3) es(2) by (intro exI [of _ s2] exI [of _ "es # ess"]) simp
qed

lemma rx_loop_first:
  assumes "rt_peer s = None"
  shows "rx_loop acc G c s (map (case_prod Datagram) ((p, d) # ds) @ evs) =
    (case rx_packets acc G c (s\<lparr>rt_peer := Some p\<rparr>) (heard p ((p, d) # ds)) of
       None \<Rightarrow> None
     | Some (s1, True) \<Rightarrow> rx_loop acc G c s1 evs
     | Some (s1, False) \<Rightarrow> Some (s1, True))"
proof -
  have "rx_datagram acc G c s p d = rx_datagram acc G c (s\<lparr>rt_peer := Some p\<rparr>) p d"
    using assms by (simp add: rx_datagram_def)
  then have "rx_loop acc G c s (map (case_prod Datagram) ((p, d) # ds) @ evs) =
      rx_loop acc G c (s\<lparr>rt_peer := Some p\<rparr>) (map (case_prod Datagram) ((p, d) # ds) @ evs)"
    by simp
  moreover have "rt_peer (s\<lparr>rt_peer := Some p\<rparr>) = Some p" by simp
  ultimately show ?thesis by (simp only: rx_loop_heard)
qed

lemma rx_call:
  fixes p :: 'a
  assumes "heard p ((p, d) # ds) = map snd (concat segs)" and "streams_ok None segs"
  shows "\<exists>s ess. rx_loop (\<lambda>_. True) G c rx_task_new (map (case_prod Datagram) ((p, d) # ds) @ [RxHangup]) = Some (s, True) \<and>
    rt_out s = decoded G c (map snd (concat ess)) \<and> list_all2 in_order segs ess"
proof -
  let ?s = "rx_task_new\<lparr>rt_peer := Some p\<rparr> :: 'a rx_task"
  have new: "rt_ssrc ?s = None" "rt_jitter ?s = jitter_new" "jb_depth jitter_new = jitter_depth" "flushed G c ?s = []"
    "rt_peer rx_task_new = (None :: 'a option)"
    by (simp_all add: rx_task_new_def flushed_def jitter_new_def jitter_with_depth_def jitter_drain_def jitter_depth_def)
  from rx_packets_streams [of ?s segs G c] assms(2) new obtain s1 ess where
    s1: "rx_packets (\<lambda>_. True) G c ?s (map snd (concat segs)) = Some (s1, True)"
    "flushed G c s1 = decoded G c (map snd (concat ess))" "list_all2 in_order segs ess" by auto
  have "rx_finish (\<lambda>_. True) G c s1 = s1\<lparr>rt_jitter := fst (jitter_drain (rt_jitter s1)), rt_out := flushed G c s1\<rparr>"
    by (simp add: rx_finish_def rx_forward_all flushed_def split_beta)
  moreover have "rx_loop (\<lambda>_. True) G c rx_task_new (map (case_prod Datagram) ((p, d) # ds) @ [RxHangup]) =
      Some (rx_finish (\<lambda>_. True) G c s1, True)"
    using s1(1) by (simp only: rx_loop_first [OF new(5)] assms(1)) simp
  ultimately show ?thesis using s1(2,3) by auto
qed

text \<open>The first datagram decides whom the receiver listens to, whether it parses or not: after a stray one, the
  caller is never heard.\<close>

lemma stray_datagram_deafens:
  fixes q :: 'a
  assumes "heard q ((q, d) # ds) = []"
  shows "\<exists>s. rx_loop acc G c rx_task_new (map (case_prod Datagram) ((q, d) # ds) @ [RxHangup]) = Some (s, True) \<and> rt_out s = []"
proof -
  have new: "rt_peer rx_task_new = (None :: 'a option)" by (simp add: rx_task_new_def)
  have "rx_loop acc G c rx_task_new (map (case_prod Datagram) ((q, d) # ds) @ [RxHangup]) =
      Some (rx_finish acc G c (rx_task_new\<lparr>rt_peer := Some q\<rparr>), True)"
    by (simp only: rx_loop_first [OF new] assms) simp
  then show ?thesis
    by (simp add: rx_finish_def rx_task_new_def jitter_drain_def jitter_new_def jitter_with_depth_def)
qed

section \<open>What the pump sends\<close>

text \<open>The samples the transport accepted, in order.\<close>

fun tx_handed :: "(nat \<Rightarrow> bool) \<Rightarrow> g711 \<Rightarrow> g711_codec \<Rightarrow> tx_task \<Rightarrow> tx_event list \<Rightarrow> i16 list" where
  "tx_handed net G c s [] = []"
| "tx_handed net G c s (ev # evs) =
     (case ev of
        TxSend chunk \<Rightarrow> (case sip_send_audio s chunk of Some (Inr _) \<Rightarrow> ac_pcm chunk | _ \<Rightarrow> [])
      | _ \<Rightarrow> []) @ tx_handed net G c (tx_step net G c s ev) evs"

fun packetize_end :: "rtp_sender \<Rightarrow> u8 list list \<Rightarrow> rtp_sender" where
  "packetize_end s [] = s"
| "packetize_end s (pl # pls) = packetize_end (fst (packetize s pl)) pls"

lemma packetize_all_snoc:
  "packetize_all s (pls @ [pl]) = packetize_all s pls @ [snd (packetize (packetize_end s pls) pl)]"
  "packetize_end s (pls @ [pl]) = fst (packetize (packetize_end s pls) pl)"
  by (induction pls arbitrary: s) (simp_all add: split_beta)

lemma packetize_all_snoc2:
  "packetize_all s (qls @ pls @ [pl]) = packetize_all s (qls @ pls) @ [snd (packetize (packetize_end s (qls @ pls)) pl)]"
  "packetize_end s (qls @ pls @ [pl]) = fst (packetize (packetize_end s (qls @ pls)) pl)"
  using packetize_all_snoc [of s "qls @ pls" pl] by simp_all

lemma length_packetize_all [simp]: "length (packetize_all s pls) = length pls"
  by (induction pls arbitrary: s) (simp_all add: split_beta)

abbreviation (input) silent :: "i16 list" where "silent \<equiv> replicate frame_samples 0"

text \<open>The invariant of the pump: \<open>k\<close> frames of silence and \<open>frames\<close> are on the wire; at most the one frame the socket refused
  is lost, and then the pump has ended; the rest of what was accepted is still held.\<close>

definition tx_ok :: "(nat \<Rightarrow> bool) \<Rightarrow> g711 \<Rightarrow> g711_codec \<Rightarrow> rtp_sender \<Rightarrow> i16 list \<Rightarrow> tx_task \<Rightarrow> bool" where
  "tx_ok net G c s0 handed s \<longleftrightarrow>
     (\<exists>k frames lost. k \<le> preroll_frames \<and> (frames = [] \<and> lost = [] \<or> k = preroll_frames) \<and>
        tx_wire s = packetize_all s0 (map (encode_g711 G c) (replicate k silent @ frames)) \<and>
        (tx_ended s \<or> lost = [] \<and> k + tx_preroll s = preroll_frames \<and>
           tx_sender s = packetize_end s0 (map (encode_g711 G c) (replicate k silent @ frames))) \<and>
        list_all net [0..<k + length frames] \<and> (\<forall>f\<in>set frames. length f = frame_samples) \<and>
        (lost = [] \<or> tx_ended s \<and> length lost = frame_samples \<and> net (k + length frames) = False) \<and>
        concat frames @ lost @ tx_pending s @ concat (tx_queue s) = handed)"

lemma replicate_snoc: "replicate k x @ [x] = replicate (Suc k) x"
  by (simp add: replicate_append_same)

lemma append_take_drop_id_app: "take n xs @ drop n xs @ ys = xs @ ys"
  by (simp flip: append_assoc)

lemma rtp_send_fields:
  "tx_preroll (rtp_send net s pl) = tx_preroll s" "tx_pending (rtp_send net s pl) = tx_pending s"
  "tx_queue (rtp_send net s pl) = tx_queue s"
  "tx_wire (rtp_send net s pl) = (if net (length (tx_wire s)) then tx_wire s @ [snd (packetize (tx_sender s) pl)] else tx_wire s)"
  "tx_sender (rtp_send net s pl) = fst (packetize (tx_sender s) pl)"
  "tx_ended (rtp_send net s pl) \<longleftrightarrow> tx_ended s \<or> \<not> net (length (tx_wire s))"
  by (simp_all add: rtp_send_def split_beta)

lemma tx_tick_ok:
  assumes "tx_ok net G c s0 handed s" and live: "\<not> tx_ended s"
  shows "tx_ok net G c s0 handed (tx_tick net G c s)"
proof -
  from assms obtain k frames where k: "k + tx_preroll s = preroll_frames" "frames = [] \<or> k = preroll_frames"
    "tx_wire s = packetize_all s0 (map (encode_g711 G c) (replicate k silent @ frames))"
    "tx_sender s = packetize_end s0 (map (encode_g711 G c) (replicate k silent @ frames))"
    and f: "list_all net [0..<k + length frames]" "\<forall>f\<in>set frames. length f = frame_samples" "concat frames @ tx_pending s @ concat (tx_queue s) = handed"
    unfolding tx_ok_def by auto
  have wl: "length (tx_wire s) = k + length frames" using k(3) by simp
  consider (pre) "0 < tx_preroll s" | (frame) "tx_preroll s = 0" "frame_samples \<le> length (tx_pending s)"
    | (idle) "tx_preroll s = 0" "length (tx_pending s) < frame_samples" by linarith
  then show ?thesis
  proof cases
    case pre
    then have fr: "frames = []" using k(1,2) by auto
    have snoc: "replicate (Suc k) silent = replicate k silent @ [silent]" by (simp only: replicate_snoc)
    show ?thesis
    proof (cases "net (length (tx_wire s))")
      case True
      then have "list_all net [0..<Suc k + length ([] :: i16 list list)]" using f(1) wl fr by simp
      then show ?thesis using True pre k f fr snoc unfolding tx_ok_def
        by (intro exI [of _ "Suc k"] exI [of _ "[]"])
          (simp add: tx_tick_def rtp_send_fields packetize_all_snoc del: replicate.simps)
    next
      case False
      then show ?thesis using pre k f fr unfolding tx_ok_def
        by (intro exI [of _ k] exI [of _ "[]"]) (simp add: tx_tick_def rtp_send_fields)
    qed
  next
    case frame
    let ?fr = "take frame_samples (tx_pending s)"
    have kp: "k = preroll_frames" using k(1) frame(1) by simp
    show ?thesis
    proof (cases "net (length (tx_wire s))")
      case True
      then have "list_all net [0..<k + length (frames @ [?fr])]" using f(1) wl by simp
      then show ?thesis using True frame k f kp unfolding tx_ok_def
        by (intro exI [of _ k] exI [of _ "frames @ [?fr]"] exI [of _ "[]"] conjI)
          (auto simp: tx_tick_def rtp_send_fields packetize_all_snoc2 append_take_drop_id_app)
    next
      case False
      then show ?thesis using frame k f kp wl unfolding tx_ok_def
        by (intro exI [of _ k] exI [of _ frames] exI [of _ ?fr] conjI)
          (auto simp: tx_tick_def rtp_send_fields append_take_drop_id_app)
    qed
  next
    case idle
    then show ?thesis using k f unfolding tx_ok_def
      by (intro exI [of _ k] exI [of _ frames] exI [of _ "[]"]) (simp add: tx_tick_def)
  qed
qed

lemma tx_ok_flags [simp]:
  "tx_ok net G c s0 handed (s\<lparr>tx_closed := b\<rparr>) = tx_ok net G c s0 handed s"
  "tx_ok net G c s0 handed (s\<lparr>tx_channel_open := b\<rparr>) = tx_ok net G c s0 handed s"
  by (simp_all add: tx_ok_def)

lemma tx_ok_ended: "tx_ok net G c s0 handed s \<Longrightarrow> tx_ok net G c s0 handed (s\<lparr>tx_ended := True\<rparr>)"
  unfolding tx_ok_def by (elim exE) (rule exI, rule exI, rule exI, auto)

lemma tx_ok_queue:
  assumes "tx_ok net G c s0 handed s"
  shows "tx_ok net G c s0 (handed @ xs) (s\<lparr>tx_queue := tx_queue s @ [xs]\<rparr>)"
    and "tx_queue s = ys # q \<Longrightarrow> tx_ok net G c s0 handed (s\<lparr>tx_pending := tx_pending s @ ys, tx_queue := q\<rparr>)"
proof -
  show "tx_ok net G c s0 (handed @ xs) (s\<lparr>tx_queue := tx_queue s @ [xs]\<rparr>)"
    using assms unfolding tx_ok_def by (elim exE) (rule exI, rule exI, rule exI, auto)
  show "tx_ok net G c s0 handed (s\<lparr>tx_pending := tx_pending s @ ys, tx_queue := q\<rparr>)" if "tx_queue s = ys # q"
    using assms that unfolding tx_ok_def by (elim exE) (rule exI, rule exI, rule exI, auto)
qed

lemma tx_step_ok:
  assumes "tx_ok net G c s0 handed s"
  shows "tx_ok net G c s0 (handed @ tx_handed net G c s [ev]) (tx_step net G c s ev)"
proof (cases ev)
  case (TxSend chunk)
  then show ?thesis using assms tx_ok_queue(1) [OF assms] by (simp add: tx_step_def sip_send_audio_def)
next
  case TxRecv
  then show ?thesis using assms tx_ok_queue(2) [OF assms]
    by (simp add: tx_step_def tx_recv_def split: list.split)
next
  case TxTick
  then show ?thesis using assms tx_tick_ok [OF assms] by (simp add: tx_step_def)
qed (use assms tx_ok_ended [OF assms] in \<open>simp_all add: tx_step_def sip_send_clear_def\<close>)

lemma tx_handed_Cons: "tx_handed net G c s (ev # evs) = tx_handed net G c s [ev] @ tx_handed net G c (tx_step net G c s ev) evs"
  by simp

lemma tx_run_ok:
  assumes "tx_ok net G c s0 handed s"
  shows "tx_ok net G c s0 (handed @ tx_handed net G c s evs) (tx_run net G c s evs)"
  using assms
proof (induction evs arbitrary: s handed)
  case (Cons ev evs)
  show ?case
    using Cons.IH [OF tx_step_ok [OF Cons.prems, of ev]] unfolding tx_handed_Cons [of net G c s ev evs]
    by (simp add: tx_run_def del: tx_handed.simps)
qed (simp add: tx_run_def)

lemma tx_new_ok: "tx_ok net G c (with_seeds (g711_payload_type c) ss sq ts) [] (tx_new c ss sq ts)"
  unfolding tx_ok_def tx_new_def by (intro exI [of _ 0] exI [of _ "[]"]) simp

lemma length_encode_g711 [simp]: "length (encode_g711 G c xs) = length xs"
  by (cases c) (simp_all add: pcm16_to_ulaw_def pcm16_to_alaw_def)

lemma g711_payload_type_masked [simp]: "g711_payload_type c AND 0x7f = g711_payload_type c"
  by (cases c) (simp_all add: pt_pcmu_def pt_pcma_def)

definition nth_packet :: "g711 \<Rightarrow> g711_codec \<Rightarrow> u32 \<Rightarrow> u16 \<Rightarrow> u32 \<Rightarrow> i16 list list \<Rightarrow> nat \<Rightarrow> rtp_packet" where
  "nth_packet G c ss sq ts fs i =
     \<lparr>payload_type = g711_payload_type c, seq = sq + of_nat i, timestamp = ts + of_nat (frame_samples * i),
      ssrc = ss, marker = False, payload = encode_g711 G c (fs ! i)\<rparr>"

lemma length_concat_frames: "\<forall>f\<in>set fs. length f = n \<Longrightarrow> length (concat fs) = n * length fs"
  by (induction fs) simp_all

lemma packetize_frames:
  assumes "\<forall>f\<in>set fs. length f = frame_samples"
  shows "map depacketize (packetize_all (with_seeds (g711_payload_type c) ss sq ts) (map (encode_g711 G c) fs)) =
    map (\<lambda>i. Some (Ok (nth_packet G c ss sq ts fs i))) [0..<length fs]"
proof -
  have "length (concat (take i (map (encode_g711 G c) fs))) = frame_samples * i" if "i < length fs" for i
    using length_concat_frames [of "map (encode_g711 G c) (take i fs)" frame_samples] assms that
    by (auto simp: take_map dest: in_set_takeD)
  then show ?thesis unfolding packetize_round_trip
    by (intro map_cong) (simp_all add: nth_packet_def with_seeds_def)
qed

text \<open>Pump order and content: whatever the pipeline, the clock and the network do, the datagrams the socket took are
  up to ten frames of silence and then the accepted samples in blocks of 160, with consecutive sequence numbers and
  timestamps; of the rest at most the first block is lost, in the datagram the socket refused, and the pump had not
  got to the others.\<close>

lemma pump_sends_in_order:
  obtains k frames lost where
    "k \<le> preroll_frames" "frames = [] \<and> lost = [] \<or> k = preroll_frames" "list_all net [0..<k + length frames]" "\<forall>f\<in>set frames. length f = frame_samples"
    "lost = [] \<or> tx_ended (tx_run net G c (tx_new c ss sq ts) evs) \<and> length lost = frame_samples \<and> net (k + length frames) = False"
    "concat frames @ lost @ tx_pending (tx_run net G c (tx_new c ss sq ts) evs) @
       concat (tx_queue (tx_run net G c (tx_new c ss sq ts) evs)) = tx_handed net G c (tx_new c ss sq ts) evs"
    "tx_wire (tx_run net G c (tx_new c ss sq ts) evs) =
       packetize_all (with_seeds (g711_payload_type c) ss sq ts) (map (encode_g711 G c) (replicate k silent @ frames))"
  using tx_run_ok [OF tx_new_ok, of net G c ss sq ts evs] that unfolding tx_ok_def append_Nil by blast

section \<open>One leg to the other\<close>

lemma length_filter_above: "length (filter (\<lambda>j. i < j) [0..<m]) = m - Suc i"
  by (induction m) auto

lemma above_run:
  fixes b :: int
  shows "above (map (\<lambda>i. b + int i) [0..<m]) (b + int i) = m - Suc i"
proof -
  have "distinct (map (\<lambda>i. b + int i) [0..<m])" by (simp add: distinct_map inj_on_def)
  then have "above (map (\<lambda>i. b + int i) [0..<m]) (b + int i) = length (filter (\<lambda>z. b + int i < z) (map (\<lambda>i. b + int i) [0..<m]))"
    unfolding above_def by (simp only: distinct_remdups_id)
  also have "\<dots> = length (filter (\<lambda>j. i < j) [0..<m])" by (simp add: filter_map comp_def)
  finally show ?thesis by (simp only: length_filter_above)
qed

lemma ok_stream_run:
  assumes "\<And>i. seq (P i) = word_of_int (b + int i)" and "m \<le> n"
  shows "ok_stream jitter_depth (map (\<lambda>i. b + int i) [0..<m]) (map (\<lambda>i. (b + int i, P i)) [m..<n])"
  using assms(2)
proof (induction "n - m" arbitrary: m)
  case (Suc k)
  let ?ys = "map (\<lambda>i. b + int i) [0..<m]"
  from Suc.hyps(2) have m: "m < n" by simp
  then have run: "map (\<lambda>i. (b + int i, P i)) [m..<n] = (b + int m, P m) # map (\<lambda>i. (b + int i, P i)) [Suc m..<n]"
    by (simp add: upt_conv_Cons)
  have nr: "\<forall>y\<in>set ?ys. above ?ys y \<le> jitter_depth \<longrightarrow> near (b + int m) y"
  proof (intro ballI impI)
    fix y assume y: "y \<in> set ?ys" "above ?ys y \<le> jitter_depth"
    then obtain i where i: "i < m" "y = b + int i" by auto
    with y(2) have "m - Suc i \<le> 2" unfolding i(2) above_run jitter_depth_def by simp
    with i show "near (b + int m) y" by (simp add: near_def)
  qed
  have ab: "above ?ys (b + int m) \<le> jitter_depth" unfolding above_run by simp
  have "ok_stream jitter_depth (map (\<lambda>i. b + int i) [0..<Suc m]) (map (\<lambda>i. (b + int i, P i)) [Suc m..<n])"
    using Suc.hyps(2) m by (intro Suc.hyps(1)) simp_all
  then have "ok_stream jitter_depth (?ys @ [b + int m]) (map (\<lambda>i. (b + int i, P i)) [Suc m..<n])" by simp
  then show ?case unfolding run ok_stream.simps using nr ab assms(1) by blast
qed simp

lemma in_order_sorted:
  assumes "in_order seg es" and "sorted_wrt (<) (map fst seg)"
  shows "es = seg"
proof -
  have d: "distinct (map fst seg)" and "sorted (map fst seg)" using assms(2) by (simp_all add: strict_sorted_iff)
  then have eq: "map fst es = map fst seg"
    using assms(1) sorted_list_of_set.idem_if_sorted_distinct [of "map fst seg"] by (simp add: in_order_def)
  have "map (\<lambda>x. (x, the (map_of seg x))) (map fst xs) = xs" if "set xs \<subseteq> set seg" for xs
    using that by (induction xs) (auto simp: map_of_is_SomeI [OF d])
  from this [of es] this [of seg] eq assms(1) show ?thesis unfolding in_order_def by (metis order_refl)
qed

lemma length_packetize: "d \<in> set (packetize_all s pls) \<Longrightarrow> \<exists>pl\<in>set pls. length d = 12 + length pl"
  by (induction pls arbitrary: s) (auto simp: packetize_def u16_to_be_def u32_to_be_def split_beta)

lemma heard_own:
  assumes "map depacketize ds = map (\<lambda>q. Some (Ok q)) qs" and "\<forall>d\<in>set ds. length d \<le> rtp_recv_buf"
  shows "heard a (map (Pair a) ds) = qs"
  using assms by (induction ds arbitrary: qs) auto

lemma sip_leg:
  fixes a :: 'a
  assumes "\<forall>f\<in>set fs. length f = frame_samples"
  shows "\<exists>r. rx_loop (\<lambda>_. True) G c rx_task_new
      (map (Datagram a) (packetize_all (with_seeds (g711_payload_type c) ss sq ts) (map (encode_g711 G c) fs)) @ [RxHangup]) =
        Some (r, True) \<and> map ac_pcm (rt_out r) = map (decode_g711 G c \<circ> encode_g711 G c) fs"
proof (cases "fs = []")
  case True
  then show ?thesis
    by (simp add: rx_finish_def rx_task_new_def jitter_drain_def jitter_new_def jitter_with_depth_def)
next
  case False
  let ?ds = "packetize_all (with_seeds (g711_payload_type c) ss sq ts) (map (encode_g711 G c) fs)"
  let ?P = "nth_packet G c ss sq ts fs"
  let ?seg = "map (\<lambda>i. (uint sq + int i, ?P i)) [0..<length fs]"
  have len: "\<forall>d\<in>set ?ds. length d \<le> rtp_recv_buf"
    using assms length_packetize [of _ "with_seeds (g711_payload_type c) ss sq ts"]
    by (fastforce simp: rtp_recv_buf_def frame_samples_def)
  have h: "heard a (map (Pair a) ?ds) = map snd (concat [?seg])"
  proof (rule heard_own)
    show "map depacketize ?ds = map (\<lambda>q. Some (Ok q)) (map snd (concat [?seg]))"
      unfolding packetize_frames [OF assms] by (simp add: comp_def)
  qed (rule len)
  have st: "ok_stream jitter_depth [] ?seg"
    using ok_stream_run [of ?P "uint sq" 0 "length fs"] by (simp add: nth_packet_def)
  have ss: "\<forall>e\<in>set ?seg. ssrc (snd e) = ss" "?seg \<noteq> []" using False by (auto simp: nth_packet_def)
  then have hd: "ssrc (snd (hd ?seg)) = ss" using hd_in_set by blast
  have ok: "streams_ok None [?seg]"
    unfolding streams_ok.simps hd by (intro conjI ss st) simp_all
  have "length ?ds \<noteq> 0" using False by simp
  then obtain d ds where ds: "?ds = d # ds" by (cases ?ds) auto
  have dg: "map (case_prod Datagram) ((a, d) # map (Pair a) ds) = map (Datagram a) ?ds" by (simp add: ds)
  from rx_call [of a d "map (Pair a) ds" "[?seg]" G c] h ok obtain r ess where
    r: "rx_loop (\<lambda>_. True) G c rx_task_new (map (Datagram a) ?ds @ [RxHangup]) = Some (r, True)"
    "rt_out r = decoded G c (map snd (concat ess))" "list_all2 in_order [?seg] ess"
    unfolding dg by (auto simp: ds simp del: heard_simps)
  from r(3) obtain es where "ess = [es]" "in_order ?seg es" by (auto simp: list_all2_Cons1)
  moreover have "sorted_wrt (<) (map fst ?seg)" by (simp add: comp_def sorted_wrt_map)
  ultimately have "ess = [?seg]" using in_order_sorted by blast
  moreover have "payload (?P i) \<noteq> []" if "i < length fs" for i
    using assms that nth_mem [of i fs] by (auto simp: nth_packet_def frame_samples_def simp flip: length_0_conv)
  ultimately have "map ac_pcm (rt_out r) = map (\<lambda>i. decode_g711 G c (payload (?P i))) [0..<length fs]"
    using r(2) by (simp add: decoded_def comp_def filter_map)
  also have "\<dots> = map (decode_g711 G c \<circ> encode_g711 G c) fs"
    by (intro nth_equalityI) (simp_all add: nth_packet_def)
  finally show ?thesis using r(1) by blast
qed

section \<open>Properties\<close>

text \<open>C36. The receiver plays the caller and nobody else: of the datagrams of a call it takes those of the source of the
  first one that parse, and if these are streams (one for each source identifier in turn) in which no packet is overtaken
  by more than the depth of the jitter buffer, then by the hang-up the pipeline has got the decoded payload of each packet
  of each stream once, in the order of the sequence numbers, stream after stream.\<close>

theorem sip_call_heard:
  assumes "heard p ((p, d) # ds) = map snd (concat segs)" and "streams_ok None segs"
  shows "\<exists>s ess. rx_loop (\<lambda>_. True) G c rx_task_new (map (case_prod Datagram) ((p, d) # ds) @ [RxHangup]) = Some (s, True) \<and>
    rt_out s = decoded G c (map snd (concat ess)) \<and>
    list_all2 (\<lambda>seg es. set es \<subseteq> set seg \<and> map fst es = sorted_list_of_set (fst ` set seg)) segs ess"
  using rx_call [OF assms] unfolding in_order_def .

definition demo_packet :: "u32 \<Rightarrow> int \<Rightarrow> u8 list \<Rightarrow> ext" where
  "demo_packet ss x pl = (x, \<lparr>payload_type = 0, seq = word_of_int x, timestamp = 0, ssrc = ss, marker = False, payload = pl\<rparr>)"

definition demo_wire :: "ext \<Rightarrow> u8 list" where
  "demo_wire e = wire (snd e) [] None"

definition demo_g711 :: g711 where
  "demo_g711 = \<lparr>decode_ulaw = ucast, encode_ulaw = ucast, decode_alaw = ucast, encode_alaw = ucast\<rparr>"

lemma demo_wire_parses:
  assumes "length pl \<le> 100"
  shows "depacketize (take rtp_recv_buf (demo_wire (demo_packet ss x pl))) = Some (Ok (snd (demo_packet ss x pl)))"
proof -
  let ?w = "demo_wire (demo_packet ss x pl)"
  have "length ?w \<le> rtp_recv_buf"
    using assms by (simp add: demo_wire_def demo_packet_def wire_def wire_ext_def u16_to_be_def u32_to_be_def rtp_recv_buf_def)
  then have "take rtp_recv_buf ?w = ?w" by simp
  moreover have "depacketize ?w = Some (Ok (snd (demo_packet ss x pl)))"
    unfolding demo_wire_def by (rule depacketize_of_wire) (simp_all add: demo_packet_def)
  ultimately show ?thesis by (simp only:)
qed

theorem sip_call_heard_witness:
  "\<exists>s ess. rx_loop (\<lambda>_. True) demo_g711 Pcmu rx_task_new
      (map (case_prod Datagram)
        [(1 :: nat, demo_wire (demo_packet 7 65535 [1])), (2, demo_wire (demo_packet 9 0 [66])), (1, demo_wire (demo_packet 7 65537 [3])),
         (1, demo_wire (demo_packet 7 65536 [2])), (1, [0]), (1, demo_wire (demo_packet 8 5 [4]))] @ [RxHangup]) = Some (s, True) \<and>
    rt_out s = decoded demo_g711 Pcmu (map snd (concat ess)) \<and>
    list_all2 (\<lambda>seg es. set es \<subseteq> set seg \<and> map fst es = sorted_list_of_set (fst ` set seg))
      [[demo_packet 7 65535 [1], demo_packet 7 65537 [3], demo_packet 7 65536 [2]], [demo_packet 8 5 [4]]] ess"
proof (rule sip_call_heard)
  have short: "depacketize (take rtp_recv_buf [0]) = Some (Err TooShort)" by (rule depacketize_short) (simp add: rtp_recv_buf_def)
  show "heard 1 [(1 :: nat, demo_wire (demo_packet 7 65535 [1])), (2, demo_wire (demo_packet 9 0 [66])), (1, demo_wire (demo_packet 7 65537 [3])),
      (1, demo_wire (demo_packet 7 65536 [2])), (1, [0]), (1, demo_wire (demo_packet 8 5 [4]))] =
    map snd (concat [[demo_packet 7 65535 [1], demo_packet 7 65537 [3], demo_packet 7 65536 [2]], [demo_packet 8 5 [4]]])"
    by (simp add: demo_wire_parses short)
  show "streams_ok None [[demo_packet 7 65535 [1], demo_packet 7 65537 [3], demo_packet 7 65536 [2]], [demo_packet 8 5 [4]]]"
    by (simp add: demo_packet_def jitter_depth_def above_def near_def)
qed

text \<open>C37. One leg to the other: let a pump run under any interleaving of chunks handed in, reads, ticks, socket
  errors and hang-up, and let a receiver get the datagrams its socket took, all of them before the first it refused. Then the receiver hears the silence of the
  pre-roll, up to ten frames, and after it the samples handed in, each through the codec and back, in blocks of 160, in
  order and without a gap. What it has not heard is one block at most that was lost with the datagram the socket
  refused, after which the pump has ended, and then what the pump still held in its buffer and its channel.\<close>

theorem sip_leg_round_trip:
  "\<exists>r k frames lost. rx_loop (\<lambda>_. True) G c rx_task_new
      (map (Datagram a) (tx_wire (tx_run net G c (tx_new c ss sq ts) evs)) @ [RxHangup]) = Some (r, True) \<and>
    map ac_pcm (rt_out r) = map (decode_g711 G c \<circ> encode_g711 G c) (replicate k (replicate 160 0) @ frames) \<and>
    k \<le> 10 \<and> (frames = [] \<and> lost = [] \<or> k = 10) \<and> list_all (\<lambda>f. length f = 160) frames \<and>
    list_all net [0..<k + length frames] \<and>
    (lost = [] \<or> tx_ended (tx_run net G c (tx_new c ss sq ts) evs) \<and> length lost = 160 \<and> net (k + length frames) = False) \<and>
    concat frames @ lost @ tx_pending (tx_run net G c (tx_new c ss sq ts) evs) @
      concat (tx_queue (tx_run net G c (tx_new c ss sq ts) evs)) = tx_handed net G c (tx_new c ss sq ts) evs"
proof -
  obtain k frames lost where kf: "k \<le> preroll_frames" "frames = [] \<and> lost = [] \<or> k = preroll_frames" "list_all net [0..<k + length frames]" "\<forall>f\<in>set frames. length f = frame_samples"
    "lost = [] \<or> tx_ended (tx_run net G c (tx_new c ss sq ts) evs) \<and> length lost = frame_samples \<and> net (k + length frames) = False"
    "concat frames @ lost @ tx_pending (tx_run net G c (tx_new c ss sq ts) evs) @
       concat (tx_queue (tx_run net G c (tx_new c ss sq ts) evs)) = tx_handed net G c (tx_new c ss sq ts) evs"
    and w: "tx_wire (tx_run net G c (tx_new c ss sq ts) evs) =
       packetize_all (with_seeds (g711_payload_type c) ss sq ts) (map (encode_g711 G c) (replicate k silent @ frames))"
    by (rule pump_sends_in_order)
  have "\<forall>f\<in>set (replicate k silent @ frames). length f = frame_samples" using kf(4) by auto
  from sip_leg [OF this, of G c a ss sq ts] obtain r where
    "rx_loop (\<lambda>_. True) G c rx_task_new (map (Datagram a) (tx_wire (tx_run net G c (tx_new c ss sq ts) evs)) @ [RxHangup]) = Some (r, True)"
    "map ac_pcm (rt_out r) = map (decode_g711 G c \<circ> encode_g711 G c) (replicate k silent @ frames)"
    unfolding w by blast
  then show ?thesis using kf
    by (intro exI [of _ r] exI [of _ k] exI [of _ frames] exI [of _ lost] conjI)
      (simp_all add: preroll_frames_def frame_samples_def list_all_iff)
qed

text \<open>A barge-in does not reach the pump: after \<open>send_clear\<close> every tick sends another frame of the interrupted reply
  until the buffer is empty.\<close>

lemma tx_ticks_send:
  assumes "tx_preroll s = 0" and "\<not> tx_ended s" and "n * frame_samples \<le> length (tx_pending s)"
  shows "length (tx_wire (tx_run (\<lambda>_. True) G c s (replicate n TxTick))) = length (tx_wire s) + n"
  using assms
proof (induction n arbitrary: s)
  case (Suc n)
  have "length (tx_wire (tx_run (\<lambda>_. True) G c (tx_step (\<lambda>_. True) G c s TxTick) (replicate n TxTick))) =
      length (tx_wire (tx_step (\<lambda>_. True) G c s TxTick)) + n"
    using Suc.prems by (intro Suc.IH) (simp_all add: tx_step_def tx_tick_def rtp_send_def split_beta)
  then show ?case
    using Suc.prems by (simp add: tx_run_def) (simp add: tx_step_def tx_tick_def rtp_send_def split_beta)
qed (simp add: tx_run_def)

lemma clear_keeps_playing:
  assumes "tx_preroll s = 0" and "\<not> tx_ended s" and "n * frame_samples \<le> length (tx_pending s)"
  shows "length (tx_wire (tx_run (\<lambda>_. True) G c s (TxClear # replicate n TxTick))) = length (tx_wire s) + n"
  using tx_ticks_send [OF assms] by (simp add: tx_run_def tx_step_def sip_send_clear_def)

text \<open>The stream is announced before anything else, and once.\<close>

lemma sip_recv_start_once:
  assumes "sip_recv pick s = Some (s', m)"
  shows "sp_started s'" and "(\<exists>call. m = StreamStart call) \<longleftrightarrow> \<not> sp_started s"
  using assms by (auto simp: sip_recv_def Let_def split: if_splits list.splits option.splits)

text \<open>A call that starts, carries chunks and stops enters the pipeline as one connection, the chunks in order and one end,
  whatever the transport still reports afterwards.\<close>

lemma transport_pump_call:
  "transport_pump (\<lambda>_. True) k (Some (StreamStart call) # map (Some \<circ> MediaAudio) chunks @ Some MediaStop # es) =
     ClientConnected # map (InputAudio \<circ> frame_of_chunk) chunks @ [End None]"
proof -
  have "transport_pump (\<lambda>_. True) k (map (Some \<circ> MediaAudio) chunks @ Some MediaStop # es) =
      map (InputAudio \<circ> frame_of_chunk) chunks @ [End None]" for k
    by (induction chunks arbitrary: k) simp_all
  then show ?thesis by simp
qed

end
