(* ===== verification/Sip_Agent.thy ===== *)
theory Sip_Agent
  imports Sip_Media
begin

text \<open>
  The SIP user agent, \<^verbatim>\<open>flowcat-core/src/sip/agent.rs\<close>: the port scan for media sockets, the registration loop, and the
  life of dialogs from an INVITE to the supervisor that removes them.

  The signalling stack is third-party code: whether a dialog matches, what creating, accepting or inviting gives and the
  outcome of a REGISTER are arguments of the operations or parts of the events. The dialog layer is the set of the dialogs it
  holds; what is sent is a list of effects.
\<close>

section \<open>Media ports\<close>

definition checked_mul2 :: "u16 \<Rightarrow> u16 option" where
  "checked_mul2 i = (if unat i * 2 < 65536 then Some (i * 2) else None)"

definition checked_add16 :: "u16 \<Rightarrow> u16 \<Rightarrow> u16 option" where
  "checked_add16 a b = (if unat a + unat b < 65536 then Some (a + b) else None)"

definition saturating_mul2 :: "u16 \<Rightarrow> u16" where
  "saturating_mul2 a = (if unat a * 2 < 65536 then a * 2 else - 1)"

fun bind_scan :: "(u16 \<Rightarrow> bool) \<Rightarrow> u16 \<Rightarrow> u16 list \<Rightarrow> u16 option" where
  "bind_scan free base [] = None"
| "bind_scan free base (i # is) =
     (case Option.bind (checked_mul2 i) (checked_add16 base) of
        None \<Rightarrow> None
      | Some port \<Rightarrow> if free port then Some port else bind_scan free base is)"

definition bind_rtp_socket :: "(u16 \<Rightarrow> bool) \<Rightarrow> u16 \<Rightarrow> u16 \<Rightarrow> flowcat_error + u16" where
  "bind_rtp_socket free base0 tries =
     (let base = base0 AND NOT 1
      in case bind_scan free base (map of_nat [0..<unat tries]) of
           Some port \<Rightarrow> Inr port
         | None \<Rightarrow> Inl (ErrTransport (lit ''no free RTP port in '' @ show_nat (unat base) @ lit ''..'' @
                     show_nat (unat (saturating_add base (saturating_mul2 tries))))))"

section \<open>Registration\<close>

definition min_reregister_secs :: nat where "min_reregister_secs = 30"
definition register_escalate_after :: u32 where "register_escalate_after = 3"

definition reregister_delay_secs :: "u32 \<Rightarrow> nat" where
  "reregister_delay_secs expires = max (unat expires) min_reregister_secs * 3 div 4"

definition register_failure_is_critical :: "u32 \<Rightarrow> bool" where
  "register_failure_is_critical consecutive \<longleftrightarrow> register_escalate_after \<le> consecutive"

text \<open>The outcome of a REGISTER: granted for some seconds, rejected, or an error. Each round publishes the state, logs a
  failure (\<open>True\<close> when critical) and sleeps; cancellation ends the loop from the sleep.\<close>

datatype register_outcome = Granted u32 | Rejected | Failed

datatype register_effect = Registered bool | LogFailure bool | Sleep nat

definition register_round :: "u32 \<Rightarrow> register_outcome \<Rightarrow> u32 \<times> register_effect list" where
  "register_round failures r =
     (case r of
        Granted expires \<Rightarrow> (0, [Registered True, Sleep (reregister_delay_secs expires)])
      | _ \<Rightarrow> (failures + 1, [Registered False, LogFailure (register_failure_is_critical (failures + 1)), Sleep min_reregister_secs]))"

fun register_rounds :: "u32 \<Rightarrow> register_outcome list \<Rightarrow> u32 \<times> register_effect list" where
  "register_rounds failures [] = (failures, [])"
| "register_rounds failures (r # rs) =
     (let (failures1, es) = register_round failures r; (failures2, es') = register_rounds failures1 rs
      in (failures2, es @ es'))"

definition register_loop :: "bool \<Rightarrow> register_outcome list \<Rightarrow> bool \<Rightarrow> register_effect list" where
  "register_loop uri_ok rs cancelled =
     (if \<not> uri_ok then [Registered False]
      else snd (register_rounds 0 rs) @ (if cancelled then [Registered False] else []))"

section \<open>Dialogs\<close>

datatype sip_method = Invite | Ack | OtherMethod

datatype sip_status = NotAcceptableHere | ServiceUnavailable | CallTransactionDoesNotExist | OkStatus | BusyHere | OtherStatus nat

text \<open>An incoming request: whether it has a To tag and matches a dialog, its method and decoded body, and what creating the
  server dialog gives.\<close>

record 'd sip_request =
  rq_to_tag :: bool
  rq_matches :: bool
  rq_method :: sip_method
  rq_body :: ustr
  rq_create :: "ustr + 'd"

datatype 'd sip_effect =
    Reply sip_status
  | RouteInDialog
  | HandleInvite 'd
  | AcceptWith 'd ustr
  | RejectWith 'd sip_status
  | InviteWith ustr
  | SendBye 'd
  | CancelHangup 'd
  | RemoveDialog 'd

record sip_config =
  cf_advertise_ip :: ipv4
  cf_rtp_port_base :: u16
  cf_rtp_port_tries :: u16
  cf_server_uri :: "flowcat_error + unit"

record 'd sip_agent =
  sa_dialogs :: "'d set"
  sa_inbound :: "('d \<times> sdp_media) list"
  sa_closed :: bool
  sa_held :: "('d \<times> sdp_media) list"
  sa_calls :: "'d set"
  sa_sent :: "'d sip_effect list"

definition sip_agent_new :: "'d sip_agent" where
  "sip_agent_new = \<lparr>sa_dialogs = {}, sa_inbound = [], sa_closed = False, sa_held = [], sa_calls = {}, sa_sent = []\<rparr>"

definition inbound_depth :: nat where "inbound_depth = 16"

fun sdp_error_text :: "sdp_parse_error \<Rightarrow> ustr" where
  "sdp_error_text NoAudioMedia = lit ''SDP has no m=audio line''"
| "sdp_error_text NoConnection = lit ''SDP has no c=IN IP4 connection address''"
| "sdp_error_text BadPort = lit ''SDP m=audio line has no/invalid port''"
| "sdp_error_text NoSupportedCodec = lit ''SDP offers no PCMU/PCMA codec''"

definition emit :: "'d sip_effect list \<Rightarrow> 'd sip_agent \<Rightarrow> 'd sip_agent" where
  "emit es s = s\<lparr>sa_sent := sa_sent s @ es\<rparr>"

text \<open>The offer is parsed and a slot reserved before the dialog exists.\<close>

definition handle_new_invite :: "'d sip_agent \<Rightarrow> 'd sip_request \<Rightarrow> 'd sip_agent \<times> (flowcat_error + unit)" where
  "handle_new_invite s rq =
     (case sdp_parse (rq_body rq) of
        Inl e \<Rightarrow> (emit [Reply NotAcceptableHere] s, Inl (ErrTransport (lit ''bad offer SDP: '' @ sdp_error_text e)))
      | Inr offer \<Rightarrow>
          if sa_closed s \<or> inbound_depth \<le> length (sa_inbound s)
          then (emit [Reply ServiceUnavailable] s, Inl (ErrTransport (lit ''inbound queue full or closed'')))
          else case rq_create rq of
                 Inl e \<Rightarrow> (s, Inl (ErrTransport (lit ''get_or_create_server_invite: '' @ e)))
               | Inr d \<Rightarrow>
                   (emit [HandleInvite d] (s\<lparr>sa_dialogs := insert d (sa_dialogs s), sa_inbound := sa_inbound s @ [(d, offer)]\<rparr>),
                    Inr ()))"

definition incoming_request :: "'d sip_agent \<Rightarrow> 'd sip_request \<Rightarrow> 'd sip_agent" where
  "incoming_request s rq =
     (if rq_to_tag rq then emit [if rq_matches rq then RouteInDialog else Reply CallTransactionDoesNotExist] s
      else case rq_method rq of
             Invite \<Rightarrow> fst (handle_new_invite s rq)
           | Ack \<Rightarrow> s
           | OtherMethod \<Rightarrow> emit [Reply OkStatus] s)"

definition next_inbound :: "'d sip_agent \<Rightarrow> 'd sip_agent" where
  "next_inbound s = (case sa_inbound s of [] \<Rightarrow> s | i # q \<Rightarrow> s\<lparr>sa_inbound := q, sa_held := sa_held s @ [i]\<rparr>)"

text \<open>\<open>answer\<close> and \<open>reject\<close> consume the invite number \<open>i\<close> the host holds. A call is its peer and codec.\<close>

definition take_held :: "nat \<Rightarrow> 'd sip_agent \<Rightarrow> 'd sip_agent" where
  "take_held i s = s\<lparr>sa_held := take i (sa_held s) @ drop (Suc i) (sa_held s)\<rparr>"

definition answer_invite ::
  "sip_config \<Rightarrow> (u16 \<Rightarrow> bool) \<Rightarrow> ustr option \<Rightarrow> nat \<Rightarrow> 'd sip_agent \<Rightarrow>
   'd sip_agent \<times> (flowcat_error + (ipv4 \<times> u16) \<times> g711_codec)" where
  "answer_invite cf free refused i s =
     (let (d, offer) = sa_held s ! i; s0 = take_held i s
      in case bind_rtp_socket free (cf_rtp_port_base cf) (cf_rtp_port_tries cf) of
           Inl e \<Rightarrow> (s0, Inl e)
         | Inr port \<Rightarrow>
             (let s1 = emit [AcceptWith d (build_answer (cf_advertise_ip cf) port (sm_codec offer))] s0
              in case refused of
                   Some e \<Rightarrow> (s1, Inl (ErrTransport (lit ''SIP accept failed: '' @ e)))
                 | None \<Rightarrow> (s1\<lparr>sa_calls := insert d (sa_calls s1)\<rparr>, Inr ((sm_ip offer, sm_port offer), sm_codec offer))))"

definition reject_invite :: "sip_status option \<Rightarrow> nat \<Rightarrow> 'd sip_agent \<Rightarrow> 'd sip_agent" where
  "reject_invite code i s =
     (let d = fst (sa_held s ! i); s0 = take_held i s
      in emit [RejectWith d (case code of Some c \<Rightarrow> c | None \<Rightarrow> BusyHere), RemoveDialog d]
           (s0\<lparr>sa_dialogs := sa_dialogs s0 - {d}\<rparr>))"

text \<open>\<open>originate\<close>: the outcome of the INVITE is an error, or a dialog (left in the layer or not) and its final response.\<close>

definition originate ::
  "sip_config \<Rightarrow> (u16 \<Rightarrow> bool) \<Rightarrow> (sip_status \<Rightarrow> ustr) \<Rightarrow> ustr + 'd \<times> bool \<times> (sip_status \<times> ustr) option \<Rightarrow> 'd sip_agent \<Rightarrow>
   'd sip_agent \<times> (flowcat_error + (ipv4 \<times> u16) \<times> g711_codec)" where
  "originate cf free show_status outcome s =
     (case cf_server_uri cf of
        Inl e \<Rightarrow> (s, Inl e)
      | Inr _ \<Rightarrow>
          (case bind_rtp_socket free (cf_rtp_port_base cf) (cf_rtp_port_tries cf) of
             Inl e \<Rightarrow> (s, Inl e)
           | Inr port \<Rightarrow>
               (let s0 = emit [InviteWith (build_offer (cf_advertise_ip cf) port)] s
                in case outcome of
                     Inl e \<Rightarrow> (s0, Inl (ErrTransport (lit ''INVITE failed: '' @ e)))
                   | Inr (d, kept, resp) \<Rightarrow>
                       (let s1 = (if kept then s0\<lparr>sa_dialogs := insert d (sa_dialogs s0)\<rparr> else s0)
                        in case resp of
                             None \<Rightarrow> (s1, Inl (ErrTransport (lit ''INVITE got no final response'')))
                           | Some (status, body) \<Rightarrow>
                               if status \<noteq> OkStatus
                               then (s1, Inl (ErrTransport (lit ''outbound call not answered: '' @ show_status status)))
                               else case sdp_parse body of
                                      Inl e \<Rightarrow> (s1, Inl (ErrTransport (lit ''bad answer SDP: '' @ sdp_error_text e)))
                                    | Inr media \<Rightarrow>
                                        (s1\<lparr>sa_calls := insert d (sa_calls s1)\<rparr>,
                                         Inr ((sm_ip media, sm_port media), sm_codec media))))))"

text \<open>The supervisor of a call: the local side hung up, or the dialog reported a state.\<close>

datatype supervisor_event = LocalHangup | Terminated | OtherState | StateClosed

definition supervise :: "'d \<Rightarrow> supervisor_event \<Rightarrow> 'd sip_agent \<Rightarrow> 'd sip_agent" where
  "supervise d ev s =
     (if d \<notin> sa_calls s \<or> ev = OtherState then s
      else emit [if ev = LocalHangup then SendBye d else CancelHangup d, RemoveDialog d]
             (s\<lparr>sa_calls := sa_calls s - {d}, sa_dialogs := sa_dialogs s - {d}\<rparr>))"

datatype (plugins only: code size) 'd sip_event =
    Incoming "'d sip_request"
  | NextInbound
  | Answer "u16 \<Rightarrow> bool" "ustr option" nat
  | Reject "sip_status option" nat
  | Originate "u16 \<Rightarrow> bool" "ustr + 'd \<times> bool \<times> (sip_status \<times> ustr) option"
  | Supervise 'd supervisor_event
  | CloseInbound

definition sip_step :: "sip_config \<Rightarrow> (sip_status \<Rightarrow> ustr) \<Rightarrow> 'd sip_agent \<Rightarrow> 'd sip_event \<Rightarrow> 'd sip_agent" where
  "sip_step cf show_status s ev =
     (case ev of
        Incoming rq \<Rightarrow> incoming_request s rq
      | NextInbound \<Rightarrow> next_inbound s
      | Answer free refused i \<Rightarrow> if i < length (sa_held s) then fst (answer_invite cf free refused i s) else s
      | Reject code i \<Rightarrow> if i < length (sa_held s) then reject_invite code i s else s
      | Originate free outcome \<Rightarrow> fst (originate cf free show_status outcome s)
      | Supervise d e \<Rightarrow> supervise d e s
      | CloseInbound \<Rightarrow> s\<lparr>sa_closed := True\<rparr>)"

section \<open>The port scan\<close>

lemma find_sorted:
  "sorted_wrt (<) xs \<Longrightarrow> find P xs = Some x \<longleftrightarrow> x \<in> set xs \<and> P x \<and> (\<forall>y\<in>set xs. y < x \<longrightarrow> \<not> P y)"
  for x :: "'a :: linorder"
  by (induction xs) auto

lemma bind_scan_find:
  assumes "n < 65536"
  shows "bind_scan free base (map of_nat [i..<n]) =
    map_option of_nat (find (\<lambda>p. free (of_nat p)) (map (\<lambda>j. unat base + 2 * j) (filter (\<lambda>j. unat base + 2 * j < 65536) [i..<n])))"
proof (induction "n - i" arbitrary: i)
  case (Suc k)
  then have i: "i < n" by simp
  then have u: "unat (of_nat i :: u16) = i" using assms by (simp add: unat_of_nat take_bit_nat_eq_self)
  have step: "[i..<n] = i # [Suc i..<n]" using i by (simp add: upt_conv_Cons)
  have IH: "bind_scan free base (map of_nat [Suc i..<n]) =
    map_option of_nat (find (\<lambda>p. free (of_nat p)) (map (\<lambda>j. unat base + 2 * j) (filter (\<lambda>j. unat base + 2 * j < 65536) [Suc i..<n])))"
    using Suc.hyps by simp
  show ?case
  proof (cases "unat base + 2 * i < 65536")
    case True
    then have "Option.bind (checked_mul2 (of_nat i)) (checked_add16 base) = Some (base + of_nat i * 2)"
      by (simp add: checked_mul2_def checked_add16_def u unat_word_ariths)
    moreover have "base + of_nat i * 2 = of_nat (unat base + 2 * i)" by simp
    ultimately show ?thesis unfolding step list.map bind_scan.simps IH using True by simp
  next
    case False
    then have "Option.bind (checked_mul2 (of_nat i)) (checked_add16 base) = None"
      by (auto simp: checked_mul2_def checked_add16_def u unat_word_ariths)
    moreover have "filter (\<lambda>j. unat base + 2 * j < 65536) [i..<n] = []" using False by (auto simp: filter_empty_conv)
    ultimately show ?thesis unfolding step list.map bind_scan.simps by (simp flip: step)
  qed
qed simp

lemma unat_even_base: "unat ((base :: u16) AND NOT 1) = unat base - unat base mod 2"
proof -
  have lt: "unat base < 65536" using unsigned_less [of base] by simp
  have "base AND NOT 1 = push_bit 1 (drop_bit 1 base)"
    by (rule bit_word_eqI)
       (auto simp only: bit_and_iff bit_not_iff bit_push_bit_iff bit_drop_bit_eq comp_def bit_1_iff le_add_diff_inverse; simp)
  then have "unat (base AND NOT 1) = take_bit 16 (push_bit 1 (drop_bit 1 (unat base)))"
    using take_bit_nat_eq_self [of "unat base" 16] lt
    by (simp only: unsigned_push_bit_eq unsigned_drop_bit_eq) simp
  also have "push_bit 1 (drop_bit 1 (unat base)) = unat base - unat base mod 2"
    by (simp only: push_bit_eq_mult drop_bit_eq_div power_one_right minus_mod_eq_div_mult)
  also have "take_bit 16 (unat base - unat base mod 2) = unat base - unat base mod 2"
    using lt by (intro take_bit_nat_eq_self) simp
  finally show ?thesis .
qed

lemma of_nat_unat_u16: "of_nat (unat q) = (q :: u16)"
  by simp

lemma even_ports:
  fixes lo n :: nat
  assumes "even lo"
  shows "map (\<lambda>j. lo + 2 * j) (filter (\<lambda>j. lo + 2 * j < 65536) [0..<n]) = filter even [lo..<min 65536 (lo + 2 * n)]"
proof (rule sorted_distinct_set_unique)
  show "sorted (map (\<lambda>j. lo + 2 * j) (filter (\<lambda>j. lo + 2 * j < 65536) [0..<n]))"
    by (simp add: sorted_wrt_map sorted_wrt_filter)
  show "distinct (map (\<lambda>j. lo + 2 * j) (filter (\<lambda>j. lo + 2 * j < 65536) [0..<n]))"
    by (simp add: distinct_map inj_on_def)
  have "\<exists>j<n. lo + 2 * j < 65536 \<and> p = lo + 2 * j" if "lo \<le> p" "p < 65536" "p < lo + 2 * n" "even p" for p
    using that assms by (intro exI [of _ "(p - lo) div 2"]) auto
  then show "set (map (\<lambda>j. lo + 2 * j) (filter (\<lambda>j. lo + 2 * j < 65536) [0..<n])) = set (filter even [lo..<min 65536 (lo + 2 * n)])"
    using assms by (auto simp: image_iff)
qed (simp_all add: sorted_wrt_filter)

text \<open>C38. The media port is the first free even port of the configured range: a call gets a port exactly if it is free and
  even, at or above the configured base (rounded down to an even number) and below twice the number of tries above it,
  with every lower even port of the range taken; the scan never wraps around to a low port.\<close>

theorem rtp_port_first_free:
  "bind_rtp_socket free base tries = Inr port \<longleftrightarrow>
     free port \<and> even (unat port) \<and> unat base - unat base mod 2 \<le> unat port \<and>
     unat port < unat base - unat base mod 2 + 2 * unat tries \<and>
     (\<forall>q. even (unat q) \<and> unat base - unat base mod 2 \<le> unat q \<and> unat q < unat port \<longrightarrow> \<not> free q)"
proof -
  let ?lo = "unat base - unat base mod 2" and ?n = "unat tries"
  let ?xs = "filter even [?lo..<min 65536 (?lo + 2 * ?n)]"
  have lo: "even ?lo" by (simp add: minus_mod_eq_mult_div)
  have p: "unat port < 65536" using unsigned_less [of port] by simp
  have u: "unat (of_nat p :: u16) = p" if "p < 65536" for p
    using that by (simp add: unat_of_nat take_bit_nat_eq_self)
  have "bind_scan free (base AND NOT 1) (map of_nat [0..<?n]) = map_option of_nat (find (\<lambda>p. free (of_nat p)) ?xs)"
    using bind_scan_find [of ?n free "base AND NOT 1" 0] unsigned_less [of tries]
    unfolding unat_even_base even_ports [OF lo] by simp
  then have "bind_rtp_socket free base tries = Inr port \<longleftrightarrow> map_option of_nat (find (\<lambda>p. free (of_nat p)) ?xs) = Some port"
    by (auto simp: bind_rtp_socket_def Let_def split: option.split)
  also have "\<dots> \<longleftrightarrow> find (\<lambda>p. free (of_nat p)) ?xs = Some (unat port)"
  proof (cases "find (\<lambda>p. free (of_nat p)) ?xs")
    case (Some p)
    then have "p \<in> set ?xs" unfolding find_Some_iff by (metis nth_mem)
    then have "unat (of_nat p :: u16) = p" by (intro u) simp
    then show ?thesis unfolding Some by (metis option.inject option.map(2) of_nat_unat_u16)
  qed simp
  also have "\<dots> \<longleftrightarrow> unat port \<in> set ?xs \<and> free (of_nat (unat port)) \<and> (\<forall>y\<in>set ?xs. y < unat port \<longrightarrow> \<not> free (of_nat y))"
    by (rule find_sorted) (simp add: sorted_wrt_filter)
  also have "\<dots> \<longleftrightarrow> free port \<and> even (unat port) \<and> ?lo \<le> unat port \<and> unat port < ?lo + 2 * ?n \<and>
     (\<forall>q. even (unat q) \<and> ?lo \<le> unat q \<and> unat q < unat port \<longrightarrow> \<not> free q)"
  proof (intro iffI conjI ballI allI impI; elim conjE)
    fix q :: u16 assume "\<forall>y\<in>set ?xs. y < unat port \<longrightarrow> \<not> free (of_nat y)" "even (unat q)" "?lo \<le> unat q" "unat q < unat port" "unat port \<in> set ?xs"
    then have "\<not> free (of_nat (unat q))" by auto
    then show "\<not> free q" by simp
  next
    fix y assume "\<forall>q :: u16. even (unat q) \<and> ?lo \<le> unat q \<and> unat q < unat port \<longrightarrow> \<not> free q" and y: "y \<in> set ?xs" "y < unat port"
    moreover from y have "unat (of_nat y :: u16) = y" by (intro u) simp
    ultimately show "\<not> free (of_nat y)" by auto
  qed (use p in auto)
  finally show ?thesis .
qed

theorem rtp_port_first_free_witness:
  "bind_rtp_socket (\<lambda>p. 16004 \<le> p) 16001 200 = Inr 16004"
  by (subst rtp_port_first_free) (simp add: word_le_nat_alt)

text \<open>A base of 0 or 1 gives port 0, which means a declined stream in a session description.\<close>

lemma rtp_port_zero:
  assumes "free 0" and "tries \<noteq> 0"
  shows "bind_rtp_socket free 1 tries = Inr 0"
proof -
  have "0 < unat tries" using assms(2) by (simp add: unat_gt_0)
  then have "map of_nat [0..<unat tries] = (0 :: u16) # map of_nat [1..<unat tries]" by (simp add: upt_conv_Cons)
  moreover have "(1 :: u16) AND NOT 1 = 0" by simp
  ultimately have "bind_scan free (1 AND NOT 1) (map of_nat [0..<unat tries]) = Some 0"
    using assms(1) by (simp only: bind_scan.simps) (simp add: checked_mul2_def checked_add16_def)
  then show ?thesis by (simp add: bind_rtp_socket_def)
qed

section \<open>The registration loop\<close>

text \<open>A failure is logged as critical from the third one in a row on; the sleep is never shorter than 22 seconds, and longer
  than a binding that was granted for less than that.\<close>

lemma register_round_critical:
  assumes "n < 1000000" and "r = Rejected \<or> r = Failed"
  shows "register_round (of_nat n) r = (of_nat (Suc n), [Registered False, LogFailure (3 \<le> Suc n), Sleep 30])"
proof -
  have "unat (of_nat n + 1 :: u32) = Suc n" using assms(1) by (simp add: unat_word_ariths unat_of_nat take_bit_nat_eq_self)
  then have "3 \<le> (of_nat n + 1 :: u32) \<longleftrightarrow> 3 \<le> Suc n" by (simp add: word_le_nat_alt)
  then show ?thesis using assms(2)
    by (auto simp: register_round_def register_failure_is_critical_def register_escalate_after_def min_reregister_secs_def add.commute)
qed

lemma reregister_delay_bounds:
  shows "22 \<le> reregister_delay_secs e" and "unat e < 22 \<Longrightarrow> unat e < reregister_delay_secs e"
    and "30 \<le> unat e \<Longrightarrow> reregister_delay_secs e < unat e"
proof -
  show lo: "22 \<le> reregister_delay_secs e"
    using div_le_mono [of 90 "max (unat e) 30 * 3" 4] by (simp add: reregister_delay_secs_def min_reregister_secs_def)
  then show "unat e < 22 \<Longrightarrow> unat e < reregister_delay_secs e" by simp
  show "30 \<le> unat e \<Longrightarrow> reregister_delay_secs e < unat e"
    by (simp add: reregister_delay_secs_def min_reregister_secs_def div_less_iff_less_mult)
qed

section \<open>Who owns a dialog\<close>

text \<open>The dialogs of calls that were accepted or placed and then given up: a failed \<open>answer\<close> and a failed \<open>originate\<close>.\<close>

definition lost_now :: "sip_config \<Rightarrow> (sip_status \<Rightarrow> ustr) \<Rightarrow> 'd sip_agent \<Rightarrow> 'd sip_event \<Rightarrow> 'd set" where
  "lost_now cf sh s ev =
     (case ev of
        Answer free refused i \<Rightarrow>
          if i < length (sa_held s) \<and> isl (snd (answer_invite cf free refused i s)) then {fst (sa_held s ! i)} else {}
      | Originate free outcome \<Rightarrow>
          if isl (snd (originate cf free sh outcome s)) then sa_dialogs (fst (originate cf free sh outcome s)) - sa_dialogs s else {}
      | _ \<Rightarrow> {})"

fun sip_lost :: "sip_config \<Rightarrow> (sip_status \<Rightarrow> ustr) \<Rightarrow> 'd sip_agent \<Rightarrow> 'd sip_event list \<Rightarrow> 'd set" where
  "sip_lost cf sh s [] = {}"
| "sip_lost cf sh s (ev # evs) = lost_now cf sh s ev \<union> sip_lost cf sh (sip_step cf sh s ev) evs"

definition owned :: "'d sip_agent \<Rightarrow> 'd set" where
  "owned s = fst ` set (sa_inbound s) \<union> fst ` set (sa_held s) \<union> sa_calls s"

definition agent_ok :: "'d set \<Rightarrow> 'd sip_agent \<Rightarrow> bool" where
  "agent_ok lost s \<longleftrightarrow> sa_dialogs s \<subseteq> owned s \<union> lost \<and> length (sa_inbound s) \<le> inbound_depth \<and>
     (\<forall>m\<in>snd ` set (sa_inbound s @ sa_held s). sm_port m \<noteq> 0)"

lemma emit_fields [simp]:
  "sa_dialogs (emit es s) = sa_dialogs s" "sa_inbound (emit es s) = sa_inbound s" "sa_held (emit es s) = sa_held s"
  "sa_calls (emit es s) = sa_calls s" "sa_closed (emit es s) = sa_closed s"
  by (simp_all add: emit_def)

lemma take_held_fields [simp]:
  "sa_dialogs (take_held i s) = sa_dialogs s" "sa_inbound (take_held i s) = sa_inbound s" "sa_calls (take_held i s) = sa_calls s"
  by (simp_all add: take_held_def)

lemma set_take_held:
  assumes "i < length (sa_held s)"
  shows "set (sa_held s) = insert (sa_held s ! i) (set (sa_held (take_held i s)))"
proof -
  have "set (sa_held s) = set (take i (sa_held s) @ sa_held s ! i # drop (Suc i) (sa_held s))"
    using id_take_nth_drop [OF assms] by simp
  then show ?thesis by (simp add: take_held_def)
qed

text \<open>One lemma for each operation.\<close>

lemma agent_ok_mono: "agent_ok lost s \<Longrightarrow> lost \<subseteq> lost' \<Longrightarrow> agent_ok lost' s"
  by (auto simp: agent_ok_def)

lemma agent_ok_incoming: "agent_ok lost s \<Longrightarrow> agent_ok lost (incoming_request s rq)"
  by (auto simp: agent_ok_def owned_def incoming_request_def handle_new_invite_def inbound_depth_def sdp_parse_usable
      split: sum.split sip_method.split)

lemma agent_ok_next: "agent_ok lost s \<Longrightarrow> agent_ok lost (next_inbound s)"
  by (auto simp: agent_ok_def owned_def next_inbound_def split: list.split)

lemma agent_ok_take:
  assumes "agent_ok lost s" and "i < length (sa_held s)"
  shows "agent_ok (insert (fst (sa_held s ! i)) lost) (take_held i s)"
  using assms set_take_held [OF assms(2)] by (auto simp: agent_ok_def owned_def)

lemma agent_ok_add_call:
  "agent_ok (insert d lost) s \<Longrightarrow> calls = insert d (sa_calls s) \<Longrightarrow> agent_ok lost (s\<lparr>sa_calls := calls\<rparr>)"
  by (auto simp: agent_ok_def owned_def)

lemma agent_ok_remove:
  "agent_ok (insert d lost) s \<Longrightarrow> agent_ok lost (s\<lparr>sa_dialogs := sa_dialogs s - {d}\<rparr>)"
  "agent_ok lost s \<Longrightarrow> agent_ok lost (s\<lparr>sa_calls := sa_calls s - {d}, sa_dialogs := sa_dialogs s - {d}\<rparr>)"
  by (auto simp: agent_ok_def owned_def)

lemma agent_ok_emit [simp]: "agent_ok lost (emit es s) = agent_ok lost s"
  by (simp add: agent_ok_def owned_def)

lemma agent_ok_answer:
  assumes "agent_ok lost s" and "i < length (sa_held s)"
  shows "agent_ok (lost \<union> (if isl (snd (answer_invite cf free refused i s)) then {fst (sa_held s ! i)} else {})) (fst (answer_invite cf free refused i s))"
  using agent_ok_take [OF assms]
  by (auto simp: answer_invite_def Let_def split_beta intro!: agent_ok_add_call split: sum.split option.split)

lemma agent_ok_reject: "agent_ok lost s \<Longrightarrow> i < length (sa_held s) \<Longrightarrow> agent_ok lost (reject_invite code i s)"
  using agent_ok_remove(1) [OF agent_ok_take] by (auto simp: reject_invite_def Let_def)

lemma agent_ok_originate:
  assumes "agent_ok lost s"
  shows "agent_ok (lost \<union> lost_now cf sh s (Originate free outcome)) (fst (originate cf free sh outcome s))"
proof (cases outcome)
  case (Inl e)
  with assms show ?thesis
    by (auto simp: originate_def lost_now_def Let_def split: sum.split)
next
  case (Inr r)
  obtain d kept resp where r: "r = (d, kept, resp)" by (cases r)
  let ?s = "\<lambda>port. emit [InviteWith (build_offer (cf_advertise_ip cf) port)] s"
  have "agent_ok (lost \<union> (insert d (sa_dialogs s) - sa_dialogs s)) (?s port\<lparr>sa_dialogs := insert d (sa_dialogs s)\<rparr>)"
    and "agent_ok (insert d lost) (?s port\<lparr>sa_dialogs := insert d (sa_dialogs s)\<rparr>)" and "agent_ok (insert d lost) (?s port)" for port
    using assms by (auto simp: agent_ok_def owned_def)
  with assms show ?thesis
    by (auto simp: Inr r originate_def lost_now_def Let_def intro!: agent_ok_add_call split: sum.split option.split)
qed

lemma agent_ok_supervise: "agent_ok lost s \<Longrightarrow> agent_ok lost (supervise d ev s)"
  by (auto simp: supervise_def intro: agent_ok_remove(2))

lemma agent_ok_step: "agent_ok lost s \<Longrightarrow> agent_ok (lost \<union> lost_now cf sh s ev) (sip_step cf sh s ev)"
proof (cases ev)
  case (Answer free refused i)
  assume "agent_ok lost s"
  with agent_ok_answer [OF this, of i cf free refused] show ?thesis
    by (auto simp: Answer sip_step_def lost_now_def)
next
  case (Originate free outcome)
  assume "agent_ok lost s"
  from agent_ok_originate [OF this] show ?thesis by (simp add: Originate sip_step_def)
qed (simp_all add: sip_step_def lost_now_def agent_ok_incoming agent_ok_next agent_ok_reject agent_ok_supervise,
     simp add: agent_ok_def owned_def)

lemma agent_ok_run:
  "agent_ok lost s \<Longrightarrow> agent_ok (lost \<union> sip_lost cf sh s evs) (foldl (sip_step cf sh) s evs)"
proof (induction evs arbitrary: s lost)
  case (Cons ev evs)
  from Cons.IH [OF agent_ok_step [OF Cons.prems, of cf sh ev]] show ?case by (simp add: Un_assoc)
qed simp

text \<open>C39. No dialog is left behind, save where a call is given up half-way: whatever requests arrive and whatever the host
  and the peers do, every dialog the stack still holds belongs to an invite that waits in the queue or with the host, or to a
  running call, or to a failed \<open>answer\<close> or \<open>originate\<close>; the queue holds at most 16 invites, and every invite the host gets
  offers a port to send to.\<close>

theorem dialogs_owned:
  "let s = foldl (sip_step cf sh) sip_agent_new evs
   in sa_dialogs s \<subseteq> fst ` set (sa_inbound s) \<union> fst ` set (sa_held s) \<union> sa_calls s \<union> sip_lost cf sh sip_agent_new evs \<and>
      length (sa_inbound s) \<le> 16 \<and> list_all (\<lambda>(d, m). sm_port m \<noteq> 0) (sa_inbound s @ sa_held s)"
proof -
  have "agent_ok {} sip_agent_new" by (simp add: agent_ok_def sip_agent_new_def)
  from agent_ok_run [OF this, of cf sh evs] show ?thesis
    unfolding agent_ok_def owned_def inbound_depth_def Let_def list_all_iff by (simp add: split_beta)
qed

text \<open>A dialog whose answer fails for want of a media port is in the layer for good: nothing is sent to the caller, and no
  later event but one of its own removes it.\<close>

lemma failed_answer_leaks:
  assumes "i < length (sa_held s)" and "sa_held s ! i = (d, offer)"
    and "bind_rtp_socket free (cf_rtp_port_base cf) (cf_rtp_port_tries cf) = Inl e"
  shows "sip_step cf sh s (Answer free refused i) = take_held i s" and "sa_sent (take_held i s) = sa_sent s"
    and "sa_dialogs (take_held i s) = sa_dialogs s"
  using assms by (simp_all add: sip_step_def answer_invite_def take_held_def)

end
