(* ===== verification/Rtvi.thy ===== *)
theory Rtvi
  imports Observers Json
begin

text \<open>
  The observer that turns frames into messages of the RTVI client protocol,
  \<^verbatim>\<open>flowcat-core/src/observer/rtvi.rs\<close>. The sink is the list of the messages sent; the JSON forms of a number and of a token
  usage record, which \<open>serde\<close> derives, are arguments.
\<close>

section \<open>Messages\<close>

definition message_label :: ustr where
  "message_label = lit ''rtvi-ai''"

record rtvi_message =
  rm_label :: ustr
  rm_kind :: ustr
  rm_data :: "json option"

definition rtvi_bare :: "string \<Rightarrow> rtvi_message" where
  "rtvi_bare k = \<lparr>rm_label = message_label, rm_kind = lit k, rm_data = None\<rparr>"

definition rtvi_with_data :: "string \<Rightarrow> json \<Rightarrow> rtvi_message" where
  "rtvi_with_data k v = \<lparr>rm_label = message_label, rm_kind = lit k, rm_data = Some v\<rparr>"

definition json_object :: "(string \<times> json) list \<Rightarrow> json" where
  "json_object kvs = JObj (foldl (\<lambda>m (k, v). jinsert (lit k) v m) [] kvs)"

datatype report_level = LevelDisabled | LevelNone | LevelName | LevelFull

definition shows_name :: "report_level \<Rightarrow> bool" where
  "shows_name level \<longleftrightarrow> level = LevelName \<or> level = LevelFull"

record rtvi_params =
  bot_output_enabled :: bool
  bot_llm_enabled :: bool
  bot_tts_enabled :: bool
  bot_speaking_enabled :: bool
  user_llm_enabled :: bool
  user_speaking_enabled :: bool
  user_mute_enabled :: bool
  user_transcription_enabled :: bool
  metrics_enabled :: bool
  function_call_report_level :: report_level

definition report_level_default :: report_level where
  "report_level_default = LevelNone"

definition rtvi_params_default :: rtvi_params where
  "rtvi_params_default =
     \<lparr>bot_output_enabled = True, bot_llm_enabled = True, bot_tts_enabled = True, bot_speaking_enabled = True,
      user_llm_enabled = True, user_speaking_enabled = True, user_mute_enabled = True, user_transcription_enabled = True,
      metrics_enabled = True, function_call_report_level = LevelFull\<rparr>"

section \<open>The observer\<close>

record rtvi_observer =
  rv_params :: rtvi_params
  rv_frames_seen :: "u64 list"
  rv_bot_transcription :: ustr
  rv_sent :: "rtvi_message list"

definition rtvi_with_params :: "rtvi_params \<Rightarrow> rtvi_observer" where
  "rtvi_with_params p = \<lparr>rv_params = p, rv_frames_seen = [], rv_bot_transcription = [], rv_sent = []\<rparr>"

definition rtvi_new :: rtvi_observer where
  "rtvi_new = rtvi_with_params rtvi_params_default"

definition rtvi_emit :: "rtvi_message list \<Rightarrow> rtvi_observer \<Rightarrow> rtvi_observer" where
  "rtvi_emit ms st = st\<lparr>rv_sent := rv_sent st @ ms\<rparr>"

definition text_data :: "ustr \<Rightarrow> json" where
  "text_data t = json_object [(''text'', JStr t)]"

definition user_transcription :: "ustr \<Rightarrow> ustr \<Rightarrow> bool \<Rightarrow> rtvi_message" where
  "user_transcription t uid fin =
     rtvi_with_data ''user-transcription''
       (json_object [(''text'', JStr t), (''user_id'', JStr uid), (''timestamp'', JStr []), (''final'', JBool fin)])"

text \<open>The last character that is not white space is one of \<open>. ! ?\<close> or their full-width forms.\<close>

definition rtvi_ends_sentence :: "ustr \<Rightarrow> bool" where
  "rtvi_ends_sentence t =
     (case dropWhile is_whitespace (rev t) of
        [] \<Rightarrow> False
      | ch # _ \<Rightarrow> ch \<in> {46, 33, 63, 0x3002, 0xFF01, 0xFF1F})"

definition flush_bot_transcription :: "ustr \<Rightarrow> rtvi_observer \<Rightarrow> rtvi_observer" where
  "flush_bot_transcription t st =
     (let acc = rv_bot_transcription st @ t
      in if rtvi_ends_sentence acc \<and> acc \<noteq> []
         then rtvi_emit [rtvi_with_data ''bot-transcription'' (text_data acc)] (st\<lparr>rv_bot_transcription := []\<rparr>)
         else st\<lparr>rv_bot_transcription := acc\<rparr>)"

definition call_started :: "report_level \<Rightarrow> json function_call \<Rightarrow> rtvi_message list" where
  "call_started level call =
     (if level = LevelDisabled then []
      else [rtvi_with_data ''llm-function-call-started''
              (json_object (if shows_name level then [(''function_name'', JStr (fc_function_name call))] else []))])"

definition call_in_progress :: "report_level \<Rightarrow> json function_call \<Rightarrow> rtvi_message list" where
  "call_in_progress level call =
     (if level = LevelDisabled then []
      else [rtvi_with_data ''llm-function-call-in-progress''
              (json_object ([(''tool_call_id'', JStr (fc_tool_call_id call))] @
                 (if shows_name level then [(''function_name'', JStr (fc_function_name call))] else []) @
                 (if level = LevelFull then [(''arguments'', fc_arguments call)] else [])))])"

definition call_stopped :: "report_level \<Rightarrow> ustr \<Rightarrow> ustr \<Rightarrow> bool \<Rightarrow> json option \<Rightarrow> rtvi_message list" where
  "call_stopped level nm tid cancelled result =
     (if level = LevelDisabled then []
      else [rtvi_with_data ''llm-function-call-stopped''
              (json_object ([(''tool_call_id'', JStr tid), (''cancelled'', JBool cancelled)] @
                 (if shows_name level then [(''function_name'', JStr nm)] else []) @
                 (if level = LevelFull then case result of Some r \<Rightarrow> [(''result'', r)] | None \<Rightarrow> [] else [])))])"

record rtvi_json =
  of_f64 :: "f64 \<Rightarrow> json"
  of_u64 :: "u64 \<Rightarrow> json"
  of_usage :: "llm_token_usage \<Rightarrow> json"

definition metric_value :: "rtvi_json \<Rightarrow> string \<Rightarrow> ustr option \<Rightarrow> f64 \<Rightarrow> json" where
  "metric_value J p model v =
     json_object ([(''processor'', JStr (lit p))] @ (case model of Some mo \<Rightarrow> [(''model'', JStr mo)] | None \<Rightarrow> []) @ [(''value'', of_f64 J v)])"

definition map_metrics :: "rtvi_json \<Rightarrow> metrics_data list \<Rightarrow> rtvi_message option" where
  "map_metrics J ds =
     (let ttfb = List.map_filter (\<lambda>d. case d of Ttfb p mo s \<Rightarrow> Some (metric_value J p mo s) | _ \<Rightarrow> None) ds;
          processing = List.map_filter (\<lambda>d. case d of Processing p mo s \<Rightarrow> Some (metric_value J p mo s) | _ \<Rightarrow> None) ds;
          tokens = List.map_filter (\<lambda>d. case d of LlmUsage p mo u \<Rightarrow> Some (of_usage J u) | _ \<Rightarrow> None) ds;
          characters = List.map_filter (\<lambda>d. case d of
             TtsUsage p k \<Rightarrow> Some (json_object [(''processor'', JStr (lit p)), (''value'', of_u64 J k)]) | _ \<Rightarrow> None) ds
      in if ttfb = [] \<and> processing = [] \<and> tokens = [] \<and> characters = [] then None
         else Some (rtvi_with_data ''metrics'' (json_object
                (filter (\<lambda>(k, v). v \<noteq> JArr [])
                  [(''ttfb'', JArr ttfb), (''processing'', JArr processing), (''tokens'', JArr tokens), (''characters'', JArr characters)]))))"

definition rtvi_map_frame :: "rtvi_json \<Rightarrow> rtvi_observer \<Rightarrow> json frame \<Rightarrow> rtvi_observer" where
  "rtvi_map_frame J st f =
     (let p = rv_params st;
          level = function_call_report_level p;
          only = (\<lambda>on ms. if on then rtvi_emit ms st else st)
      in case f of
           UserStartedSpeaking \<Rightarrow> only (user_speaking_enabled p) [rtvi_bare ''user-started-speaking'']
         | UserStoppedSpeaking \<Rightarrow> only (user_speaking_enabled p) [rtvi_bare ''user-stopped-speaking'']
         | SttMute muted \<Rightarrow> only (user_mute_enabled p) [rtvi_bare (if muted then ''user-mute-started'' else ''user-mute-stopped'')]
         | BotStartedSpeaking \<Rightarrow> only (bot_speaking_enabled p) [rtvi_bare ''bot-started-speaking'']
         | BotStoppedSpeaking \<Rightarrow> only (bot_speaking_enabled p) [rtvi_bare ''bot-stopped-speaking'']
         | Transcription t uid lang fin \<Rightarrow>
             if uid = lit ''bot'' then only (bot_output_enabled p) [rtvi_with_data ''bot-transcription'' (text_data t)]
             else only (user_transcription_enabled p) [user_transcription t uid fin]
         | InterimTranscription t uid lang \<Rightarrow>
             only (uid \<noteq> lit ''bot'' \<and> user_transcription_enabled p) [user_transcription t uid False]
         | LlmResponseStart \<Rightarrow> only (bot_llm_enabled p) [rtvi_bare ''bot-llm-started'']
         | LlmResponseEnd \<Rightarrow> only (bot_llm_enabled p) [rtvi_bare ''bot-llm-stopped'']
         | LlmText t \<Rightarrow>
             if bot_llm_enabled p
             then flush_bot_transcription t (rtvi_emit [rtvi_with_data ''bot-llm-text'' (text_data t)] st)
             else st
         | TtsStarted ctx \<Rightarrow> only (bot_tts_enabled p) [rtvi_bare ''bot-tts-started'']
         | TtsStopped ctx \<Rightarrow> only (bot_tts_enabled p) [rtvi_bare ''bot-tts-stopped'']
         | TtsText t ctx \<Rightarrow>
             rtvi_emit
               ((if bot_output_enabled p
                 then [rtvi_with_data ''bot-output''
                         (json_object [(''text'', JStr t), (''spoken'', JBool True), (''aggregated_by'', JStr (lit ''word''))])]
                 else []) @
                (if bot_tts_enabled p then [rtvi_with_data ''bot-tts-text'' (text_data t)] else [])) st
         | FunctionCallsStarted calls \<Rightarrow> rtvi_emit (concat (map (call_started level) calls)) st
         | FunctionCallInProgress call cancellable \<Rightarrow> rtvi_emit (call_in_progress level call) st
         | FunctionCallResult r \<Rightarrow>
             rtvi_emit (call_stopped level (fr_function_name r) (fr_tool_call_id r) False (Some (fr_result r))) st
         | FunctionCallCancel nm tid \<Rightarrow> rtvi_emit (call_stopped level nm tid True None) st
         | Metrics ds \<Rightarrow>
             if metrics_enabled p then case map_metrics J ds of Some msg \<Rightarrow> rtvi_emit [msg] st | None \<Rightarrow> st else st
         | _ \<Rightarrow> st)"

definition rtvi_on_push :: "rtvi_json \<Rightarrow> rtvi_observer \<Rightarrow> json envelope \<Rightarrow> rtvi_observer" where
  "rtvi_on_push J st env =
     (if broadcast_sibling_id (env_meta env) \<noteq> None \<and> env_direction env \<noteq> Downstream then st
      else if fm_id (env_meta env) \<in> set (rv_frames_seen st) then st
      else rtvi_map_frame J (st\<lparr>rv_frames_seen := rv_frames_seen st @ [fm_id (env_meta env)]\<rparr>) (env_frame env))"

section \<open>Lemmas\<close>

lemma rtvi_emit_fields [simp]:
  "rv_params (rtvi_emit ms st) = rv_params st" "rv_frames_seen (rtvi_emit ms st) = rv_frames_seen st"
  "rv_bot_transcription (rtvi_emit ms st) = rv_bot_transcription st" "rv_sent (rtvi_emit ms st) = rv_sent st @ ms"
  by (simp_all add: rtvi_emit_def)

lemma rtvi_map_frame_keeps [simp]:
  "rv_params (rtvi_map_frame J st f) = rv_params st" "rv_frames_seen (rtvi_map_frame J st f) = rv_frames_seen st"
  by (cases f; simp add: rtvi_map_frame_def flush_bot_transcription_def Let_def split: option.split)+

lemma rtvi_on_push_params [simp]: "rv_params (rtvi_on_push J st env) = rv_params st"
  by (simp add: rtvi_on_push_def)

text \<open>What a report level hides of a frame.\<close>

definition hide_call :: "report_level \<Rightarrow> json function_call \<Rightarrow> json function_call" where
  "hide_call level call =
     \<lparr>fc_function_name = if shows_name level then fc_function_name call else [],
      fc_tool_call_id = if level = LevelDisabled then [] else fc_tool_call_id call,
      fc_arguments = if level = LevelFull then fc_arguments call else JNull\<rparr>"

definition hide_frame :: "report_level \<Rightarrow> json frame \<Rightarrow> json frame" where
  "hide_frame level f =
     (case f of
        FunctionCallsStarted calls \<Rightarrow> FunctionCallsStarted (map (\<lambda>call. (hide_call level call)\<lparr>fc_tool_call_id := [], fc_arguments := JNull\<rparr>) calls)
      | FunctionCallInProgress call b \<Rightarrow> FunctionCallInProgress (hide_call level call) b
      | FunctionCallResult r \<Rightarrow>
          FunctionCallResult
            \<lparr>fr_function_name = if shows_name level then fr_function_name r else [],
             fr_tool_call_id = if level = LevelDisabled then [] else fr_tool_call_id r,
             fr_result = if level = LevelFull then fr_result r else JNull\<rparr>
      | FunctionCallCancel nm tid \<Rightarrow>
          FunctionCallCancel (if shows_name level then nm else []) (if level = LevelDisabled then [] else tid)
      | LlmContext ctx \<Rightarrow> LlmContext \<lparr>messages = [], tools = []\<rparr>
      | TransportMessage v b \<Rightarrow> TransportMessage JNull b
      | UpdateSettings t v \<Rightarrow> UpdateSettings t JNull
      | _ \<Rightarrow> f)"

lemma call_hidden:
  "call_started level ((hide_call level call)\<lparr>fc_tool_call_id := t, fc_arguments := a\<rparr>) = call_started level call"
  "call_in_progress level (hide_call level call) = call_in_progress level call"
  by (auto simp: call_started_def call_in_progress_def hide_call_def shows_name_def)

lemma rtvi_map_frame_hidden:
  "rtvi_map_frame J st (hide_frame (function_call_report_level (rv_params st)) f) = rtvi_map_frame J st f"
  by (cases f)
     (simp_all add: hide_frame_def rtvi_map_frame_def Let_def call_hidden comp_def call_stopped_def)

text \<open>C40. The client learns of tool calls only what the report level allows: replacing in the pushed frames everything the
  level hides (below full detail the arguments and results, below names the function names, when disabled even the ids,
  and in every case the model's context, settings and transport messages) changes no message.\<close>

theorem rtvi_reports_within_level:
  "foldl (rtvi_on_push J) (rtvi_with_params p)
     (map (\<lambda>env. env\<lparr>env_frame := hide_frame (function_call_report_level p) (env_frame env)\<rparr>) envs) =
   foldl (rtvi_on_push J) (rtvi_with_params p) envs"
proof -
  have "foldl (rtvi_on_push J) st
      (map (\<lambda>env. env\<lparr>env_frame := hide_frame (function_call_report_level (rv_params st)) (env_frame env)\<rparr>) envs) =
    foldl (rtvi_on_push J) st envs" for st
  proof (induction envs arbitrary: st)
    case (Cons env envs)
    let ?h = "hide_frame (function_call_report_level (rv_params st)) (env_frame env)"
    have "rtvi_on_push J st (env\<lparr>env_frame := ?h\<rparr>) = rtvi_on_push J st env"
      using rtvi_map_frame_hidden [of J "st\<lparr>rv_frames_seen := rv_frames_seen st @ [fm_id (env_meta env)]\<rparr>" "env_frame env"]
      by (simp add: rtvi_on_push_def)
    with Cons.IH [of "rtvi_on_push J st env"] show ?case by simp
  qed simp
  from this [of "rtvi_with_params p"] show ?thesis by (simp add: rtvi_with_params_def)
qed

text \<open>The default parameters report everything, not what the default level of the type says.\<close>

lemma rtvi_default_reports_arguments:
  "function_call_report_level rtvi_params_default \<noteq> report_level_default \<and>
   call_in_progress (function_call_report_level rtvi_params_default) \<lparr>fc_function_name = f, fc_tool_call_id = i, fc_arguments = a\<rparr> =
     [rtvi_with_data ''llm-function-call-in-progress''
        (json_object [(''tool_call_id'', JStr i), (''function_name'', JStr f), (''arguments'', a)])]"
  by (simp add: rtvi_params_default_def report_level_default_def call_in_progress_def shows_name_def)

text \<open>A reply that does not end a sentence is shown with the next one: nothing is flushed at the end of a response.\<close>

lemma rtvi_reply_carried_over:
  assumes "bot_llm_enabled (rv_params st)" and "\<not> rtvi_ends_sentence (rv_bot_transcription st @ t)"
  shows "rv_bot_transcription (foldl (rtvi_map_frame J) st [LlmText t, LlmResponseEnd, LlmResponseStart]) = rv_bot_transcription st @ t"
  using assms by (simp add: rtvi_map_frame_def flush_bot_transcription_def Let_def)

end
