(* ===== verification/Audio_Mixer.thy ===== *)
theory Audio_Mixer
  imports Frame_Taps Audio_Codec
begin

text \<open>
  The mixers of the output leg, \<^verbatim>\<open>flowcat-core/src/audio/mixer.rs\<close>: the pass-through, the looping sound file, and the
  processor around either. The locale \<open>audio_mixer\<close> is the contract of the \<open>AudioMixer\<close> trait: as many samples out as in,
  and a stream may be cut anywhere. An index out of range would be the outer \<open>None\<close>.
\<close>

section \<open>Mixers\<close>

definition silence_mix :: "unit \<Rightarrow> i16 list \<Rightarrow> (unit \<times> i16 list) option" where
  "silence_mix s samples = Some (s, samples)"

record soundfile_mixer =
  sm_source :: "i16 list"
  sm_source_rate :: u32
  sm_pos :: nat
  sm_volume :: f32
  sm_looping :: bool
  sm_sample_rate :: u32
  sm_ready :: bool

definition soundfile_new :: "i16 list \<Rightarrow> u32 \<Rightarrow> f32 \<Rightarrow> bool \<Rightarrow> soundfile_mixer" where
  "soundfile_new source rate volume looping =
     \<lparr>sm_source = source, sm_source_rate = rate, sm_pos = 0, sm_volume = fl_clamp volume 0 1, sm_looping = looping,
      sm_sample_rate = rate, sm_ready = False\<rparr>"

definition set_volume :: "f32 \<Rightarrow> soundfile_mixer \<Rightarrow> soundfile_mixer" where
  "set_volume volume s = s\<lparr>sm_volume := fl_clamp volume 0 1\<rparr>"

definition soundfile_start :: "u32 \<Rightarrow> soundfile_mixer \<Rightarrow> soundfile_mixer" where
  "soundfile_start rate s = s\<lparr>sm_sample_rate := rate, sm_ready := (sm_source_rate s = rate \<and> sm_source s \<noteq> [])\<rparr>"

definition blend :: "i16 \<Rightarrow> i16 \<Rightarrow> f32 \<Rightarrow> i16" where
  "blend s src volume =
     (let mixed = fl_add f32_fmt (fl_round f32_fmt (of_int (sint s))) (fl_mul f32_fmt (fl_round f32_fmt (of_int (sint src))) volume)
      in fl_as_i16 (fl_clamp (fl_round_int mixed) (- 32768) 32767))"

fun mix_samples :: "soundfile_mixer \<Rightarrow> i16 list \<Rightarrow> (soundfile_mixer \<times> i16 list) option" where
  "mix_samples m [] = Some (m, [])"
| "mix_samples m (s # ss) =
     (let past = (length (sm_source m) \<le> sm_pos m)
      in if past \<and> \<not> sm_looping m
         then map_option (apsnd (Cons s)) (mix_samples m ss)
         else let m1 = (if past then m\<lparr>sm_pos := 0\<rparr> else m)
              in case index (sm_source m1) (sm_pos m1) of
                   None \<Rightarrow> None
                 | Some src \<Rightarrow>
                     map_option (apsnd (Cons (blend s src (sm_volume m1)))) (mix_samples (m1\<lparr>sm_pos := Suc (sm_pos m1)\<rparr>) ss))"

definition soundfile_mix :: "soundfile_mixer \<Rightarrow> i16 list \<Rightarrow> (soundfile_mixer \<times> i16 list) option" where
  "soundfile_mix m samples =
     (if \<not> sm_ready m \<or> sm_volume m = FNum 0 then Some (m, samples) else mix_samples m samples)"

section \<open>The processor\<close>

record 'm mixer_processor =
  mp_mixer :: 'm
  mp_enabled :: bool
  mp_sample_rate :: u32

definition mixer_processor_new :: "'m \<Rightarrow> 'm mixer_processor" where
  "mixer_processor_new m = \<lparr>mp_mixer = m, mp_enabled = True, mp_sample_rate = 24000\<rparr>"

definition mixer_processor_disabled :: "'m \<Rightarrow> 'm mixer_processor" where
  "mixer_processor_disabled m = \<lparr>mp_mixer = m, mp_enabled = False, mp_sample_rate = 24000\<rparr>"

definition mixer_start :: "(u32 \<Rightarrow> 'm \<Rightarrow> flowcat_error + 'm) \<Rightarrow> start_params \<Rightarrow> 'm mixer_processor \<Rightarrow> flowcat_error + 'm mixer_processor" where
  "mixer_start start params s =
     (let s1 = s\<lparr>mp_sample_rate := audio_out_sample_rate params\<rparr>
      in case start (mp_sample_rate s1) (mp_mixer s1) of
           Inl e \<Rightarrow> Inl e
         | Inr m \<Rightarrow> Inr (s1\<lparr>mp_mixer := m\<rparr>))"

definition mixer_process ::
  "('m \<Rightarrow> i16 list \<Rightarrow> ('m \<times> i16 list) option) \<Rightarrow> ('m mixer_processor, 'j envelope, 'j) tap_step" where
  "mixer_process mix l s env n =
     (let pass = Some (s, push_env l env, n);
          mixed = (\<lambda>a wrap. if mp_enabled s
             then case mix (mp_mixer s) (pcm a) of
                    None \<Rightarrow> None
                  | Some (m, out) \<Rightarrow>
                      (let (es, n1) = push_down l n (wrap (mono out (af_sample_rate a))) in Some (s\<lparr>mp_mixer := m\<rparr>, es, n1))
             else pass)
      in case env_frame env of
           MixerEnable on \<Rightarrow> Some (s\<lparr>mp_enabled := on\<rparr>, push_env l env, n)
         | OutputAudio a \<Rightarrow> mixed a OutputAudio
         | TtsAudio a ctx \<Rightarrow> mixed a (\<lambda>b. TtsAudio b ctx)
         | _ \<Rightarrow> pass)"

section \<open>The contract\<close>

locale audio_mixer =
  fixes mix :: "'m \<Rightarrow> i16 list \<Rightarrow> ('m \<times> i16 list) option" and usable :: "'m \<Rightarrow> bool"
  assumes total: "usable m \<Longrightarrow> \<exists>m1 out. mix m samples = Some (m1, out) \<and> usable m1 \<and> length out = length samples"
    and empty: "mix m [] = Some (m, [])"
    and chunks: "mix m samples = Some (m1, out) \<Longrightarrow> mix m (samples @ later) = map_option (apsnd ((@) out)) (mix m1 later)"
begin

text \<open>An enabled processor never fails on output audio, and what it sends is the mix of the whole stream, however the
  stream is cut into frames.\<close>

lemma stream_mixed:
  fixes envs :: "'j envelope list"
  assumes "mp_enabled s" and "usable (mp_mixer s)" and "l_next l \<noteq> None" and "map env_frame envs = map OutputAudio as"
  shows "\<exists>s1 es n1 m1 bs. run_frames (mixer_process mix) l s envs n = Some (s1, es, n1) \<and> sent_frames es = map OutputAudio bs \<and>
    mix (mp_mixer s) (concat (map pcm as)) = Some (m1, concat (map pcm bs)) \<and> mp_mixer s1 = m1 \<and>
    map (length \<circ> pcm) bs = map (length \<circ> pcm) as"
  using assms
proof (induction as arbitrary: s n envs)
  case Nil
  then show ?case by (intro exI [of _ s] exI [of _ "[]"] exI [of _ n] exI [of _ "mp_mixer s"]) (simp add: empty)
next
  case (Cons a as)
  from Cons.prems(4) obtain env envs' where e: "envs = env # envs'" "env_frame env = OutputAudio a" "map env_frame envs' = map OutputAudio as"
    by (cases envs) auto
  from total [OF Cons.prems(2), of "pcm a"] obtain m1 out where
    m: "mix (mp_mixer s) (pcm a) = Some (m1, out)" "usable m1" "length out = length (pcm a)" by blast
  let ?b = "mono out (af_sample_rate a)"
  obtain es :: "'j eff list" and n1 where pd: "push_down l n (OutputAudio ?b) = (es, n1)" by fastforce
  then have es: "sent_frames es = [OutputAudio ?b]" using Cons.prems(3) by (metis fst_conv sent_frames_push_down)
  let ?s = "s\<lparr>mp_mixer := m1\<rparr>"
  have step: "mixer_process mix l s env n = Some (?s, es, n1)"
    using Cons.prems(1) m(1) e(2) pd by (simp add: mixer_process_def Let_def)
  have mx: "mp_mixer ?s = m1" and "mp_enabled ?s" "usable (mp_mixer ?s)" using Cons.prems(1) m(2) by simp_all
  from Cons.IH [OF this(2,3) Cons.prems(3) e(3), of n1, unfolded mx] obtain s2 es2 n2 m2 bs where
    r: "run_frames (mixer_process mix) l ?s envs' n1 = Some (s2, es2, n2)" "sent_frames es2 = map OutputAudio bs"
    "mix m1 (concat (map pcm as)) = Some (m2, concat (map pcm bs))" "mp_mixer s2 = m2"
    "map (length \<circ> pcm) bs = map (length \<circ> pcm) as" by blast
  have "mix (mp_mixer s) (concat (map pcm (a # as))) = Some (m2, concat (map pcm (?b # bs)))"
    using chunks [OF m(1), of "concat (map pcm as)"] r(3) by (simp add: mono_def)
  moreover have "run_frames (mixer_process mix) l s envs n = Some (s2, es @ es2, n2)" using step r(1) by (simp add: e(1))
  ultimately show ?case
    using es r(2,4,5) m(3) by (intro exI [of _ s2] exI [of _ "es @ es2"] exI [of _ n2] exI [of _ m2] exI [of _ "?b # bs"]) (simp add: mono_def comp_def)
qed

end

text \<open>Both mixers keep the contract; the sound file because it is only ready with samples to read.\<close>

definition soundfile_usable :: "soundfile_mixer \<Rightarrow> bool" where
  "soundfile_usable m \<longleftrightarrow> sm_ready m \<longrightarrow> sm_source m \<noteq> []"

lemma soundfile_start_usable: "soundfile_usable (soundfile_start rate m)" "soundfile_usable (soundfile_new source rate volume looping)"
  by (simp_all add: soundfile_usable_def soundfile_start_def soundfile_new_def)

interpretation silence: audio_mixer silence_mix "\<lambda>_. True"
  by unfold_locales (simp_all add: silence_mix_def)

lemma mix_samples_total:
  assumes "sm_source m \<noteq> []"
  shows "\<exists>pos out. mix_samples m ss = Some (m\<lparr>sm_pos := pos\<rparr>, out) \<and> length out = length ss"
  using assms
proof (induction ss arbitrary: m)
  case Nil
  then show ?case by (intro exI [of _ "sm_pos m"]) simp
next
  case (Cons s ss)
  show ?case
  proof (cases "length (sm_source m) \<le> sm_pos m \<and> \<not> sm_looping m")
    case True
    with Cons.IH [OF Cons.prems] show ?thesis by auto
  next
    case False
    define pos where "pos = (if length (sm_source m) \<le> sm_pos m then 0 else sm_pos m)"
    have m0: "(if length (sm_source m) \<le> sm_pos m then m\<lparr>sm_pos := 0\<rparr> else m) = m\<lparr>sm_pos := pos\<rparr>"
      by (simp add: pos_def)
    have "index (sm_source m) pos = Some (sm_source m ! pos)" using Cons.prems by (simp add: index_def pos_def)
    moreover obtain pos' out where "mix_samples (m\<lparr>sm_pos := Suc pos\<rparr>) ss = Some (m\<lparr>sm_pos := pos'\<rparr>, out)" "length out = length ss"
      using Cons.IH [of "m\<lparr>sm_pos := Suc pos\<rparr>"] Cons.prems by auto
    ultimately show ?thesis using False by (simp only: mix_samples.simps Let_def m0) auto
  qed
qed

lemma mix_samples_append:
  "mix_samples m ss = Some (m1, out) \<Longrightarrow> mix_samples m (ss @ later) = map_option (apsnd ((@) out)) (mix_samples m1 later)"
proof (induction ss arbitrary: m out)
  case Nil
  then show ?case by (simp add: option.map_ident apsnd_def map_prod_def)
next
  case (Cons s ss)
  have join: "map_option (apsnd (Cons x)) (map_option (apsnd ((@) o1)) r) = map_option (apsnd ((@) (x # o1))) r" for x o1 and r :: "('x \<times> i16 list) option"
    by (cases r) auto
  from Cons.prems show ?case
    by (auto simp: Let_def Cons.IH join index_def split: if_splits option.splits)
qed

lemma mix_samples_keeps:
  "mix_samples m ss = Some (m1, out) \<Longrightarrow> sm_ready m1 = sm_ready m \<and> sm_volume m1 = sm_volume m"
  by (induction ss arbitrary: m out) (fastforce simp: Let_def split: if_splits option.splits)+

interpretation soundfile: audio_mixer soundfile_mix soundfile_usable
proof (unfold_locales, goal_cases)
  case (1 m samples)
  then show ?case
    using mix_samples_total [of m samples] by (auto simp: soundfile_mix_def soundfile_usable_def)
next
  case (3 m samples m1 out later)
  then show ?case
    using mix_samples_keeps [of m samples m1 out] mix_samples_append [of m samples m1 out later]
    by (auto simp: soundfile_mix_def split: if_splits)
qed (simp add: soundfile_mix_def)

text \<open>With a sound file that fits the output rate, the audio that reaches the carrier is the whole reply blended with the
  looping file, whatever frames the reply comes in, and every frame keeps its length.\<close>

lemma soundfile_stream:
  assumes "mp_enabled s" and "mp_mixer s = soundfile_start rate m" and "l_next l \<noteq> None" and "map env_frame envs = map OutputAudio as"
  shows "\<exists>s1 es n1 m1 bs. run_frames (mixer_process soundfile_mix) l s envs n = Some (s1, es, n1) \<and> sent_frames es = map OutputAudio bs \<and>
    soundfile_mix (soundfile_start rate m) (concat (map pcm as)) = Some (m1, concat (map pcm bs)) \<and> mp_mixer s1 = m1 \<and>
    map (length \<circ> pcm) bs = map (length \<circ> pcm) as"
  using soundfile.stream_mixed [of s l envs as n] assms soundfile_start_usable(1) [of rate m] by simp

text \<open>A disabled processor, and any frame but bot audio, is left alone.\<close>

lemma mixer_passes:
  assumes "\<not> mp_enabled s" and "kind (env_frame env) \<noteq> KMixerEnable"
  shows "mixer_process mix l s env n = Some (s, push_env l env, n)"
  using assms by (cases "env_frame env") (simp_all add: mixer_process_def Let_def)

end
