(* ===== verification/Spec2Isabelle.thy ===== *)
theory Spec2Isabelle
  imports Pipeline_Task Rtp Dtmf Text_Aggregation Turn Turn_Strategy Agent_Engine
    Call_Filters Voicemail Wake_Word Realtime_Session Context_Relay
    Cascaded_Edge Service_Adapters Sip_Agent Rtvi Audio_Mixer
begin

text \<open>
  Flowcat is a framework for voice agents: audio, text and control travel as \<^emph>\<open>frames\<close> through a
  graph of \<^emph>\<open>processors\<close>, each a task with its own queues. This library models the core of it and
  proves what makes it correct. File names are relative to \<^verbatim>\<open>src/\<close>, and to
  \<^verbatim>\<open>flowcat-core/src/\<close> where no crate is named.

  \<^bold>\<open>How the parts interact.\<close> A transport feeds frames into the head queue of a \<open>PipelineTask\<close>
  (\<open>Pipeline_Task\<close>). The task has linked the user's topology into a graph of channels
  (\<open>Pipeline_Link\<close>) and spawned a task per processor, which runs the receive loop of
  \<open>Proc_Runtime\<close>, and a relay per composite (\<open>Frame_Relays\<close>). Frames leave at the Sink, whose tap
  tells the task when to stop. Inside, processors do the media work: voice activity detection
  (\<open>Vad\<close>), end-of-turn prediction (\<open>Turn\<close>, decided on by \<open>Turn_Strategy\<close>), text aggregation for
  speech synthesis (\<open>Text_Aggregation\<close>); telephony adds SIP calls (\<open>Sip_Agent\<close>) with their
  media (\<open>Sip_Media\<close>, on \<open>Sdp\<close> and \<open>Rtp\<close>) and DTMF (\<open>Dtmf\<close>). What the agent
  says next is decided by a brain; the declarative one walks a graph of prompts on the tools the model
  calls (\<open>Agent_Engine\<close>). A call is one of two assemblies of such stages around the state of the call (\<open>Live_State\<close>):
  a speech-to-speech model with its reader, brain and output (\<open>Realtime_Session\<close>), re-based on a digest when its context
  grows (\<open>Context_Relay\<close>), or recognition, language model and synthesis in cascade around a rolling context
  (\<open>Rolling_Context\<close>).

  \<^bold>\<open>The theories.\<close>
  \<^item> \<open>Flowcat_Prelude\<close>: machine integers, panicking indexing, Rust strings as lists of code points
    with byte offsets, and the lemma collections.
  \<^item> \<open>Floats\<close>: \<open>f32\<close> and \<open>f64\<close> as IEEE formats over exact rationals, rounding included.
  \<^item> \<open>Frames\<close>: \<^verbatim>\<open>processor/frame.rs\<close>, every frame, its class, kind and metadata.
  \<^item> \<open>Proc_Runtime\<close>: \<^verbatim>\<open>processor/mod.rs\<close> and \<^verbatim>\<open>processor/runtime.rs\<close>: links and push helpers, the
    two-queue receive half, the receive loop with its lifecycle and interruption handling. Effects
    (sends, observer calls, taps) are a list in program order. Shown: what an interruption
    discards and keeps, that an end flushes, that system frames come first, that lifecycle frames
    never reach \<open>process_frame\<close>, that errors are reported.
  \<^item> \<open>Frame_Relays\<close>: \<^verbatim>\<open>pipeline/parallel.rs\<close> and the bridge: fan-out, fan-in with deduplication and
    lifecycle synchronisation, as instances of one relay contract.
  \<^item> \<open>Pipeline_Link\<close>: \<^verbatim>\<open>pipeline/mod.rs\<close>: topologies, the linker, Source and Sink. Shown: every channel
    has one reader, every destination exists, a chain is wired neighbour to neighbour.
  \<^item> \<open>Observers\<close>: \<^verbatim>\<open>observer/mod.rs\<close>, the built-in observers.
  \<^item> \<open>Pipeline_Task\<close>: \<^verbatim>\<open>pipeline/task.rs\<close>, \<^verbatim>\<open>source_pump.rs\<close>, \<^verbatim>\<open>runner.rs\<close>: the life of a task as a transition
    system. Shown: start before everything else, a first-in-first-out head queue whose frames reach the head channel, an end for every
    terminal frame, finish callbacks once, and what the default idle configuration does.
  \<^item> \<open>Rtp\<close>: \<^verbatim>\<open>sip/rtp.rs\<close>: packets byte by byte, the jitter buffer on 16-bit sequence numbers,
    refined to a specification on unbounded ones.
  \<^item> \<open>Dtmf\<close>: \<^verbatim>\<open>flowcat-telephony/src/dtmf/\<close>: RFC 4733 events, sender, receiver, in-band debounce.
  \<^item> \<open>Text_Aggregation\<close>: \<^verbatim>\<open>agent/text_filter.rs\<close>: three aggregators behind one contract, the Markdown
    filter, the wrapping processors.
  \<^item> \<open>Vad\<close>: \<^verbatim>\<open>audio/vad.rs\<close>: the debounce machine refined to a two-sided hysteresis, analyzers behind
    one contract, the processor whose edges alternate.
  \<^item> \<open>Turn\<close>, \<open>Turn_Strategy\<close>: \<^verbatim>\<open>audio/turn.rs\<close> and \<^verbatim>\<open>audio/strategy.rs\<close>: silence tracker, analyzers,
    windowing; start, stop, mute and interruption strategies characterised by the history of calls.
  \<^item> \<open>Frame_Taps\<close>: the contract of a processor that watches some frames and forwards the rest, and of one that
    decides once; \<open>Call_Filters\<close>, \<open>Voicemail\<close>, \<open>Wake_Word\<close>: its instances in \<^verbatim>\<open>agent/\<close> (\<^verbatim>\<open>fcall_filter.rs\<close>,
    \<^verbatim>\<open>ivr.rs\<close>, \<^verbatim>\<open>voicemail.rs\<close>, \<^verbatim>\<open>wakeword.rs\<close>). Shown: which calls the filter keeps, how far the navigator
    gets, one voicemail decision and what it cannot see, when the wake gate opens and when it panics.
  \<^item> \<open>Json\<close>: what the agent uses of \<open>serde_json\<close> values and of the standard library's string functions.
  \<^item> \<open>Agent_Graph\<close>, \<open>Agent_Template\<close>, \<open>Agent_Engine\<close>: \<^verbatim>\<open>flowcat-agent/src/\<close>: \<^verbatim>\<open>graph.rs\<close>, the interpolation of
    \<^verbatim>\<open>engine.rs\<close>, and the engine and brain. Shown: a parsed graph is well formed for every hash order and
    its cardinality errors are exact, interpolation is one pass, an agent stays on its graph and records its visits, a
    transfer dials only a configured number and the brain offers none.
  \<^item> \<open>Audio_Codec\<close>: \<^verbatim>\<open>codec.rs\<close> and \<^verbatim>\<open>error.rs\<close>: the streaming resampler around a third-party engine and the sample
    conversions. Shown: the chunking of a stream does not matter, conversion loses nothing.
  \<^item> \<open>Recorder\<close>, \<open>Transcript\<close>: \<^verbatim>\<open>audio/mod.rs\<close> and \<^verbatim>\<open>transcript.rs\<close>: the two-leg timeline, its rendering and mixing, and the
    merged transcript. Shown: every sample of a recording of two legs at its rate, and where a turn's tail goes wrong.
  \<^item> \<open>Live_State\<close>: \<^verbatim>\<open>pipeline/s2s.rs\<close>, the state the stages of a call share, the recorder and transcript taps and the
    finalizer, with the types of \<^verbatim>\<open>types.rs\<close> and \<^verbatim>\<open>session.rs\<close> it reports in. Shown: a call is reported once, with the
    sums of the usage its frames carried and exactly the artifacts that were uploaded.
  \<^item> \<open>Realtime_Session\<close>: \<^verbatim>\<open>pipeline/s2s.rs\<close>: reader, realtime service, brain and output stage. Shown: the reader
    sends on every line of the conversation, tool calls are answered once, the model hears the whole caller, and three
    losses: a line drained by the interruption behind it, and two at the end of a call.
  \<^item> \<open>Context_Relay\<close>: \<^verbatim>\<open>pipeline/context_relay.rs\<close>. Shown: every prompt a session is re-based on carries the
    conversation, summarised or word for word.
  \<^item> \<open>Rolling_Context\<close>: \<^verbatim>\<open>pipeline/cascaded.rs\<close>: context, summarizer, aggregators, tool bridge, kickoff. Shown: contexts
    pair tool calls with results in every interleaving, replies are spoken once.
  \<^item> \<open>Task_Pool\<close>, \<open>Turn_Lock\<close>: small tasks over shared state, one atomic operation per step, with invariants and progress as
    locale laws. Progress is inevitability: every run of the tasks, whichever is scheduled and however late, comes to the
    predicate; a rank that falls with every move shows it. The half-duplex turn lock and the bot-speaking notifier of
    \<^verbatim>\<open>pipeline/cascaded.rs\<close> are interpretations. Shown: once no further call comes, the lock is released and announced so in
    every run, and the notifier falls silent with its edges balanced; and three races.
  \<^item> \<open>Cascaded_Edge\<close>: \<^verbatim>\<open>pipeline/cascaded.rs\<close>: speech gate, stale-audio latch, output stage. Shown: utterances pass whole with
    their pre-roll, the latch cannot stay stale, a dead carrier ends the call once.
  \<^item> \<open>Service_Adapters\<close>: \<^verbatim>\<open>service/adapters.rs\<close>: the processors around recognition, language model and synthesis. Shown: a
    cancelled completion closes its response, synthesis is billed by character.
  \<^item> \<open>Sdp\<close>: \<^verbatim>\<open>sip/sdp.rs\<close>: session descriptions, built and parsed. Shown: the round trip, and one wrong address.
  \<^item> \<open>Sip_Media\<close>: \<^verbatim>\<open>sip/transport.rs\<close>: the receiving task and the paced pump of a media leg, and the pump that feeds the pipeline, composed of \<open>Sdp\<close>, \<open>Rtp\<close> and
    \<open>Audio_Codec\<close>. Shown: a caller is heard in order across changes of the stream, one leg hears what another hands in, but for a block the socket refuses.
  \<^item> \<open>Sip_Agent\<close>: \<^verbatim>\<open>sip/agent.rs\<close>: port scan, registration loop, dialogs from INVITE to supervisor. Shown: the port found,
    and who owns a dialog.
  \<^item> \<open>Rtvi\<close>: \<^verbatim>\<open>observer/rtvi.rs\<close>: frames as messages of the client protocol. Shown: no message depends on what the report
    level hides.
  \<^item> \<open>Audio_Mixer\<close>: \<^verbatim>\<open>audio/mixer.rs\<close>: mixers behind one contract and the processor around them. Shown: the mix does not
    depend on the cut of the stream.

  \<^bold>\<open>Conventions.\<close> Stateful code takes and returns a record; a panic is \<open>None\<close>, an error value is in a
  sum or option type. Asynchronous tasks are loops over explicit queues; where several tasks
  interleave (\<open>Pipeline_Task\<close>) each select branch is a labelled transition. Frame ids come from a
  counter passed through. JSON payloads are a type parameter \<open>'j\<close>: the core moves them unread.
  No definition needs fuel: every loop is structural or has a measure, except the pattern
  aggregator's recursion, which is partial and proved total for patterns that are not empty.

  \<^bold>\<open>Arguments for code outside the repository.\<close> The ONNX models of Silero and Smart-Turn, the loudness of
  a window (a logarithm), the Goertzel tone classifier and random seeds are function arguments;
  so are the clock, the derived JSON decoding, the printing of JSON and the iteration order of a
  hash map (only required to enumerate its keys once). So are the resampling engine, the G.711 tables, the WAV writer, the
  control plane, the realtime model, the carrier and the summarising model: records of functions, those with a state of
  their own given the calls made so far. The theorems hold for every choice of them unless a hypothesis says otherwise.

  \<^bold>\<open>Not modelled.\<close> The SIP stack, WebSocket and WebRTC transports, realtime model sessions, the vendors' service clients and
  the server are I/O against external protocols; serializers and carriers are per-vendor glue; the assemblers of the two
  sessions only construct and wire the stages; noise suppression is a foreign library. Back-pressure (a full bounded channel delaying its sender) and real time
  are not represented: a timer firing is a transition that may happen.
\<close>

end
